(* ===== verification/Prelude.thy ===== *)
theory Prelude
  imports Main "HOL-Library.Word" "HOL-Library.Multiset"
begin

unbundle bit_operations_syntax

text \<open>
  Shared vocabulary of the development: the machine integer types, little- and big-endian
  byte images of words (the targets, ESP32 and x86, are little-endian), the byte-wise view of
  memcpy, memcmp and memset on arrays, and the index loop that scans an array for the first
  hit. The collections \<open>codec_simps\<close> (byte images and their lengths) and \<open>shape_intros\<close>
  (array shapes kept by the operations) are filled here and in the component theories.
\<close>

named_theorems codec_simps "byte images of words and packets"
named_theorems shape_intros "operations that keep the shape of an array"

type_synonym u8 = "8 word"
type_synonym u16 = "16 word"
type_synonym u32 = "32 word"
type_synonym u64 = "64 word"

section \<open>Byte images of words\<close>

definition le_bytes :: "nat \<Rightarrow> 'a::len word \<Rightarrow> u8 list" where
  "le_bytes n w = map (\<lambda>i. ucast (drop_bit (8 * i) w)) [0..<n]"

primrec le_word :: "u8 list \<Rightarrow> 'a::len word" where
  "le_word [] = 0"
| "le_word (b # bs) = ucast b OR push_bit 8 (le_word bs)"

lemma length_le_bytes [simp, codec_simps]: "length (le_bytes n w) = n"
  by (simp add: le_bytes_def)

lemma nth_le_bytes: "i < n \<Longrightarrow> le_bytes n w ! i = ucast (drop_bit (8 * i) w)"
  by (simp add: le_bytes_def)

lemma bit_le_word:
  "bit (le_word bs :: 'a::len word) k \<longleftrightarrow>
     k < LENGTH('a) \<and> k div 8 < length bs \<and> bit (bs ! (k div 8)) (k mod 8)"
proof (induction bs arbitrary: k)
  case Nil
  then show ?case by simp
next
  case (Cons b bs)
  show ?case
  proof (cases "k < 8")
    case True
    then show ?thesis by (auto simp: bit_simps)
  next
    case False
    then have "k div 8 = Suc ((k - 8) div 8)" "(k - 8) mod 8 = k mod 8"
      by (simp_all add: le_div_geq le_mod_geq)
    with False Cons.IH [of "k - 8"] show ?thesis
      by (auto simp: bit_simps dest: bit_imp_le_length)
  qed
qed

lemma le_word_le_bytes [simp, codec_simps]:
  fixes w :: "'a::len word"
  assumes "LENGTH('a) \<le> 8 * n"
  shows "le_word (le_bytes n w) = w"
proof (rule bit_word_eqI)
  fix k assume k: "k < LENGTH('a)"
  with assms have "k div 8 < n" by (simp add: less_mult_imp_div_less mult.commute)
  with k show "bit (le_word (le_bytes n w) :: 'a word) k \<longleftrightarrow> bit w k"
    by (simp add: bit_le_word nth_le_bytes bit_simps)
qed

lemma le_bytes_le_word [simp, codec_simps]:
  assumes "8 * length bs \<le> LENGTH('a)"
  shows "le_bytes (length bs) (le_word bs :: 'a::len word) = bs"
proof (rule nth_equalityI)
  fix i assume "i < length (le_bytes (length bs) (le_word bs :: 'a word))"
  then have i: "i < length bs" by simp
  show "le_bytes (length bs) (le_word bs :: 'a word) ! i = bs ! i"
  proof (rule bit_word_eqI)
    fix k :: nat assume k: "k < LENGTH(8)"
    with i assms have "8 * i + k < LENGTH('a)" by simp
    moreover from k have "(8 * i + k) div 8 = i" "(8 * i + k) mod 8 = k" by simp_all
    ultimately show "bit (le_bytes (length bs) (le_word bs :: 'a word) ! i) k \<longleftrightarrow> bit (bs ! i) k"
      using i k by (simp add: nth_le_bytes bit_simps bit_le_word)
  qed
qed simp

lemma le_word_inject:
  assumes "length xs = length ys" "8 * length xs \<le> LENGTH('a)"
  shows "(le_word xs :: 'a::len word) = le_word ys \<longleftrightarrow> xs = ys"
  using assms by (metis le_bytes_le_word)

lemma le_bytes_inject:
  fixes v w :: "'a::len word"
  assumes "LENGTH('a) \<le> 8 * n"
  shows "le_bytes n v = le_bytes n w \<longleftrightarrow> v = w"
  using assms by (metis le_word_le_bytes)

text \<open>
  htonl, ntohl and their 64-bit kin on a little-endian host reverse the bytes of a word.
\<close>

definition htonl :: "u32 \<Rightarrow> u32" where
  "htonl w = le_word (rev (le_bytes 4 w))"

definition ntohl :: "u32 \<Rightarrow> u32" where
  "ntohl w = le_word (rev (le_bytes 4 w))"

definition htobe64 :: "u64 \<Rightarrow> u64" where
  "htobe64 w = le_word (rev (le_bytes 8 w))"

definition be64toh :: "u64 \<Rightarrow> u64" where
  "be64toh w = le_word (rev (le_bytes 8 w))"

lemma le_bytes_htonl [codec_simps]: "le_bytes 4 (htonl w) = rev (le_bytes 4 w)"
  using le_bytes_le_word [of "rev (le_bytes 4 w)", where ?'a = 32]
  by (simp add: htonl_def)

lemma le_bytes_htobe64 [codec_simps]: "le_bytes 8 (htobe64 w) = rev (le_bytes 8 w)"
  using le_bytes_le_word [of "rev (le_bytes 8 w)", where ?'a = 64]
  by (simp add: htobe64_def)

lemma ntohl_htonl [simp]: "ntohl (htonl w) = w"
  by (simp add: ntohl_def le_bytes_htonl)

lemma be64toh_htobe64 [simp]: "be64toh (htobe64 w) = w"
  by (simp add: be64toh_def le_bytes_htobe64)

lemma htonl_0 [simp]: "htonl 0 = 0"
  by (simp add: htonl_def le_bytes_def upt_rec)

lemma htobe64_0 [simp]: "htobe64 0 = 0"
  by (simp add: htobe64_def le_bytes_def upt_rec)

section \<open>Byte arrays\<close>

text \<open>
  \<open>memcpy dst src n\<close> overwrites the first \<open>n\<close> bytes of \<open>dst\<close>; \<open>memeq n a b\<close> is
  memcmp(a, b, n) == 0.
\<close>

definition memcpy :: "'a list \<Rightarrow> 'a list \<Rightarrow> nat \<Rightarrow> 'a list" where
  "memcpy dst src n = take n src @ drop n dst"

definition memeq :: "nat \<Rightarrow> 'a list \<Rightarrow> 'a list \<Rightarrow> bool" where
  "memeq n a b \<longleftrightarrow> take n a = take n b"

lemma length_memcpy [simp]:
  "n \<le> length src \<Longrightarrow> n \<le> length dst \<Longrightarrow> length (memcpy dst src n) = length dst"
  by (simp add: memcpy_def)

lemma memcpy_all [simp]: "length src = n \<Longrightarrow> length dst = n \<Longrightarrow> memcpy dst src n = src"
  by (simp add: memcpy_def)

lemma memeq_all [simp]: "length a = n \<Longrightarrow> length b = n \<Longrightarrow> memeq n a b \<longleftrightarrow> a = b"
  by (simp add: memeq_def)

lemma list_update_split:
  "i < length xs \<Longrightarrow> xs[i := v] = take i xs @ v # drop (Suc i) xs"
  by (rule upd_conv_take_nth_drop)

lemma forall_nth_update:
  "\<forall>x \<in> set xs. P x \<Longrightarrow> P v \<Longrightarrow> \<forall>x \<in> set (xs[i := v]). P x"
  using set_update_subset_insert [of xs i v] by blast

end
