(* ===== verification/Packet.thy ===== *)
theory Packet
  imports Prelude
begin

text \<open>
  The on-air packet of emergencyPacket.h: its fields, its 25-byte packed memory image, the
  location union as its eight bytes of storage, the TTL kept in the low five bits of the flags
  byte, and the hop rule that the relays of both implementations apply to it. Two interfaces
  are stated here: \<open>byte_image\<close> (a type with a fixed-size memory image) and \<open>hop_limited\<close>
  (messages that carry a hop budget and a part no relay may change).
\<close>

section \<open>The packed structure\<close>

record emergencyPacket =
  phone :: u32
  timestamp :: u32
  flags :: u8
  payload :: u64
  hmac_sig :: "u8 list"

definition SIG_LEN :: nat where
  "SIG_LEN = 8"

definition PACKET_SIZE :: nat where
  "PACKET_SIZE = 25"

definition zero_packet :: emergencyPacket where
  "zero_packet = \<lparr>phone = 0, timestamp = 0, flags = 0, payload = 0, hmac_sig = replicate SIG_LEN 0\<rparr>"

definition wf_packet :: "emergencyPacket \<Rightarrow> bool" where
  "wf_packet p \<longleftrightarrow> length (hmac_sig p) = SIG_LEN"

definition packet_bytes :: "emergencyPacket \<Rightarrow> u8 list" where
  "packet_bytes p = le_bytes 4 (phone p) @ le_bytes 4 (timestamp p) @ [flags p] @
     le_bytes 8 (payload p) @ hmac_sig p"

definition bytes_packet :: "u8 list \<Rightarrow> emergencyPacket" where
  "bytes_packet bs =
     \<lparr>phone = le_word (take 4 bs),
      timestamp = le_word (take 4 (drop 4 bs)),
      flags = bs ! 8,
      payload = le_word (take 8 (drop 9 bs)),
      hmac_sig = take 8 (drop 17 bs)\<rparr>"

text \<open>sizeof: the size of a packet is the length of its memory image.\<close>

instantiation emergencyPacket_ext :: (type) size
begin

definition size_emergencyPacket_ext :: "'a emergencyPacket_scheme \<Rightarrow> nat" where
  "size_emergencyPacket_ext p = 4 + 4 + 1 + 8 + length (hmac_sig p)"

instance ..

end

text \<open>The union LocationData: two 32-bit coordinates or one 64-bit nonce in the same bytes.\<close>

definition gps_latitude :: "u64 \<Rightarrow> u32" where
  "gps_latitude u = ucast u"

definition gps_longitude :: "u64 \<Rightarrow> u32" where
  "gps_longitude u = ucast (drop_bit 32 u)"

definition set_latitude :: "u32 \<Rightarrow> u64 \<Rightarrow> u64" where
  "set_latitude x u = ucast x OR push_bit 32 (drop_bit 32 u)"

definition set_longitude :: "u32 \<Rightarrow> u64 \<Rightarrow> u64" where
  "set_longitude x u = take_bit 32 u OR push_bit 32 (ucast x)"

lemma wf_zero_packet [simp]: "wf_packet zero_packet"
  by (simp add: wf_packet_def zero_packet_def)

lemma wf_packet_upd [simp]:
  "wf_packet (p\<lparr>phone := a\<rparr>) = wf_packet p"
  "wf_packet (p\<lparr>timestamp := a\<rparr>) = wf_packet p"
  "wf_packet (p\<lparr>flags := f\<rparr>) = wf_packet p"
  "wf_packet (p\<lparr>payload := u\<rparr>) = wf_packet p"
  by (simp_all add: wf_packet_def)

lemma length_packet_bytes [simp, codec_simps]:
  "wf_packet p \<Longrightarrow> length (packet_bytes p) = PACKET_SIZE"
  by (simp add: packet_bytes_def wf_packet_def SIG_LEN_def PACKET_SIZE_def)

lemma size_packet: "wf_packet p \<Longrightarrow> size p = PACKET_SIZE"
  by (simp add: size_emergencyPacket_ext_def wf_packet_def SIG_LEN_def PACKET_SIZE_def)

lemma bytes_packet_bytes [simp, codec_simps]:
  assumes "wf_packet p"
  shows "bytes_packet (packet_bytes p) = p"
proof -
  have "packet_bytes p ! 8 = flags p"
    by (simp add: packet_bytes_def nth_append)
  with assms show ?thesis
    by (simp add: bytes_packet_def packet_bytes_def wf_packet_def SIG_LEN_def)
qed

lemma wf_bytes_packet [simp]: "length bs = PACKET_SIZE \<Longrightarrow> wf_packet (bytes_packet bs)"
  by (simp add: wf_packet_def bytes_packet_def PACKET_SIZE_def SIG_LEN_def)

lemma le_bytes_le_word_n:
  "length bs = n \<Longrightarrow> 8 * n \<le> LENGTH('a) \<Longrightarrow> le_bytes n (le_word bs :: 'a::len word) = bs"
  using le_bytes_le_word [of bs, where ?'a = 'a] by simp

lemma packet_bytes_bytes [simp, codec_simps]:
  assumes "length bs = PACKET_SIZE"
  shows "packet_bytes (bytes_packet bs) = bs"
proof -
  from assms have len: "length bs = 25" by (simp add: PACKET_SIZE_def)
  have cut: "drop n bs = take k (drop n bs) @ drop (n + k) bs" for n k
    by (metis append_take_drop_id drop_drop add.commute)
  have "bs = take 4 bs @ take 4 (drop 4 bs) @ take 1 (drop 8 bs) @ take 8 (drop 9 bs) @ drop 17 bs"
    using cut [of 0 4] cut [of 4 4] cut [of 8 1] cut [of 9 8] by simp
  moreover from len have "take 1 (drop 8 bs) = [bs ! 8]"
    by (simp add: take_Suc_conv_app_nth)
  ultimately show ?thesis
    using len by (simp add: packet_bytes_def bytes_packet_def le_bytes_le_word_n)
qed

section \<open>Types with a memory image\<close>

locale byte_image =
  fixes enc :: "'p \<Rightarrow> u8 list"
    and dec :: "u8 list \<Rightarrow> 'p"
    and wf :: "'p \<Rightarrow> bool"
    and width :: nat
  assumes enc_length: "wf p \<Longrightarrow> length (enc p) = width"
    and dec_enc: "wf p \<Longrightarrow> dec (enc p) = p"
    and dec_wf: "length bs = width \<Longrightarrow> wf (dec bs)"
    and enc_dec: "length bs = width \<Longrightarrow> enc (dec bs) = bs"
begin

lemma enc_inject: "wf p \<Longrightarrow> wf q \<Longrightarrow> enc p = enc q \<longleftrightarrow> p = q"
  by (metis dec_enc)

lemma dec_inject: "length xs = width \<Longrightarrow> length ys = width \<Longrightarrow> dec xs = dec ys \<longleftrightarrow> xs = ys"
  by (metis enc_dec)

lemma dec_framed: "wf p \<Longrightarrow> length pre = k \<Longrightarrow> dec (take width (drop k (pre @ enc p @ post))) = p"
  by (simp add: enc_length dec_enc)

lemma dec_memcpy_all: "wf p \<Longrightarrow> length old = width \<Longrightarrow> dec (memcpy old (enc p) width) = p"
  by (simp add: enc_length dec_enc)

end

interpretation pkt: byte_image packet_bytes bytes_packet wf_packet PACKET_SIZE
  by unfold_locales simp_all

interpretation w16: byte_image "le_bytes 2 :: u16 \<Rightarrow> u8 list" le_word "\<lambda>_. True" 2
  by unfold_locales (simp_all add: le_bytes_le_word_n)

interpretation w32: byte_image "le_bytes 4 :: u32 \<Rightarrow> u8 list" le_word "\<lambda>_. True" 4
  by unfold_locales (simp_all add: le_bytes_le_word_n)

interpretation w64: byte_image "le_bytes 8 :: u64 \<Rightarrow> u8 list" le_word "\<lambda>_. True" 8
  by unfold_locales (simp_all add: le_bytes_le_word_n)

subsection \<open>The union\<close>

lemma gps_set [simp]:
  "gps_latitude (set_latitude x u) = x"
  "gps_longitude (set_latitude x u) = gps_longitude u"
  "gps_longitude (set_longitude x u) = x"
  "gps_latitude (set_longitude x u) = gps_latitude u"
  by (rule bit_word_eqI,
      auto simp: gps_latitude_def gps_longitude_def set_latitude_def set_longitude_def bit_simps
           dest: bit_imp_le_length)+

lemma gps_eqI:
  assumes "gps_latitude u = gps_latitude v" "gps_longitude u = gps_longitude v"
  shows "u = v"
proof (rule bit_word_eqI)
  fix k assume k: "k < LENGTH(64)"
  show "bit u k \<longleftrightarrow> bit v k"
  proof (cases "k < 32")
    case True
    with assms(1) show ?thesis
      by (auto simp: gps_latitude_def bit_simps dest: arg_cong [where f = "\<lambda>w. bit w k"])
  next
    case False
    then obtain j where j: "k = 32 + j" using le_Suc_ex not_le by blast
    with k have "j < 32" by simp
    with assms(2) j show ?thesis
      by (auto simp: gps_longitude_def bit_simps add.commute dest: arg_cong [where f = "\<lambda>w. bit w j"])
  qed
qed

subsection \<open>Where the fields sit in memory\<close>

lemma packet_bytes_flags [simp]: "packet_bytes p ! 8 = flags p"
  by (simp add: packet_bytes_def nth_append)

lemma packet_bytes_sig [simp]: "drop 17 (packet_bytes p) = hmac_sig p"
  by (simp add: packet_bytes_def)

lemma bytes_packet_sig: "hmac_sig (bytes_packet bs) = take 8 (drop 17 bs)"
  by (simp add: bytes_packet_def)

lemma bytes_packet_flags: "flags (bytes_packet bs) = bs ! 8"
  by (simp add: bytes_packet_def)

section \<open>The TTL bits of the flags byte\<close>

text \<open>
  \<open>flags & (0xFF >> 3)\<close> and \<open>(flags & (0xFF << 5)) | ttl\<close>: both operands are promoted
  to int before the bit operation, and the result is stored back into a uint8\_t.
\<close>

definition ttl_of :: "u8 \<Rightarrow> u8" where
  "ttl_of f = ucast ((ucast f :: u32) AND drop_bit 3 0xFF)"

definition set_ttl :: "u8 \<Rightarrow> u8 \<Rightarrow> u8" where
  "set_ttl f t = ucast (((ucast f :: u32) AND push_bit 5 0xFF) OR ucast t)"

text \<open>The part of the flags byte that no relay changes.\<close>

definition flag_core :: "u8 \<Rightarrow> u8" where
  "flag_core f = f AND 0xE0"

lemma u8_eqI:
  fixes v w :: u8
  assumes "bit v 0 = bit w 0" "bit v 1 = bit w 1" "bit v 2 = bit w 2" "bit v 3 = bit w 3"
    "bit v 4 = bit w 4" "bit v 5 = bit w 5" "bit v 6 = bit w 6" "bit v 7 = bit w 7"
  shows "v = w"
proof (rule bit_word_eqI)
  fix n assume "n < LENGTH(8)"
  then have "n = 0 \<or> n = 1 \<or> n = 2 \<or> n = 3 \<or> n = 4 \<or> n = 5 \<or> n = 6 \<or> n = 7" by auto
  with assms show "bit v n \<longleftrightarrow> bit w n" by blast
qed

lemma ttl_of_mask: "ttl_of f = f AND 0x1F"
  by (rule u8_eqI) (simp_all add: ttl_of_def bit_simps)

lemma set_ttl_mask: "set_ttl f t = (f AND 0xE0) OR t"
  by (rule u8_eqI) (simp_all add: set_ttl_def bit_simps)

lemma ttl_of_take_bit: "ttl_of f = take_bit 5 f"
  by (simp add: ttl_of_mask take_bit_eq_mask mask_eq_decr_exp)

lemma ttl_bound: "unat (ttl_of f) < 32"
  using take_bit_nat_less_exp [of 5 "unat f"] by (simp add: ttl_of_take_bit unsigned_take_bit_eq)

lemma take_bit_small_u8: "unat (t :: u8) < 32 \<Longrightarrow> take_bit 5 t = t"
  by (simp add: word_unat_eq_iff unsigned_take_bit_eq take_bit_nat_eq_self)

lemma ttl_of_set_ttl [simp]:
  assumes "unat t < 32"
  shows "ttl_of (set_ttl f t) = t"
proof -
  have "ttl_of (set_ttl f t) = take_bit 5 t"
    by (rule u8_eqI) (simp_all add: ttl_of_mask set_ttl_mask bit_simps)
  with assms show ?thesis by (simp add: take_bit_small_u8)
qed

lemma flag_core_set_ttl [simp]:
  assumes "unat t < 32"
  shows "flag_core (set_ttl f t) = flag_core f"
proof -
  have "flag_core (set_ttl f t) = flag_core (set_ttl f (take_bit 5 t))"
    using assms by (simp add: take_bit_small_u8)
  also have "\<dots> = flag_core f"
    by (rule u8_eqI) (simp_all add: flag_core_def set_ttl_mask bit_simps)
  finally show ?thesis .
qed

lemma flags_split: "f = flag_core f OR ttl_of f"
  by (rule u8_eqI) (simp_all add: flag_core_def ttl_of_mask bit_simps)

section \<open>The hop rule\<close>

text \<open>
  What a relay does with the TTL of a packet it has not seen: nothing if the TTL is 0 already,
  drop it if the decremented TTL is 0, otherwise forward it with the decremented TTL.
\<close>

datatype hop = HopIgnored | HopExpired | HopForward emergencyPacket

definition ttl_hop :: "emergencyPacket \<Rightarrow> hop" where
  "ttl_hop p =
     (let ttl = ttl_of (flags p)
      in if 0 < ttl
         then (let ttl' = ttl - 1
               in if ttl' \<noteq> 0 then HopForward (p\<lparr>flags := set_ttl (flags p) ttl'\<rparr>)
                  else HopExpired)
         else HopIgnored)"

definition hop_packet :: "emergencyPacket \<Rightarrow> emergencyPacket option" where
  "hop_packet p = (case ttl_hop p of HopForward q \<Rightarrow> Some q | _ \<Rightarrow> None)"

definition packet_ttl :: "emergencyPacket \<Rightarrow> nat" where
  "packet_ttl p = unat (ttl_of (flags p))"

text \<open>The packet with its TTL bits cleared: what no relay may change.\<close>

definition packet_core :: "emergencyPacket \<Rightarrow> emergencyPacket" where
  "packet_core p = p\<lparr>flags := flag_core (flags p)\<rparr>"

lemma packet_core_eqs:
  assumes "packet_core q = packet_core p"
  shows "phone q = phone p" "timestamp q = timestamp p" "payload q = payload p" "flag_core (flags q) = flag_core (flags p)"
    "hmac_sig q = hmac_sig p"
  using arg_cong [OF assms, of phone] arg_cong [OF assms, of timestamp] arg_cong [OF assms, of payload]
    arg_cong [OF assms, of flags] arg_cong [OF assms, of hmac_sig] by (simp_all add: packet_core_def)

lemma packet_ttl_bound: "packet_ttl p < 32"
  by (simp add: packet_ttl_def ttl_bound)

lemma ttl_hop_cases:
  obtains (Ignored) "packet_ttl p = 0" "ttl_hop p = HopIgnored"
  | (Expired) "packet_ttl p = 1" "ttl_hop p = HopExpired"
  | (Forward) q where "1 < packet_ttl p" "ttl_hop p = HopForward q"
      "packet_ttl q = packet_ttl p - 1" "packet_core q = packet_core p"
      "hmac_sig q = hmac_sig p" "wf_packet q = wf_packet p"
proof -
  let ?t = "ttl_of (flags p)"
  have b: "unat ?t < 32" by (rule ttl_bound)
  have eqs: "?t = 0 \<longleftrightarrow> unat ?t = 0" "?t = 1 \<longleftrightarrow> unat ?t = 1"
    by (simp_all add: word_unat_eq_iff)
  then consider "?t = 0" | "?t = 1" | "1 < unat ?t" by linarith
  then show thesis
  proof cases
    case 1
    then show thesis by (intro Ignored) (simp_all add: packet_ttl_def ttl_hop_def)
  next
    case 2
    then show thesis by (intro Expired) (simp_all add: packet_ttl_def ttl_hop_def)
  next
    case 3
    then have ne: "?t \<noteq> 0" "?t \<noteq> 1" by auto
    have u: "unat (?t - 1) = unat ?t - 1"
      using ne(1) by (simp add: unat_minus_one)
    let ?q = "p\<lparr>flags := set_ttl (flags p) (?t - 1)\<rparr>"
    from b u have s: "unat (?t - 1) < 32" by simp
    have "ttl_hop p = HopForward ?q"
      using ne by (simp add: ttl_hop_def Let_def word_neq_0_conv [symmetric])
    then show thesis
      using 3 u s by (intro Forward [of ?q]) (simp_all add: packet_ttl_def packet_core_def)
  qed
qed

lemma hop_packet_Some:
  "hop_packet p = Some q \<Longrightarrow> Suc (packet_ttl q) = packet_ttl p \<and> 0 < packet_ttl q \<and>
     packet_core q = packet_core p \<and> hmac_sig q = hmac_sig p \<and> wf_packet q = wf_packet p"
  by (cases p rule: ttl_hop_cases) (auto simp: hop_packet_def)

lemma hop_packet_None: "hop_packet p = None \<longleftrightarrow> packet_ttl p \<le> 1"
  by (cases p rule: ttl_hop_cases) (auto simp: hop_packet_def)

lemma ttl_hop_Forward_iff: "ttl_hop p = HopForward q \<longleftrightarrow> hop_packet p = Some q"
  by (auto simp: hop_packet_def split: hop.splits)

text \<open>A packet with GPS bit and TTL 20, used at concrete inputs.\<close>

definition sample_packet :: emergencyPacket where
  "sample_packet = \<lparr>phone = 0x1234ABCD, timestamp = 29714400, flags = 0x94, payload = 7,
     hmac_sig = [1, 2, 3, 4, 5, 6, 7, 8]\<rparr>"

lemma wf_sample_packet [simp]: "wf_packet sample_packet"
  by (simp add: wf_packet_def sample_packet_def SIG_LEN_def)

lemma packet_ttl_sample [simp]: "packet_ttl sample_packet = 20"
  by (simp add: packet_ttl_def ttl_of_mask sample_packet_def)

section \<open>Messages with a hop budget\<close>

primrec relay_chain :: "('p \<Rightarrow> 'p option) \<Rightarrow> nat \<Rightarrow> 'p \<Rightarrow> 'p option" where
  "relay_chain f 0 p = Some p"
| "relay_chain f (Suc k) p = Option.bind (f p) (relay_chain f k)"

locale hop_limited =
  fixes fwd :: "'p \<Rightarrow> 'p option"
    and hops :: "'p \<Rightarrow> nat"
    and core :: "'p \<Rightarrow> 'c"
  assumes fwd_hops: "fwd p = Some q \<Longrightarrow> Suc (hops q) = hops p"
    and fwd_None: "fwd p = None \<longleftrightarrow> hops p \<le> 1"
    and fwd_core: "fwd p = Some q \<Longrightarrow> core q = core p"
begin

lemma chain_hops: "relay_chain fwd k p = Some q \<Longrightarrow> hops q + k = hops p"
  by (induction k arbitrary: p) (auto simp: bind_eq_Some_conv dest!: fwd_hops)

lemma chain_core: "relay_chain fwd k p = Some q \<Longrightarrow> core q = core p"
  by (induction k arbitrary: p) (auto simp: bind_eq_Some_conv dest!: fwd_core)

lemma chain_defined: "(\<exists>q. relay_chain fwd k p = Some q) \<longleftrightarrow> k = 0 \<or> k < hops p"
proof (induction k arbitrary: p)
  case 0
  then show ?case by simp
next
  case (Suc k)
  show ?case
  proof (cases "fwd p")
    case None
    with fwd_None [of p] show ?thesis by auto
  next
    case (Some q)
    with fwd_None [of p] have "1 < hops p" by (auto simp: not_le [symmetric])
    with Some Suc.IH [of q] fwd_hops [OF Some] show ?thesis by auto
  qed
qed

lemma chain_length: "relay_chain fwd k p = Some q \<Longrightarrow> k = 0 \<or> k < hops p"
  using chain_defined by blast

end

interpretation ttl: hop_limited hop_packet packet_ttl packet_core
  by unfold_locales (auto dest: hop_packet_Some simp: hop_packet_None)

end
