(* ===== verification/RecentStore.thy ===== *)
theory RecentStore
  imports Prelude
begin

text \<open>
  The contract a duplicate filter offers to the relays: a bounded store of the keys seen most
  recently, with a membership test and an insertion. The client lemmas (a key stays known
  until enough other keys came; a stream is accepted key by key without repetition) are proved
  once in the locale \<open>recent_store\<close> and used by every component that filters by signature.
\<close>

primrec put_all :: "('s \<Rightarrow> 'k \<Rightarrow> 's) \<Rightarrow> 's \<Rightarrow> 'k list \<Rightarrow> 's" where
  "put_all put s [] = s"
| "put_all put s (k # ks) = put_all put (put s k) ks"

text \<open>The keys of a stream that the filter lets through: test, then insert when new.\<close>

primrec accepted :: "('s \<Rightarrow> 'k \<Rightarrow> bool) \<Rightarrow> ('s \<Rightarrow> 'k \<Rightarrow> 's) \<Rightarrow> 's \<Rightarrow> 'k list \<Rightarrow> 'k list" where
  "accepted has put s [] = []"
| "accepted has put s (k # ks) =
     (if has s k then accepted has put s ks else k # accepted has put (put s k) ks)"

locale recent_store =
  fixes has :: "'s \<Rightarrow> 'k \<Rightarrow> bool"
    and put :: "'s \<Rightarrow> 'k \<Rightarrow> 's"
    and inv :: "'s \<Rightarrow> bool"
    and okey :: "'k \<Rightarrow> bool"
    and recent :: "'s \<Rightarrow> 'k list"
    and cap :: nat
  assumes recent_length: "inv s \<Longrightarrow> length (recent s) = cap"
    and cap_pos: "0 < cap"
    and has_recent: "inv s \<Longrightarrow> okey k \<Longrightarrow> has s k \<longleftrightarrow> k \<in> set (recent s)"
    and put_known: "inv s \<Longrightarrow> okey k \<Longrightarrow> k \<in> set (recent s) \<Longrightarrow> recent (put s k) = recent s"
    and put_new: "inv s \<Longrightarrow> okey k \<Longrightarrow> k \<notin> set (recent s) \<Longrightarrow> recent (put s k) = tl (recent s) @ [k]"
    and inv_put: "inv s \<Longrightarrow> okey k \<Longrightarrow> inv (put s k)"
begin

lemma has_put_self: "inv s \<Longrightarrow> okey k \<Longrightarrow> has (put s k) k"
  by (cases "k \<in> set (recent s)") (simp_all add: has_recent inv_put put_known put_new)

lemma recent_put_subset: "inv s \<Longrightarrow> okey k \<Longrightarrow> set (recent (put s k)) \<subseteq> insert k (set (recent s))"
  by (cases "k \<in> set (recent s)"; cases "recent s") (auto simp: put_known put_new)

lemma has_put_other: "inv s \<Longrightarrow> okey k \<Longrightarrow> okey j \<Longrightarrow> has (put s k) j \<Longrightarrow> j = k \<or> has s j"
  using recent_put_subset [of s k] by (auto simp: has_recent inv_put)

lemma inv_put_all: "inv s \<Longrightarrow> \<forall>k \<in> set ks. okey k \<Longrightarrow> inv (put_all put s ks)"
  by (induction ks arbitrary: s) (auto intro: inv_put)

text \<open>
  The position argument behind both client lemmas: \<open>k\<close> sits in the store with the distinct
  keys \<open>ys\<close> younger than it, all from a set \<open>A\<close> too small to push it out.
\<close>

lemma put_keeps:
  assumes "inv s" "okey w" "recent s = xs @ k # ys" "distinct ys" "set ys \<subseteq> A"
    "w \<in> insert k A" "finite A" "card A < cap"
  obtains xs' ys' where "recent (put s w) = xs' @ k # ys'" "distinct ys'" "set ys' \<subseteq> A"
proof (cases "w \<in> set (recent s)")
  case True
  with assms that show thesis by (simp add: put_known)
next
  case False
  with assms have w: "w \<in> A" "w \<notin> set ys" by auto
  show thesis
  proof (cases xs)
    case Nil
    with recent_length [OF assms(1)] assms(3) have "cap = Suc (length ys)" by simp
    also have "\<dots> = card (insert w (set ys))"
      using w assms(4) by (simp add: distinct_card)
    also have "\<dots> \<le> card A" using w assms(5,7) by (intro card_mono) auto
    finally show thesis using assms(8) by simp
  next
    case (Cons x xs')
    with assms w False that [of xs' "ys @ [w]"] show thesis by (simp add: put_new)
  qed
qed

lemma not_accepted_again:
  assumes "inv s" "okey k" "recent s = xs @ k # ys" "distinct ys" "set ys \<subseteq> A"
    "set ks \<subseteq> insert k A" "\<forall>w \<in> A. okey w" "finite A" "card A < cap"
  shows "has (put_all put s ks) k \<and> k \<notin> set (accepted has put s ks)"
  using assms
proof (induction ks arbitrary: s xs ys)
  case Nil
  then show ?case by (simp add: has_recent)
next
  case (Cons w ks)
  from Cons.prems have w: "okey w" "w \<in> insert k A" by auto
  from Cons.prems(1) w(1) Cons.prems(3,4,5) w(2) Cons.prems(8,9)
  obtain xs' ys' where r: "recent (put s w) = xs' @ k # ys'" "distinct ys'" "set ys' \<subseteq> A"
    by (rule put_keeps)
  have i: "inv (put s w)" using Cons.prems(1) w(1) by (rule inv_put)
  have hk: "has s k" using Cons.prems by (simp add: has_recent)
  have 1: "has (put_all put (put s w) ks) k" "k \<notin> set (accepted has put (put s w) ks)"
    using Cons.IH [OF i Cons.prems(2) r] Cons.prems by auto
  have 2: "k \<notin> set (accepted has put s ks)"
    using Cons.IH [OF Cons.prems(1-5)] Cons.prems by auto
  show ?case using 1 2 hk by auto
qed

lemma recent_after_put:
  assumes "inv s" "okey k" "\<not> has s k"
  shows "\<exists>xs. recent (put s k) = xs @ k # []"
  using assms by (auto simp: has_recent put_new)

text \<open>A new key stays known while fewer than \<open>cap\<close> other keys come in.\<close>

lemma retained:
  assumes "inv s" "okey k" "\<not> has s k" "\<forall>w \<in> set ks. okey w" "card (set ks - {k}) < cap"
  shows "has (put_all put (put s k) ks) k"
proof -
  from recent_after_put [OF assms(1-3)] obtain xs where "recent (put s k) = xs @ k # []" ..
  from not_accepted_again [OF inv_put [OF assms(1,2)] assms(2) this, where A = "set ks - {k}"]
  show ?thesis using assms by auto
qed

text \<open>A stream with at most \<open>cap\<close> different keys passes each of them at most once.\<close>

lemma accepted_distinct:
  assumes "inv s" "\<forall>w \<in> set ks. okey w" "card (set ks) \<le> cap"
  shows "distinct (accepted has put s ks)"
  using assms
proof (induction ks arbitrary: s)
  case Nil
  then show ?case by simp
next
  case (Cons k ks)
  from Cons.prems(3) have c: "card (set ks) \<le> cap"
    by (metis card_mono finite_set le_trans list.set_intros(2) subsetI)
  show ?case
  proof (cases "has s k")
    case True
    with Cons c show ?thesis by simp
  next
    case False
    from Cons.prems have k: "okey k" by simp
    from recent_after_put [OF Cons.prems(1) k False] obtain xs
      where r: "recent (put s k) = xs @ k # []" ..
    have "card (set ks - {k}) < card (insert k (set ks))"
      by (simp add: card.insert_remove)
    with Cons.prems(3) have s: "card (set ks - {k}) < cap" by simp
    from not_accepted_again [OF inv_put [OF Cons.prems(1) k] k r, where A = "set ks - {k}"]
    have "k \<notin> set (accepted has put (put s k) ks)" using Cons.prems s by auto
    with False Cons c inv_put k show ?thesis by simp
  qed
qed

text \<open>And the first sighting of a key that is not in the store always passes.\<close>

lemma accepted_first:
  assumes "inv s" "\<forall>w \<in> set ks. okey w" "k \<in> set ks" "\<not> has s k"
  shows "k \<in> set (accepted has put s ks)"
  using assms
proof (induction ks arbitrary: s)
  case Nil
  then show ?case by simp
next
  case (Cons w ks)
  then show ?case using inv_put has_put_other by (auto; metis)
qed

lemma accepted_subset: "set (accepted has put s ks) \<subseteq> set ks"
  by (induction ks arbitrary: s) (simp_all, blast)

end

end
