(* ===== verification/CircularBuff.thy ===== *)
theory CircularBuff
  imports RecentStore
begin

text \<open>
  lib/circularBuff.cpp of the simulator: a table of 256 rows of 8 bytes and the index of the
  row that is overwritten next. The operations are the code's index loop and memcpy; the
  abstraction \<open>circ_list\<close> reads the table from the oldest row to the youngest, and the table
  refines a queue of fixed length that drops its oldest element.
\<close>

section \<open>Model\<close>

definition HASHES :: nat where
  "HASHES = 256"

definition CHARACTERS :: nat where
  "CHARACTERS = 8"

record circularBuffer =
  buff :: "u8 list list"
  next_row :: u8

definition zero_buffer :: circularBuffer where
  "zero_buffer = \<lparr>buff = replicate HASHES (replicate CHARACTERS 0), next_row = 0\<rparr>"

function containsBuff_from :: "circularBuffer \<Rightarrow> u8 list \<Rightarrow> nat \<Rightarrow> int" where
  "containsBuff_from c v row =
     (if row < HASHES
      then (if memeq CHARACTERS v (buff c ! row) then int row
            else containsBuff_from c v (Suc row))
      else -1)"
  by pat_completeness auto
termination
  by (relation "measure (\<lambda>(c, v, row). HASHES - row)") auto

declare containsBuff_from.simps [simp del]

definition containsBuff :: "circularBuffer \<Rightarrow> u8 list \<Rightarrow> int" where
  "containsBuff c v = containsBuff_from c v 0"

definition addToBuff :: "circularBuffer \<Rightarrow> u8 list \<Rightarrow> circularBuffer \<times> u8" where
  "addToBuff c v =
     (let location = containsBuff c v
      in if location = -1
         then (let row = unat (next_row c);
                   c1 = c\<lparr>buff := (buff c)[row := memcpy (buff c ! row) v CHARACTERS]\<rparr>
               in if next_row c1 = 255 then (c1\<lparr>next_row := 0\<rparr>, 255)
                  else (let c2 = c1\<lparr>next_row := next_row c1 + 1\<rparr>
                        in (c2, next_row c2 - 1)))
         else (c, word_of_int location))"

section \<open>Shape and abstraction\<close>

definition wf_sig :: "u8 list \<Rightarrow> bool" where
  "wf_sig v \<longleftrightarrow> length v = CHARACTERS"

definition wf_buffer :: "circularBuffer \<Rightarrow> bool" where
  "wf_buffer c \<longleftrightarrow> length (buff c) = HASHES \<and> (\<forall>r \<in> set (buff c). wf_sig r)"

definition circ_list :: "circularBuffer \<Rightarrow> u8 list list" where
  "circ_list c = rotate (unat (next_row c)) (buff c)"

lemma wf_zero_buffer [shape_intros]: "wf_buffer zero_buffer"
  by (simp add: wf_buffer_def zero_buffer_def wf_sig_def)

lemma set_circ_list [simp]: "set (circ_list c) = set (buff c)"
  by (simp add: circ_list_def)

lemma length_circ_list [simp]: "length (circ_list c) = length (buff c)"
  by (simp add: circ_list_def)

text \<open>Every row index the scan reads is inside the table, so rows compare as whole keys.\<close>

lemma memeq_row:
  "wf_buffer c \<Longrightarrow> wf_sig v \<Longrightarrow> row < HASHES \<Longrightarrow> memeq CHARACTERS v (buff c ! row) \<longleftrightarrow> buff c ! row = v"
  by (auto simp: wf_buffer_def wf_sig_def)

lemma containsBuff_from_spec:
  assumes "wf_buffer c" "wf_sig v"
  shows "(\<exists>i. containsBuff_from c v row = int i \<and> row \<le> i \<and> i < HASHES \<and> buff c ! i = v \<and>
            (\<forall>j. row \<le> j \<and> j < i \<longrightarrow> buff c ! j \<noteq> v)) \<or>
         containsBuff_from c v row = -1 \<and> (\<forall>j. row \<le> j \<and> j < HASHES \<longrightarrow> buff c ! j \<noteq> v)"
  using assms
proof (induction c v row rule: containsBuff_from.induct)
  case (1 c v row)
  show ?case
  proof (cases "row < HASHES \<and> buff c ! row \<noteq> v")
    case True
    with "1.prems" have "containsBuff_from c v row = containsBuff_from c v (Suc row)"
      by (simp add: containsBuff_from.simps [of c v row] memeq_row)
    moreover from True "1.prems" have "\<not> memeq CHARACTERS v (buff c ! row)"
      by (simp add: memeq_row)
    moreover have le_split: "row \<le> j \<longleftrightarrow> j = row \<or> Suc row \<le> j" for j by auto
    ultimately show ?thesis
      using "1.IH" True "1.prems" by (auto simp: le_split)
  next
    case False
    with "1.prems" show ?thesis
      by (auto simp: containsBuff_from.simps [of c v row] memeq_row)
  qed
qed

lemma containsBuff_cases:
  assumes "wf_buffer c" "wf_sig v"
  obtains (Hit) i where "containsBuff c v = int i" "i < HASHES" "buff c ! i = v"
      "\<forall>j < i. buff c ! j \<noteq> v" "v \<in> set (buff c)"
  | (Miss) "containsBuff c v = -1" "v \<notin> set (buff c)"
proof -
  have len: "length (buff c) = HASHES" using assms(1) by (simp add: wf_buffer_def)
  from containsBuff_from_spec [OF assms, of 0] show thesis
    using that len by (auto simp: containsBuff_def in_set_conv_nth)
qed

lemma containsBuff_iff: "wf_buffer c \<Longrightarrow> wf_sig v \<Longrightarrow> containsBuff c v \<noteq> -1 \<longleftrightarrow> v \<in> set (buff c)"
  by (erule (1) containsBuff_cases) auto

lemma containsBuff_miss: "wf_buffer c \<Longrightarrow> wf_sig v \<Longrightarrow> containsBuff c v = -1 \<longleftrightarrow> v \<notin> set (buff c)"
  using containsBuff_iff by blast

lemma containsBuff_range:
  "wf_buffer c \<Longrightarrow> wf_sig v \<Longrightarrow> -1 \<le> containsBuff c v \<and> containsBuff c v < int HASHES"
  by (erule (1) containsBuff_cases) auto

section \<open>Insertion refines a bounded queue\<close>

lemma rotate_overwrite:
  assumes "n < length xs"
  shows "rotate (Suc n) (xs[n := v]) = tl (rotate n xs) @ [v]"
proof -
  have d: "drop n xs = xs ! n # drop (Suc n) xs" using assms by (simp add: Cons_nth_drop_Suc)
  have "rotate (Suc n) (xs[n := v]) = rotate1 (rotate n (xs[n := v]))" by simp
  also have "rotate n (xs[n := v]) = v # drop (Suc n) xs @ take n xs"
    using assms by (simp add: rotate_drop_take list_update_split)
  also have "rotate n xs = xs ! n # drop (Suc n) xs @ take n xs"
    using assms d by (simp add: rotate_drop_take)
  then have "rotate1 (v # drop (Suc n) xs @ take n xs) = tl (rotate n xs) @ [v]" by simp
  finally show ?thesis .
qed

lemma unat_next_row: "unat (next_row c) < HASHES"
  using unsigned_less [of "next_row c"] by (simp add: HASHES_def)

definition put_sig :: "circularBuffer \<Rightarrow> u8 list \<Rightarrow> circularBuffer" where
  "put_sig c v = fst (addToBuff c v)"

lemma put_sig_known:
  "wf_buffer c \<Longrightarrow> wf_sig v \<Longrightarrow> v \<in> set (buff c) \<Longrightarrow> put_sig c v = c"
  by (erule (1) containsBuff_cases) (auto simp: put_sig_def addToBuff_def)

lemma circularBuffer_both: "c\<lparr>buff := b, next_row := n\<rparr> = \<lparr>buff = b, next_row = n\<rparr>"
  by (cases c) simp

lemma put_sig_new:
  assumes "wf_buffer c" "wf_sig v" "v \<notin> set (buff c)"
  shows "put_sig c v = \<lparr>buff = (buff c)[unat (next_row c) := v], next_row = next_row c + 1\<rparr>"
proof -
  have miss: "containsBuff c v = -1" using assms(1,2) by (rule containsBuff_cases) (use assms(3) in auto)
  have m: "memcpy (buff c ! r) v CHARACTERS = v" if "r < 256" for r
    using assms that by (auto simp: wf_buffer_def wf_sig_def HASHES_def)
  have r: "unat (next_row c) < 256" using unat_next_row [of c] by (simp add: HASHES_def)
  show ?thesis
  proof (cases "next_row c = 255")
    case True
    with miss m show ?thesis
      by (simp add: put_sig_def addToBuff_def Let_def circularBuffer_both)
  next
    case False
    with miss m [OF r] show ?thesis
      by (simp add: put_sig_def addToBuff_def Let_def circularBuffer_both)
  qed
qed

lemma wf_put_sig [shape_intros]:
  assumes "wf_buffer c" "wf_sig v"
  shows "wf_buffer (put_sig c v)"
proof (cases "v \<in> set (buff c)")
  case False
  have "\<forall>r \<in> set ((buff c)[unat (next_row c) := v]). wf_sig r"
    by (rule forall_nth_update) (use assms in \<open>simp_all add: wf_buffer_def\<close>)
  with False assms show ?thesis by (simp add: put_sig_new wf_buffer_def)
qed (use assms in \<open>simp add: put_sig_known\<close>)

lemma circ_list_put_new:
  assumes "wf_buffer c" "wf_sig v" "v \<notin> set (buff c)"
  shows "circ_list (put_sig c v) = tl (circ_list c) @ [v]"
proof -
  let ?n = "unat (next_row c)"
  have len: "length (buff c) = 256" using assms(1) by (simp add: wf_buffer_def HASHES_def)
  have n: "?n < length (buff c)" using unat_next_row [of c] by (simp add: len HASHES_def)
  have "unat (next_row c + 1) = Suc ?n mod 256"
    by (simp add: unat_word_ariths)
  then have "circ_list (put_sig c v) = rotate (Suc ?n mod length ((buff c)[?n := v])) ((buff c)[?n := v])"
    using assms len by (simp add: circ_list_def put_sig_new)
  also have "\<dots> = rotate (Suc ?n) ((buff c)[?n := v])" by (rule rotate_conv_mod [symmetric])
  also have "\<dots> = tl (circ_list c) @ [v]"
    using rotate_overwrite [OF n, of v] by (simp only: circ_list_def)
  finally show ?thesis .
qed

text \<open>The row index that addToBuff returns holds the signature afterwards.\<close>

lemma addToBuff_row:
  assumes "wf_buffer c" "wf_sig v"
  shows "buff (fst (addToBuff c v)) ! unat (snd (addToBuff c v)) = v"
  using assms
proof (rule containsBuff_cases)
  fix i assume Hit: "containsBuff c v = int i" "i < HASHES" "buff c ! i = v"
  then have "unat (word_of_int (int i) :: u8) = i"
    by (simp add: HASHES_def unat_of_nat)
  with Hit show ?thesis by (auto simp: addToBuff_def)
next
  assume Miss: "containsBuff c v = -1" "v \<notin> set (buff c)"
  have len: "unat (next_row c) < length (buff c)"
    using assms(1) unat_next_row [of c] by (simp add: wf_buffer_def)
  have "snd (addToBuff c v) = next_row c"
    using Miss by (simp add: addToBuff_def Let_def)
  moreover have "buff (fst (addToBuff c v)) = (buff c)[unat (next_row c) := v]"
    using put_sig_new [OF assms Miss(2)] by (simp add: put_sig_def)
  ultimately show ?thesis using len by simp
qed

interpretation circ: recent_store "\<lambda>c v. containsBuff c v \<noteq> -1" put_sig wf_buffer wf_sig circ_list HASHES
proof unfold_locales
  fix c v assume wf: "wf_buffer c"
  then show "length (circ_list c) = HASHES" by (simp add: wf_buffer_def)
  assume sig: "wf_sig v"
  from wf sig show "containsBuff c v \<noteq> -1 \<longleftrightarrow> v \<in> set (circ_list c)"
    by (simp add: containsBuff_iff)
  from wf sig show "wf_buffer (put_sig c v)" by (rule wf_put_sig)
  from wf sig show "circ_list (put_sig c v) = circ_list c" if "v \<in> set (circ_list c)"
    using that by (simp add: put_sig_known)
  from wf sig show "circ_list (put_sig c v) = tl (circ_list c) @ [v]" if "v \<notin> set (circ_list c)"
    using that by (simp add: circ_list_put_new)
qed (simp add: HASHES_def)

section \<open>Refinement\<close>

text \<open>The specification: a queue that keeps its length, ignores what it holds and drops its oldest.\<close>

definition queue_put :: "'a list \<Rightarrow> 'a \<Rightarrow> 'a list" where
  "queue_put q v = (if v \<in> set q then q else tl q @ [v])"

lemma put_sig_refines:
  "wf_buffer c \<Longrightarrow> wf_sig v \<Longrightarrow> wf_buffer (put_sig c v) \<and> circ_list (put_sig c v) = queue_put (circ_list c) v"
  by (simp add: queue_put_def circ_list_put_new put_sig_known wf_put_sig)

lemma put_sigs_refine:
  assumes "wf_buffer c" "\<forall>v \<in> set vs. wf_sig v"
  shows "wf_buffer (foldl put_sig c vs) \<and> circ_list (foldl put_sig c vs) = foldl queue_put (circ_list c) vs"
  using assms
proof (induction vs arbitrary: c)
  case (Cons v vs)
  then have "wf_buffer (put_sig c v) \<and> circ_list (put_sig c v) = queue_put (circ_list c) v"
    by (intro put_sig_refines) simp_all
  with Cons.IH [of "put_sig c v"] Cons.prems show ?case by simp
qed simp

text \<open>
  Property C15. The table with its row index implements a queue of 256 signatures: after any
  sequence of insertions the rows, read from the next row on, are those of the queue, and a
  look-up finds exactly the signatures in the queue.
\<close>

theorem circularBuff_refines_queue:
  assumes "wf_buffer c" "\<forall>v \<in> set vs. wf_sig v" "wf_sig x"
  shows "circ_list (foldl (\<lambda>c v. fst (addToBuff c v)) c vs) = foldl queue_put (circ_list c) vs \<and>
    (containsBuff (foldl (\<lambda>c v. fst (addToBuff c v)) c vs) x \<noteq> -1 \<longleftrightarrow> x \<in> set (foldl queue_put (circ_list c) vs))"
proof -
  have f: "(\<lambda>c v. fst (addToBuff c v)) = put_sig" by (simp add: put_sig_def fun_eq_iff)
  from put_sigs_refine [OF assms(1,2)] have "wf_buffer (foldl put_sig c vs)"
    "circ_list (foldl put_sig c vs) = foldl queue_put (circ_list c) vs" by simp_all
  with assms(3) show ?thesis unfolding f by (simp add: containsBuff_iff flip: set_circ_list)
qed

theorem circularBuff_refines_queue_witness:
  "containsBuff (fst (addToBuff zero_buffer [1, 2, 3, 4, 5, 6, 7, 8])) [1, 2, 3, 4, 5, 6, 7, 8] \<noteq> -1"
proof -
  have "\<forall>v \<in> set [[1, 2, 3, 4, 5, 6, 7, 8]]. wf_sig v" "wf_sig [1, 2, 3, 4, 5, 6, 7, 8]"
    by (simp_all add: wf_sig_def CHARACTERS_def)
  from circularBuff_refines_queue [OF wf_zero_buffer this] show ?thesis by (simp add: queue_put_def)
qed

end
