(* ===== verification/SimNode.thy ===== *)
theory SimNode
  imports Packet CircularBuff
begin

text \<open>
  The relay process of the UDP simulator, node.cpp: one packet buffer and one signature table
  that live for the whole process, and the body of the receive loop as a step from one datagram
  to the next. The datagram, and the interface list that getifaddrs returns, are inputs of a
  step; what is printed and what is sent are its events. exit.cpp shares the loop's head and is
  modelled in SimExit.
\<close>

section \<open>Receiving into the packet buffer\<close>

text \<open>
  recvfrom(fd, &packet, sizeof(emergencyPacket), ...): a datagram overwrites the front of the
  buffer, at most 25 bytes of it, and the rest keeps the bytes of the packet before. None is a
  failed call (it returns -1), which leaves the buffer alone.
\<close>

definition recv_into :: "emergencyPacket \<Rightarrow> u8 list option \<Rightarrow> emergencyPacket" where
  "recv_into p d =
     (case d of
        None \<Rightarrow> p
      | Some bs \<Rightarrow> (let n = min (length bs) PACKET_SIZE
                    in bytes_packet (memcpy (packet_bytes p) bs n)))"

definition recv_count :: "u8 list option \<Rightarrow> int" where
  "recv_count d = (case d of None \<Rightarrow> -1 | Some bs \<Rightarrow> int (min (length bs) PACKET_SIZE))"

section \<open>The relay loop\<close>

record ifaddr =
  ifa_name :: string
  ifa_family :: "u16 option"
  ifa_broadaddr :: "u32 option"

definition AF_INET :: u16 where
  "AF_INET = 2"

definition SERVERPORT :: u16 where
  "SERVERPORT = 4950"

datatype node_event =
    Received int
  | SendTo u32 u16 "u8 list"
  | Forwarding string u32
  | TtlExpired
  | AlreadyProcessed int

record node_state =
  node_packet :: emergencyPacket
  node_cache :: circularBuffer

definition node_init :: node_state where
  "node_init = \<lparr>node_packet = zero_packet, node_cache = zero_buffer\<rparr>"

fun broadcast_all :: "ifaddr list \<Rightarrow> u8 list \<Rightarrow> node_event list" where
  "broadcast_all [] bs = []"
| "broadcast_all (it # rest) bs =
     (case ifa_family it of
        None \<Rightarrow> broadcast_all rest bs
      | Some fam \<Rightarrow>
          if fam = AF_INET
          then (case ifa_broadaddr it of
                  None \<Rightarrow> broadcast_all rest bs
                | Some sa \<Rightarrow>
                    if ifa_name it = ''lo'' then broadcast_all rest bs
                    else SendTo sa SERVERPORT bs # Forwarding (ifa_name it) sa # broadcast_all rest bs)
          else broadcast_all rest bs)"

definition node_step :: "ifaddr list option \<Rightarrow> node_state \<Rightarrow> u8 list option \<Rightarrow> node_state \<times> node_event list" where
  "node_step ifs s d =
     (let p = recv_into (node_packet s) d;
          location = containsBuff (node_cache s) (hmac_sig p)
      in if location = -1
         then (let c = fst (addToBuff (node_cache s) (hmac_sig p))
               in case ttl_hop p of
                    HopForward q \<Rightarrow>
                      (\<lparr>node_packet = q, node_cache = c\<rparr>,
                       Received (recv_count d) #
                       (case ifs of None \<Rightarrow> [] | Some l \<Rightarrow> broadcast_all l (packet_bytes q)))
                  | HopExpired \<Rightarrow>
                      (\<lparr>node_packet = p, node_cache = c\<rparr>, [Received (recv_count d), TtlExpired])
                  | HopIgnored \<Rightarrow>
                      (\<lparr>node_packet = p, node_cache = c\<rparr>, [Received (recv_count d)]))
         else (s\<lparr>node_packet := p\<rparr>, [Received (recv_count d), AlreadyProcessed location]))"

text \<open>The endless loop, over the inputs of its first iterations.\<close>

primrec node_run :: "node_state \<Rightarrow> (ifaddr list option \<times> u8 list option) list \<Rightarrow>
    node_state \<times> node_event list list" where
  "node_run s [] = (s, [])"
| "node_run s (x # xs) =
     (let (s1, evs) = node_step (fst x) s (snd x); (s2, evss) = node_run s1 xs
      in (s2, evs # evss))"

section \<open>Invariant\<close>

text \<open>
  The buffer always holds a whole packet whose signature is in the table: at the start the zero
  signature, which is in every unused row, later the signature of the packet just handled.
\<close>

definition node_inv :: "node_state \<Rightarrow> bool" where
  "node_inv s \<longleftrightarrow> wf_buffer (node_cache s) \<and> wf_packet (node_packet s) \<and>
     hmac_sig (node_packet s) \<in> set (buff (node_cache s))"

definition seen_sig :: "node_state \<Rightarrow> u8 list option \<Rightarrow> u8 list" where
  "seen_sig s d = hmac_sig (recv_into (node_packet s) d)"

lemma wf_recv_into [simp]: "wf_packet p \<Longrightarrow> wf_packet (recv_into p d)"
  by (auto simp: recv_into_def Let_def split: option.splits)

lemma wf_sig_packet [simp]: "wf_packet p \<Longrightarrow> wf_sig (hmac_sig p)"
  by (simp add: wf_packet_def wf_sig_def SIG_LEN_def CHARACTERS_def)

lemma wf_seen_sig: "node_inv s \<Longrightarrow> wf_sig (seen_sig s d)"
  by (simp add: node_inv_def seen_sig_def)

lemma recv_whole: "wf_packet p \<Longrightarrow> length bs = PACKET_SIZE \<Longrightarrow> recv_into p (Some bs) = bytes_packet bs"
  by (simp add: recv_into_def)

lemma recv_packet: "wf_packet p \<Longrightarrow> wf_packet q \<Longrightarrow> recv_into p (Some (packet_bytes q)) = q"
  by (simp add: recv_into_def)

text \<open>A datagram that ends before the signature field leaves the old signature in place.\<close>

lemma recv_short_sig:
  assumes "wf_packet p" "length bs \<le> 17"
  shows "hmac_sig (recv_into p (Some bs)) = hmac_sig p"
proof -
  have "drop 17 (memcpy (packet_bytes p) bs (length bs)) = drop 17 (packet_bytes p)"
    using assms(2) by (simp add: memcpy_def)
  moreover have "min (length bs) PACKET_SIZE = length bs"
    using assms(2) by (simp add: PACKET_SIZE_def)
  ultimately show ?thesis
    using assms(1) by (simp add: recv_into_def bytes_packet_sig wf_packet_def SIG_LEN_def)
qed

lemma node_init_inv: "node_inv node_init"
  by (simp add: node_inv_def node_init_def wf_zero_buffer)
    (simp add: zero_packet_def zero_buffer_def SIG_LEN_def CHARACTERS_def HASHES_def)

text \<open>The branches of one iteration, with what each leaves behind.\<close>

lemma node_step_cases:
  assumes "node_inv s"
  obtains (Duplicate) row where "seen_sig s d \<in> set (buff (node_cache s))"
      "node_step ifs s d = (s\<lparr>node_packet := recv_into (node_packet s) d\<rparr>,
         [Received (recv_count d), AlreadyProcessed row])"
  | (Silent) "seen_sig s d \<notin> set (buff (node_cache s))" "packet_ttl (recv_into (node_packet s) d) \<le> 1"
      "fst (node_step ifs s d) = \<lparr>node_packet = recv_into (node_packet s) d,
         node_cache = put_sig (node_cache s) (seen_sig s d)\<rparr>"
      "set (snd (node_step ifs s d)) \<subseteq> {Received (recv_count d), TtlExpired}"
  | (Forward) q where "seen_sig s d \<notin> set (buff (node_cache s))"
      "1 < packet_ttl (recv_into (node_packet s) d)"
      "hop_packet (recv_into (node_packet s) d) = Some q"
      "node_step ifs s d = (\<lparr>node_packet = q, node_cache = put_sig (node_cache s) (seen_sig s d)\<rparr>,
         Received (recv_count d) # (case ifs of None \<Rightarrow> [] | Some l \<Rightarrow> broadcast_all l (packet_bytes q)))"
proof (cases "seen_sig s d \<in> set (buff (node_cache s))")
  case True
  moreover have "containsBuff (node_cache s) (seen_sig s d) \<noteq> -1"
    using assms True wf_seen_sig [OF assms, of d] by (simp add: containsBuff_miss node_inv_def)
  ultimately show thesis
    by (intro Duplicate) (simp_all add: node_step_def seen_sig_def Let_def)
next
  case False
  have m: "containsBuff (node_cache s) (hmac_sig (recv_into (node_packet s) d)) = -1"
    using assms False wf_seen_sig [OF assms, of d]
    by (simp add: containsBuff_miss node_inv_def seen_sig_def)
  show thesis
  proof (cases "recv_into (node_packet s) d" rule: ttl_hop_cases)
    case Ignored
    with m False show thesis
      by (intro Silent) (simp_all add: node_step_def put_sig_def seen_sig_def Let_def)
  next
    case Expired
    with m False show thesis
      by (intro Silent) (simp_all add: node_step_def put_sig_def seen_sig_def Let_def)
  next
    case (Forward q)
    with m False show thesis
      by (intro that(3) [of q]) (simp_all add: node_step_def put_sig_def seen_sig_def Let_def hop_packet_def)
  qed
qed

lemma node_step_cache:
  assumes "node_inv s"
  shows "node_cache (fst (node_step ifs s d)) = put_sig (node_cache s) (seen_sig s d)"
  by (rule node_step_cases [OF assms, where d = d and ifs = ifs])
    (use assms wf_seen_sig [OF assms] in \<open>auto simp: put_sig_known node_inv_def\<close>)

lemma node_step_packet:
  assumes "node_inv s"
  shows "wf_packet (node_packet (fst (node_step ifs s d))) \<and>
     hmac_sig (node_packet (fst (node_step ifs s d))) = seen_sig s d"
  by (rule node_step_cases [OF assms, where d = d and ifs = ifs])
    (use assms in \<open>auto simp: node_inv_def seen_sig_def dest: hop_packet_Some\<close>)

lemma node_step_inv:
  assumes "node_inv s"
  shows "node_inv (fst (node_step ifs s d))"
proof -
  have wf: "wf_buffer (node_cache s)" "wf_sig (seen_sig s d)"
    using assms by (simp_all add: node_inv_def wf_seen_sig)
  have "seen_sig s d \<in> set (buff (put_sig (node_cache s) (seen_sig s d)))"
    using circ.has_put_self [OF wf] wf by (simp add: containsBuff_iff wf_put_sig)
  then show ?thesis
    using assms wf by (simp add: node_inv_def [of "fst _"] node_step_cache node_step_packet wf_put_sig)
qed

lemma node_run_inv: "node_inv s \<Longrightarrow> node_inv (fst (node_run s xs))"
  by (induction xs arbitrary: s) (simp_all add: node_step_inv split_beta Let_def)

section \<open>What is sent\<close>

fun sends :: "node_event list \<Rightarrow> (u32 \<times> u8 list) list" where
  "sends [] = []"
| "sends (SendTo sa port bs # evs) = (sa, bs) # sends evs"
| "sends (_ # evs) = sends evs"

definition eligible :: "ifaddr \<Rightarrow> bool" where
  "eligible it \<longleftrightarrow> ifa_family it = Some AF_INET \<and> ifa_broadaddr it \<noteq> None \<and> ifa_name it \<noteq> ''lo''"

definition sends_sig :: "u8 list \<Rightarrow> node_event list \<Rightarrow> bool" where
  "sends_sig v evs \<longleftrightarrow> list_ex (\<lambda>(sa, bs). hmac_sig (bytes_packet bs) = v) (sends evs)"

primrec run_sigs :: "node_state \<Rightarrow> (ifaddr list option \<times> u8 list option) list \<Rightarrow> u8 list list" where
  "run_sigs s [] = []"
| "run_sigs s (x # xs) = seen_sig s (snd x) # run_sigs (fst (node_step (fst x) s (snd x))) xs"

lemma sends_broadcast_all:
  "sends (broadcast_all l bs) = map (\<lambda>it. (the (ifa_broadaddr it), bs)) (filter eligible l)"
  by (induction l) (auto simp: eligible_def split: option.splits)

lemma sends_no_send: "set evs \<subseteq> {Received n, TtlExpired} \<Longrightarrow> sends evs = []"
  by (induction evs rule: sends.induct) auto

lemma sends_step:
  assumes "node_inv s"
  shows "sends (snd (node_step ifs s d)) = [] \<or>
    seen_sig s d \<notin> set (buff (node_cache s)) \<and> (\<exists>q l. ifs = Some l \<and>
      hop_packet (recv_into (node_packet s) d) = Some q \<and>
      sends (snd (node_step ifs s d)) = map (\<lambda>it. (the (ifa_broadaddr it), packet_bytes q)) (filter eligible l))"
  by (rule node_step_cases [OF assms, where d = d and ifs = ifs])
    (auto simp: sends_broadcast_all sends_no_send split: option.splits)

lemma sends_sig_step:
  assumes "node_inv s" "sends_sig v (snd (node_step ifs s d))"
  shows "seen_sig s d = v \<and> v \<notin> set (buff (node_cache s))"
proof -
  from sends_step [OF assms(1), of ifs d] assms(2) obtain q where
    q: "hop_packet (recv_into (node_packet s) d) = Some q" "seen_sig s d \<notin> set (buff (node_cache s))"
      "hmac_sig (bytes_packet (packet_bytes q)) = v"
    by (auto simp: sends_sig_def list_ex_iff)
  with assms(1) have "wf_packet q" "hmac_sig q = seen_sig s d"
    by (auto simp: node_inv_def seen_sig_def dest: hop_packet_Some)
  with q show ?thesis by simp
qed

text \<open>
  The steps that send a signature are among the keys its duplicate filter lets through.
\<close>

lemma sends_sig_count:
  assumes "node_inv s"
  shows "length (filter (sends_sig v) (snd (node_run s xs))) \<le>
    count_list (accepted (\<lambda>c v. containsBuff c v \<noteq> -1) put_sig (node_cache s) (run_sigs s xs)) v"
  using assms
proof (induction xs arbitrary: s)
  case Nil
  then show ?case by simp
next
  case (Cons x xs)
  let ?k = "seen_sig s (snd x)"
  let ?s1 = "fst (node_step (fst x) s (snd x))"
  have wf: "wf_buffer (node_cache s)" "wf_sig ?k" using Cons.prems by (simp_all add: node_inv_def wf_seen_sig)
  have c: "node_cache ?s1 = put_sig (node_cache s) ?k" by (rule node_step_cache [OF Cons.prems])
  have IH: "length (filter (sends_sig v) (snd (node_run ?s1 xs))) \<le>
    count_list (accepted (\<lambda>c v. containsBuff c v \<noteq> -1) put_sig (put_sig (node_cache s) ?k) (run_sigs ?s1 xs)) v"
    using Cons.IH [OF node_step_inv [OF Cons.prems, of "fst x" "snd x"]] by (simp add: c)
  have snd_run: "snd (node_run s (x # xs)) = snd (node_step (fst x) s (snd x)) # snd (node_run ?s1 xs)"
    by (simp add: split_beta Let_def)
  show ?case
  proof (cases "?k \<in> set (buff (node_cache s))")
    case True
    with sends_sig_step [OF Cons.prems] have "\<not> sends_sig v (snd (node_step (fst x) s (snd x)))" by metis
    with True IH wf show ?thesis
      by (simp add: snd_run containsBuff_miss put_sig_known del: node_run.simps)
  next
    case False
    with sends_sig_step [OF Cons.prems, of v "fst x" "snd x"] IH wf show ?thesis
      by (auto simp: snd_run containsBuff_miss simp del: node_run.simps)
  qed
qed

lemma run_sigs_wf: "node_inv s \<Longrightarrow> \<forall>v \<in> set (run_sigs s xs). wf_sig v"
proof (induction xs arbitrary: s)
  case (Cons x xs)
  then show ?case
    using Cons.IH [OF node_step_inv [OF Cons.prems, of "fst x" "snd x"]] by (simp add: wf_seen_sig)
qed simp

lemma count_list_distinct: "distinct xs \<Longrightarrow> count_list xs v \<le> 1"
  by (induction xs) (auto simp: count_list_0_iff)

text \<open>A concrete interface list: a loopback, a bridge network, an IPv6 entry.\<close>

definition sample_ifs :: "ifaddr list" where
  "sample_ifs = [\<lparr>ifa_name = ''lo'', ifa_family = Some 2, ifa_broadaddr = Some 0x7F000001\<rparr>,
     \<lparr>ifa_name = ''eth0'', ifa_family = Some 2, ifa_broadaddr = Some 0xAC12FFFF\<rparr>,
     \<lparr>ifa_name = ''eth0'', ifa_family = Some 10, ifa_broadaddr = None\<rparr>]"

lemma eligible_sample: "filter eligible sample_ifs = [\<lparr>ifa_name = ''eth0'', ifa_family = Some 2, ifa_broadaddr = Some 0xAC12FFFF\<rparr>]"
  by (simp add: sample_ifs_def eligible_def AF_INET_def)

lemma sample_sig_new: "hmac_sig sample_packet \<notin> set (buff (node_cache node_init))"
  by (simp add: node_init_def zero_buffer_def sample_packet_def HASHES_def CHARACTERS_def numeral_eq_Suc)

lemma length_run_sigs: "length (run_sigs s xs) = length xs"
  by (induction xs arbitrary: s) auto

section \<open>Properties\<close>

text \<open>
  A packet the node has not seen, with a TTL above one, goes out once on every
  IPv4 interface that has a broadcast address and is not the loopback, in the order of the
  interface list, with its TTL decremented and everything else as it came in; its signature is
  in the table afterwards.
\<close>

theorem node_forwards_new:
  assumes "node_inv s" "wf_packet p" "hmac_sig p \<notin> set (buff (node_cache s))" "1 < packet_ttl p"
  shows "\<exists>q. sends (snd (node_step (Some l) s (Some (packet_bytes p)))) =
        map (\<lambda>it. (the (ifa_broadaddr it), packet_bytes q)) (filter eligible l) \<and>
      packet_ttl q = packet_ttl p - 1 \<and> packet_core q = packet_core p \<and>
      hmac_sig p \<in> set (buff (node_cache (fst (node_step (Some l) s (Some (packet_bytes p))))))"
proof -
  have wf: "wf_packet (node_packet s)" using assms(1) by (simp add: node_inv_def)
  have r: "recv_into (node_packet s) (Some (packet_bytes p)) = p"
    using wf assms(2) by (rule recv_packet)
  have "\<exists>q. hop_packet p = Some q \<and> node_step (Some l) s (Some (packet_bytes p)) =
      (\<lparr>node_packet = q, node_cache = put_sig (node_cache s) (hmac_sig p)\<rparr>,
       Received (recv_count (Some (packet_bytes p))) # broadcast_all l (packet_bytes q))"
    by (rule node_step_cases [OF assms(1), where d = "Some (packet_bytes p)" and ifs = "Some l"])
      (use assms r in \<open>auto simp: seen_sig_def\<close>)
  then obtain q where q: "hop_packet p = Some q" "node_step (Some l) s (Some (packet_bytes p)) =
      (\<lparr>node_packet = q, node_cache = put_sig (node_cache s) (hmac_sig p)\<rparr>,
       Received (recv_count (Some (packet_bytes p))) # broadcast_all l (packet_bytes q))" by blast
  have "hmac_sig p \<in> set (buff (put_sig (node_cache s) (hmac_sig p)))"
    using circ.has_put_self [of "node_cache s" "hmac_sig p"] assms(1,2)
    by (simp add: node_inv_def containsBuff_miss wf_put_sig)
  moreover have "packet_ttl p = Suc (packet_ttl q)" "packet_core q = packet_core p"
    using hop_packet_Some [OF q(1)] by simp_all
  ultimately show ?thesis
    by (intro exI [of _ q]) (simp add: q(2) sends_broadcast_all)
qed


theorem node_forwards_new_witness:
  "\<exists>q. sends (snd (node_step (Some sample_ifs) node_init (Some (packet_bytes sample_packet)))) =
      [(0xAC12FFFF, packet_bytes q)] \<and> packet_ttl q = 19 \<and> packet_core q = packet_core sample_packet"
proof -
  have "1 < packet_ttl sample_packet" by simp
  from node_forwards_new [OF node_init_inv wf_sample_packet sample_sig_new this, of sample_ifs]
  show ?thesis by (auto simp: eligible_sample)
qed

text \<open>
  Whatever a node sends, whatever bytes it received, is a whole packet with a TTL
  between 1 and 30 that is one less than the received one, with the received signature and
  payload, and that signature was not in the table before the step.
\<close>

theorem node_sends_only_decremented:
  assumes "node_inv s" "(sa, bs) \<in> set (sends (snd (node_step ifs s d)))"
  shows "\<exists>q. bs = packet_bytes q \<and> wf_packet q \<and> 0 < packet_ttl q \<and> packet_ttl q \<le> 30 \<and>
      Suc (packet_ttl q) = packet_ttl (recv_into (node_packet s) d) \<and>
      packet_core q = packet_core (recv_into (node_packet s) d) \<and>
      containsBuff (node_cache s) (hmac_sig q) = -1"
proof -
  from sends_step [OF assms(1), of ifs d] assms(2) obtain q where q:
    "seen_sig s d \<notin> set (buff (node_cache s))" "hop_packet (recv_into (node_packet s) d) = Some q"
    "bs = packet_bytes q" by auto
  have "wf_packet (recv_into (node_packet s) d)" "wf_buffer (node_cache s)"
    using assms(1) by (simp_all add: node_inv_def)
  with hop_packet_Some [OF q(2)] q packet_ttl_bound [of "recv_into (node_packet s) d"] show ?thesis
    by (intro exI [of _ q]) (auto simp: containsBuff_miss seen_sig_def)
qed


theorem node_sends_only_decremented_witness:
  "\<exists>bs q. (0xAC12FFFF, bs) \<in> set (sends (snd (node_step (Some sample_ifs) node_init (Some (packet_bytes sample_packet))))) \<and>
     bs = packet_bytes q \<and> 0 < packet_ttl q \<and> packet_ttl q \<le> 30"
proof -
  obtain q where q: "hop_packet sample_packet = Some q"
    using hop_packet_None [of sample_packet] by auto
  have "snd (node_step (Some sample_ifs) node_init (Some (packet_bytes sample_packet))) =
      Received 25 # broadcast_all sample_ifs (packet_bytes q)"
    using sample_sig_new q wf_zero_buffer
    by (simp add: node_step_def Let_def node_init_def recv_packet containsBuff_miss recv_count_def
        PACKET_SIZE_def [symmetric] ttl_hop_Forward_iff [symmetric])
  then have s: "(0xAC12FFFF, packet_bytes q) \<in>
      set (sends (snd (node_step (Some sample_ifs) node_init (Some (packet_bytes sample_packet)))))"
    by (simp add: sends_broadcast_all eligible_sample)
  from node_sends_only_decremented [OF node_init_inv s] s show ?thesis by blast
qed

text \<open>
  The node does not look at the length of a datagram, yet a failed receive or a
  datagram that ends before the signature field (17 bytes or fewer) never makes it send: the
  signature left in the buffer is that of the packet before, which is in the table.
\<close>

theorem node_short_datagram_dropped:
  assumes "node_inv s" "d = None \<or> (\<exists>bs. d = Some bs \<and> length bs \<le> 17)"
  shows "sends (snd (node_step ifs s d)) = []"
proof -
  have "seen_sig s d = hmac_sig (node_packet s)"
    using assms by (auto simp: seen_sig_def node_inv_def recv_short_sig) (simp add: recv_into_def)
  with assms(1) sends_step [OF assms(1), of ifs d] show ?thesis
    by (auto simp: node_inv_def)
qed


theorem node_short_datagram_dropped_witness:
  "sends (snd (node_step (Some sample_ifs) node_init (Some [1, 2, 3]))) = [] \<and>
   sends (snd (node_step (Some sample_ifs) node_init None)) = []"
  by (simp add: node_short_datagram_dropped [OF node_init_inv])

text \<open>
  Property C10. Over any run in which at most 256 different signatures come in, however often
  and in whatever order, each signature is sent on by at most one iteration of the loop.
\<close>

theorem node_forwards_once:
  assumes "node_inv s" "card (set (run_sigs s xs)) \<le> HASHES"
  shows "length (filter (sends_sig v) (snd (node_run s xs))) \<le> 1"
proof -
  have "wf_buffer (node_cache s)" using assms(1) by (simp add: node_inv_def)
  then have "distinct (accepted (\<lambda>c v. containsBuff c v \<noteq> -1) put_sig (node_cache s) (run_sigs s xs))"
    using run_sigs_wf [OF assms(1)] assms(2) by (rule circ.accepted_distinct)
  from sends_sig_count [OF assms(1), of v xs] count_list_distinct [OF this, of v]
  show ?thesis by (rule le_trans)
qed


theorem node_forwards_once_witness:
  "length (filter (sends_sig (hmac_sig sample_packet)) (snd (node_run node_init
     (replicate 3 (Some sample_ifs, Some (packet_bytes sample_packet)))))) \<le> 1"
proof (rule node_forwards_once [OF node_init_inv])
  show "card (set (run_sigs node_init (replicate 3 (Some sample_ifs, Some (packet_bytes sample_packet))))) \<le> HASHES"
    using card_length [of "run_sigs node_init (replicate 3 (Some sample_ifs, Some (packet_bytes sample_packet)))"]
    by (simp only: length_run_sigs length_replicate HASHES_def)
qed

text \<open>
  Property C36. The empty rows of a fresh table read as the all-zero signature: while fewer than
  256 other signatures have come in, a node never relays a packet whose signature is zero.
\<close>

theorem node_zero_signature_never_sent:
  assumes "card (set (run_sigs node_init xs) - {replicate CHARACTERS 0}) < HASHES"
  shows "filter (sends_sig (replicate CHARACTERS 0)) (snd (node_run node_init xs)) = []"
proof -
  let ?z = "replicate CHARACTERS (0 :: u8)"
  let ?A = "set (run_sigs node_init xs) - {?z}"
  have n: "HASHES = 255 + 1" by (simp add: HASHES_def)
  have r: "circ_list zero_buffer = replicate 255 ?z @ ?z # []"
    by (simp only: circ_list_def zero_buffer_def circularBuffer.select_convs unat_0 rotate0 id_apply n
        replicate_add One_nat_def replicate.simps)
  have "?z \<notin> set (accepted (\<lambda>c v. containsBuff c v \<noteq> -1) put_sig zero_buffer (run_sigs node_init xs))"
    using circ.not_accepted_again [OF wf_zero_buffer _ r, where A = ?A and ks = "run_sigs node_init xs"]
      assms run_sigs_wf [OF node_init_inv, of xs] by (auto simp: wf_sig_def)
  then have "count_list (accepted (\<lambda>c v. containsBuff c v \<noteq> -1) put_sig (node_cache node_init)
      (run_sigs node_init xs)) ?z = 0"
    by (simp add: node_init_def count_list_0_iff)
  with sends_sig_count [OF node_init_inv, of ?z xs] show ?thesis by simp
qed


theorem node_zero_signature_never_sent_witness:
  "filter (sends_sig (replicate CHARACTERS 0)) (snd (node_run node_init
     [(Some sample_ifs, Some (packet_bytes (sample_packet\<lparr>hmac_sig := replicate CHARACTERS 0\<rparr>)))])) = []"
proof (rule node_zero_signature_never_sent)
  let ?xs = "[(Some sample_ifs, Some (packet_bytes (sample_packet\<lparr>hmac_sig := replicate CHARACTERS 0\<rparr>)))]"
  have "card (set (run_sigs node_init ?xs) - {replicate CHARACTERS 0}) \<le> length ?xs"
    using order.trans [OF card_mono [OF finite_set Diff_subset] card_length] length_run_sigs by metis
  then show "card (set (run_sigs node_init ?xs) - {replicate CHARACTERS 0}) < HASHES"
    by (simp add: HASHES_def)
qed

end
