(* ===== verification/Mesh.thy ===== *)
theory Mesh
  imports SimNode
begin

text \<open>
  A network of relay nodes of the simulator, each running the loop of node.cpp. The topology (the
  interfaces of every node, and who receives a datagram sent to a broadcast address) is a
  parameter, as it is generated outside the program. Datagrams in flight form a multiset, so they
  arrive in any order, and a step may lose one. The theorems bound the flood that one packet
  starts and show that it reaches every connected node.
\<close>

section \<open>Model\<close>

record topology =
  node_ifs :: "nat \<Rightarrow> ifaddr list"
  members :: "u32 \<Rightarrow> nat list"

record mesh =
  mesh_nodes :: "nat \<Rightarrow> node_state"
  in_flight :: "(nat \<times> u8 list) multiset"

definition deliveries :: "topology \<Rightarrow> node_event list \<Rightarrow> (nat \<times> u8 list) multiset" where
  "deliveries T evs = mset (concat (map (\<lambda>(sa, bs). map (\<lambda>j. (j, bs)) (members T sa)) (sends evs)))"

definition mesh_deliver :: "topology \<Rightarrow> mesh \<Rightarrow> nat \<Rightarrow> u8 list \<Rightarrow> mesh" where
  "mesh_deliver T M i bs =
     (let (s', evs) = node_step (Some (node_ifs T i)) (mesh_nodes M i) (Some bs)
      in \<lparr>mesh_nodes = (mesh_nodes M)(i := s'), in_flight = in_flight M - {#(i, bs)#} + deliveries T evs\<rparr>)"

datatype mesh_action =
    Deliver nat "u8 list"
  | Lose nat "u8 list"

inductive mesh_step :: "topology \<Rightarrow> mesh \<Rightarrow> mesh_action \<Rightarrow> mesh \<Rightarrow> bool" for T where
  deliver: "(i, bs) \<in># in_flight M \<Longrightarrow> mesh_step T M (Deliver i bs) (mesh_deliver T M i bs)"
| lose: "(i, bs) \<in># in_flight M \<Longrightarrow>
     mesh_step T M (Lose i bs) (M\<lparr>in_flight := in_flight M - {#(i, bs)#}\<rparr>)"

inductive_cases mesh_step_DeliverE: "mesh_step T M (Deliver i bs) M'"

inductive mesh_run :: "topology \<Rightarrow> mesh \<Rightarrow> mesh_action list \<Rightarrow> mesh \<Rightarrow> bool" for T where
  run_Nil: "mesh_run T M [] M"
| run_snoc: "mesh_run T M as M1 \<Longrightarrow> mesh_step T M1 a M2 \<Longrightarrow> mesh_run T M (as @ [a]) M2"

section \<open>Every step uses up a datagram\<close>

definition mesh_inv :: "mesh \<Rightarrow> bool" where
  "mesh_inv M \<longleftrightarrow> (\<forall>i. node_inv (mesh_nodes M i))"

lemma mesh_deliver_nodes:
  "mesh_nodes (mesh_deliver T M i bs) = (mesh_nodes M)(i := fst (node_step (Some (node_ifs T i)) (mesh_nodes M i) (Some bs)))"
  by (simp add: mesh_deliver_def split_beta)

lemma mesh_deliver_flight:
  "in_flight (mesh_deliver T M i bs) = in_flight M - {#(i, bs)#} +
     deliveries T (snd (node_step (Some (node_ifs T i)) (mesh_nodes M i) (Some bs)))"
  by (simp add: mesh_deliver_def split_beta)

lemma mesh_step_inv: "mesh_step T M a M' \<Longrightarrow> mesh_inv M \<Longrightarrow> mesh_inv M'"
  by (induction rule: mesh_step.induct) (auto simp: mesh_inv_def mesh_deliver_nodes node_step_inv)

text \<open>
  The hops a datagram can still cause: none if it ends before the signature, else the TTL in its
  flags byte.
\<close>

definition hops_left :: "nat \<times> u8 list \<Rightarrow> nat" where
  "hops_left m = (if length (snd m) \<le> 17 then 0 else unat (ttl_of (snd m ! 8)))"

lemma hops_left_packet: "wf_packet q \<Longrightarrow> hops_left (j, packet_bytes q) = packet_ttl q"
  by (simp add: hops_left_def PACKET_SIZE_def packet_ttl_def)

lemma recv_flags:
  assumes "wf_packet p" "8 < length bs"
  shows "flags (recv_into p (Some bs)) = bs ! 8"
proof -
  have "8 < min (length bs) PACKET_SIZE" using assms(2) by (simp add: PACKET_SIZE_def)
  then have "memcpy (packet_bytes p) bs (min (length bs) PACKET_SIZE) ! 8 = bs ! 8"
    by (simp add: memcpy_def nth_append)
  then show ?thesis by (simp add: recv_into_def Let_def bytes_packet_flags)
qed

lemma deliveries_hops:
  assumes "node_inv s" "m \<in># deliveries T (snd (node_step (Some ifs) s (Some bs)))"
  shows "hops_left m < hops_left (i, bs)"
proof -
  from assms(2) have "sends (snd (node_step (Some ifs) s (Some bs))) \<noteq> []"
    by (auto simp: deliveries_def)
  with sends_step [OF assms(1), of "Some ifs" "Some bs"] obtain q where
    q: "seen_sig s (Some bs) \<notin> set (buff (node_cache s))" "hop_packet (recv_into (node_packet s) (Some bs)) = Some q"
    "sends (snd (node_step (Some ifs) s (Some bs))) = map (\<lambda>it. (the (ifa_broadaddr it), packet_bytes q)) (filter eligible ifs)"
    by auto
  have wf: "wf_packet (node_packet s)" using assms(1) by (simp add: node_inv_def)
  have long: "17 < length bs"
  proof (rule ccontr)
    assume "\<not> 17 < length bs"
    then have "seen_sig s (Some bs) = hmac_sig (node_packet s)"
      using wf by (simp add: seen_sig_def recv_short_sig)
    with q(1) assms(1) show False by (simp add: node_inv_def)
  qed
  from assms(2) q(3) obtain j where m: "m = (j, packet_bytes q)" by (auto simp: deliveries_def)
  have "packet_ttl (recv_into (node_packet s) (Some bs)) = hops_left (i, bs)"
    using long by (simp add: packet_ttl_def recv_flags [OF wf] hops_left_def)
  with hop_packet_Some [OF q(2)] wf show ?thesis by (simp add: m hops_left_packet)
qed

lemma mesh_step_decreases:
  assumes "mesh_step T M a M'" "mesh_inv M"
  shows "(image_mset hops_left (in_flight M'), image_mset hops_left (in_flight M)) \<in> mult less_than"
  using assms
proof (induction rule: mesh_step.induct)
  case (deliver i bs M)
  let ?N = "deliveries T (snd (node_step (Some (node_ifs T i)) (mesh_nodes M i) (Some bs)))"
  have "node_inv (mesh_nodes M i)" using deliver by (simp add: mesh_inv_def)
  then have "\<forall>k \<in># image_mset hops_left ?N. \<exists>j \<in># {#hops_left (i, bs)#}. (k, j) \<in> less_than"
    by (auto dest: deliveries_hops)
  from one_step_implies_mult [OF _ this, of "image_mset hops_left (in_flight M - {#(i, bs)#})"]
  show ?case
    using deliver.hyps by (simp add: mesh_deliver_flight image_mset_Diff)
next
  case (lose i bs M)
  have "in_flight M - {#(i, bs)#} \<subset># in_flight M" using lose.hyps by (simp add: mset_subset_diff_self)
  then show ?case by (simp add: subset_implies_mult image_mset_subset_mono)
qed

section \<open>The flood of one packet\<close>

text \<open>A node has handled the packet when its signature is in the node's table.\<close>

definition holds :: "u8 list \<Rightarrow> mesh \<Rightarrow> nat \<Rightarrow> bool" where
  "holds v M i \<longleftrightarrow> v \<in> set (buff (node_cache (mesh_nodes M i)))"

text \<open>Who hears a node: the members of the networks of its eligible interfaces.\<close>

definition neighbours :: "topology \<Rightarrow> nat \<Rightarrow> nat list" where
  "neighbours T i = concat (map (\<lambda>it. members T (the (ifa_broadaddr it))) (filter eligible (node_ifs T i)))"

lemma deliveries_forward:
  assumes "sends evs = map (\<lambda>it. (the (ifa_broadaddr it), bs)) (filter eligible (node_ifs T i))"
  shows "deliveries T evs = mset (map (\<lambda>j. (j, bs)) (neighbours T i))"
  by (simp add: deliveries_def assms neighbours_def map_concat o_def)

lemma deliveries_none: "sends evs = [] \<Longrightarrow> deliveries T evs = {#}"
  by (simp add: deliveries_def)

text \<open>
  While only copies of \<open>p\<close> travel in a network of nodes \<open>N\<close>, every copy has lost at most one
  TTL for each node that has handled it, and every node that has handled it has told its
  neighbours.
\<close>

definition copy_ok :: "nat set \<Rightarrow> emergencyPacket \<Rightarrow> nat \<Rightarrow> nat \<times> u8 list \<Rightarrow> bool" where
  "copy_ok N p c m \<longleftrightarrow> fst m \<in> N \<and> (\<exists>q. snd m = packet_bytes q \<and> wf_packet q \<and>
     packet_core q = packet_core p \<and> packet_ttl p \<le> packet_ttl q + c)"

definition flood_inv :: "topology \<Rightarrow> nat set \<Rightarrow> emergencyPacket \<Rightarrow> mesh \<Rightarrow> bool" where
  "flood_inv T N p M \<longleftrightarrow> mesh_inv M \<and>
     (\<forall>m. m \<in># in_flight M \<longrightarrow> copy_ok N p (card {j \<in> N. holds (hmac_sig p) M j}) m)"

lemma copy_ok_mono: "copy_ok N p c m \<Longrightarrow> c \<le> d \<Longrightarrow> copy_ok N p d m"
  by (fastforce simp: copy_ok_def)

definition closed_in :: "(nat \<Rightarrow> bool) \<Rightarrow> mesh \<Rightarrow> nat \<Rightarrow> bool" where
  "closed_in P M j \<longleftrightarrow> P j \<or> j \<in> fst ` set_mset (in_flight M)"

definition told :: "topology \<Rightarrow> nat set \<Rightarrow> u8 list \<Rightarrow> mesh \<Rightarrow> bool" where
  "told T N v M \<longleftrightarrow> (\<forall>i \<in> N. holds v M i \<longrightarrow> (\<forall>j \<in> set (neighbours T i). closed_in (holds v M) M j))"

text \<open>Delivering a whole packet: the node drops it if it knows it, else stores and forwards it.\<close>

lemma deliver_packet:
  assumes inv: "node_inv (mesh_nodes M i)" and q: "wf_packet q"
  shows "node_cache (mesh_nodes (mesh_deliver T M i (packet_bytes q)) j) =
      (if j = i then put_sig (node_cache (mesh_nodes M i)) (hmac_sig q) else node_cache (mesh_nodes M j))"
    "in_flight (mesh_deliver T M i (packet_bytes q)) = in_flight M - {#(i, packet_bytes q)#} +
      (if holds (hmac_sig q) M i then {#}
       else case hop_packet q of None \<Rightarrow> {#} | Some q' \<Rightarrow> mset (map (\<lambda>j. (j, packet_bytes q')) (neighbours T i)))"
proof -
  let ?s = "mesh_nodes M i" and ?d = "Some (packet_bytes q)"
  have wf: "wf_packet (node_packet ?s)" using inv by (simp add: node_inv_def)
  have recv: "recv_into (node_packet ?s) ?d = q" using wf q by (rule recv_packet)
  have seen: "seen_sig ?s ?d = hmac_sig q" by (simp add: seen_sig_def recv)
  show "node_cache (mesh_nodes (mesh_deliver T M i (packet_bytes q)) j) =
      (if j = i then put_sig (node_cache ?s) (hmac_sig q) else node_cache (mesh_nodes M j))"
    using node_step_cache [OF inv, of "Some (node_ifs T i)" ?d] by (simp add: mesh_deliver_nodes seen)
  show "in_flight (mesh_deliver T M i (packet_bytes q)) = in_flight M - {#(i, packet_bytes q)#} +
      (if holds (hmac_sig q) M i then {#}
       else case hop_packet q of None \<Rightarrow> {#} | Some q' \<Rightarrow> mset (map (\<lambda>j. (j, packet_bytes q')) (neighbours T i)))"
  proof (cases "holds (hmac_sig q) M i")
    case True
    then have "sends (snd (node_step (Some (node_ifs T i)) ?s ?d)) = []"
      using sends_step [OF inv, of "Some (node_ifs T i)" ?d] seen by (auto simp: holds_def)
    with True show ?thesis by (simp add: mesh_deliver_flight deliveries_none)
  next
    case False
    have "deliveries T (snd (node_step (Some (node_ifs T i)) ?s ?d)) =
      (case hop_packet q of None \<Rightarrow> {#} | Some q' \<Rightarrow> mset (map (\<lambda>j. (j, packet_bytes q')) (neighbours T i)))"
      using inv
    proof (cases rule: node_step_cases [where d = ?d and ifs = "Some (node_ifs T i)"])
      case (Duplicate row)
      with False seen show ?thesis by (simp add: holds_def)
    next
      case Silent
      then show ?thesis using hop_packet_None [of q] by (simp add: deliveries_none sends_no_send recv)
    next
      case (Forward q')
      then show ?thesis by (simp add: recv deliveries_forward sends_broadcast_all)
    qed
    with False show ?thesis by (simp add: mesh_deliver_flight)
  qed
qed

text \<open>Delivering a copy: nothing but the node's buffer changes, or the node joins and forwards.\<close>

lemma flood_deliver:
  assumes "flood_inv T N p M" "(i, bs) \<in># in_flight M"
  obtains (Known) "holds (hmac_sig p) M i"
      "\<And>j. holds (hmac_sig p) (mesh_deliver T M i bs) j \<longleftrightarrow> holds (hmac_sig p) M j"
      "in_flight (mesh_deliver T M i bs) = in_flight M - {#(i, bs)#}"
  | (Joins) q where "\<not> holds (hmac_sig p) M i" "i \<in> N" "bs = packet_bytes q" "wf_packet q"
      "packet_core q = packet_core p"
      "packet_ttl p \<le> packet_ttl q + card {j \<in> N. holds (hmac_sig p) M j}"
      "\<And>j. holds (hmac_sig p) (mesh_deliver T M i bs) j \<longleftrightarrow> holds (hmac_sig p) M j \<or> j = i"
      "in_flight (mesh_deliver T M i bs) = in_flight M - {#(i, bs)#} +
         (case hop_packet q of None \<Rightarrow> {#} | Some q' \<Rightarrow> mset (map (\<lambda>j. (j, packet_bytes q')) (neighbours T i)))"
proof -
  let ?v = "hmac_sig p" and ?s = "mesh_nodes M i"
  from assms obtain q where q: "i \<in> N" "bs = packet_bytes q" "wf_packet q" "packet_core q = packet_core p"
    "packet_ttl p \<le> packet_ttl q + card {j \<in> N. holds ?v M j}"
    unfolding flood_inv_def copy_ok_def by fastforce
  have inv: "node_inv ?s" using assms(1) by (simp add: flood_inv_def mesh_inv_def)
  then have wf: "wf_buffer (node_cache ?s)" by (simp add: node_inv_def)
  have sig: "hmac_sig q = ?v" using packet_core_eqs [OF q(4)] by simp
  have wv: "wf_sig ?v" using wf_sig_packet [OF q(3)] sig by simp
  note d = deliver_packet [OF inv q(3), of T, unfolded sig, folded q(2)]
  show thesis
  proof (cases "holds ?v M i")
    case True
    then have "put_sig (node_cache ?s) ?v = node_cache ?s"
      using wf wv by (simp add: holds_def put_sig_known)
    with True d show thesis by (intro Known) (simp_all add: holds_def)
  next
    case False
    have "?v \<in> set (buff (put_sig (node_cache ?s) ?v))"
      using circ.has_put_self [OF wf wv] wf wv by (simp add: containsBuff_iff wf_put_sig)
    with d(1) have "holds ?v (mesh_deliver T M i bs) j \<longleftrightarrow> holds ?v M j \<or> j = i" for j
      by (simp add: holds_def)
    with False q d(2) show thesis by (intro Joins) simp_all
  qed
qed

definition topology_within :: "topology \<Rightarrow> nat set \<Rightarrow> bool" where
  "topology_within T N \<longleftrightarrow> finite N \<and> (\<forall>i \<in> N. set (neighbours T i) \<subseteq> N)"

lemma holders_insert:
  assumes "i \<in> N" "\<And>j. h' j \<longleftrightarrow> h j \<or> j = i"
  shows "{j \<in> N. h' j} = insert i {j \<in> N. h j}"
  using assms by auto

lemma flood_inv_step:
  assumes "flood_inv T N p M" "topology_within T N" "mesh_step T M a M'"
  shows "flood_inv T N p M'"
proof -
  let ?v = "hmac_sig p"
  have inv: "mesh_inv M'" using assms(1,3) mesh_step_inv by (auto simp: flood_inv_def)
  have fin: "finite N" using assms(2) by (simp add: topology_within_def)
  have keep: "flood_inv T N p M'" if "\<And>m. m \<in># in_flight M' \<Longrightarrow> m \<in># in_flight M" "\<And>j. holds ?v M' j = holds ?v M j"
    using assms(1) inv that by (simp add: flood_inv_def)
  from assms(3) show ?thesis
  proof cases
    case (lose i bs)
    then show ?thesis by (intro keep) (auto simp: holds_def dest: in_diffD)
  next
    case (deliver i bs)
    from assms(1) deliver(3) show ?thesis
    proof (cases rule: flood_deliver)
      case Known
      with deliver show ?thesis by (intro keep) (auto dest: in_diffD)
    next
      case (Joins q)
      have c: "card {j \<in> N. holds ?v M' j} = Suc (card {j \<in> N. holds ?v M j})"
        using Joins(1,2,7) fin deliver(2) by (subst holders_insert [of i N]) auto
      have "copy_ok N p (card {j \<in> N. holds ?v M' j}) m" if m: "m \<in># in_flight M'" for m
      proof (cases "m \<in># in_flight M")
        case True
        with assms(1) have "copy_ok N p (card {j \<in> N. holds ?v M j}) m" unfolding flood_inv_def by blast
        then show ?thesis by (rule copy_ok_mono) (simp add: c)
      next
        case False
        with m Joins(8) deliver(2) obtain q' j where q': "hop_packet q = Some q'" "m = (j, packet_bytes q')" "j \<in> set (neighbours T i)"
          by (auto split: option.splits dest: in_diffD)
        from hop_packet_Some [OF q'(1)] Joins(4-6) c have "wf_packet q'" "packet_core q' = packet_core p"
          "packet_ttl p \<le> packet_ttl q' + card {j \<in> N. holds ?v M' j}" by auto
        moreover have "j \<in> N" using q'(3) Joins(2) assms(2) by (auto simp: topology_within_def)
        ultimately show ?thesis using q'(2) by (auto simp: copy_ok_def)
      qed
      with inv show ?thesis by (simp add: flood_inv_def)
    qed
  qed
qed

text \<open>The work still to come: the datagrams in flight and those of nodes that have not joined.\<close>

definition flood_work :: "topology \<Rightarrow> nat set \<Rightarrow> u8 list \<Rightarrow> mesh \<Rightarrow> nat" where
  "flood_work T N v M = size (in_flight M) + (\<Sum>i \<in> {j \<in> N. \<not> holds v M j}. length (neighbours T i))"

lemma flood_work_step:
  assumes "flood_inv T N p M" and fin: "finite N" and "mesh_step T M a M'"
  shows "Suc (flood_work T N (hmac_sig p) M') \<le> flood_work T N (hmac_sig p) M"
proof -
  let ?v = "hmac_sig p"
  from assms(3) show ?thesis
  proof cases
    case (lose i bs)
    then show ?thesis using size_Suc_Diff1 [of "(i, bs)" "in_flight M"]
      by (simp add: flood_work_def holds_def)
  next
    case (deliver i bs)
    from assms(1) deliver(3) show ?thesis
    proof (cases rule: flood_deliver)
      case Known
      with deliver show ?thesis by (simp add: flood_work_def size_Suc_Diff1)
    next
      case (Joins q)
      have "{j \<in> N. \<not> holds ?v M j} = insert i {j \<in> N. \<not> holds ?v M' j}"
        using Joins(1,2,7) deliver(2) by auto
      moreover have "i \<notin> {j \<in> N. \<not> holds ?v M' j}" using Joins(7) deliver(2) by simp
      ultimately have "(\<Sum>i \<in> {j \<in> N. \<not> holds ?v M j}. length (neighbours T i)) =
          length (neighbours T i) + (\<Sum>i \<in> {j \<in> N. \<not> holds ?v M' j}. length (neighbours T i))"
        using fin by simp
      moreover have "Suc (size (in_flight M')) \<le> size (in_flight M) + length (neighbours T i)"
        using Joins(8) deliver(2) size_Suc_Diff1 [OF deliver(3)] by (auto split: option.splits)
      ultimately show ?thesis by (simp add: flood_work_def)
    qed
  qed
qed

text \<open>With more TTL than nodes, a node that joins always forwards.\<close>

lemma told_step:
  assumes "flood_inv T N p M" "topology_within T N" "card N < packet_ttl p" "told T N (hmac_sig p) M"
    "mesh_step T M (Deliver i bs) M'"
  shows "told T N (hmac_sig p) M' \<and> (\<forall>j. closed_in (holds (hmac_sig p) M) M j \<longrightarrow> closed_in (holds (hmac_sig p) M') M' j)"
proof -
  let ?v = "hmac_sig p"
  from assms(5) have d: "(i, bs) \<in># in_flight M" "M' = mesh_deliver T M i bs"
    by (auto elim: mesh_step_DeliverE)
  have stay: "j \<in> fst ` set_mset (in_flight M')" if "j \<noteq> i" "j \<in> fst ` set_mset (in_flight M)"
    "in_flight M' = in_flight M - {#(i, bs)#} + X" for j X
    using that by (force simp: in_diff_count)
  from assms(1) d(1) show ?thesis
  proof (cases rule: flood_deliver)
    case Known
    have "closed_in (holds ?v M') M' j" if "closed_in (holds ?v M) M j" for j
      using that Known stay [of j "{#}"] d(2) by (cases "j = i") (auto simp: closed_in_def)
    with assms(4) Known(2) d(2) show ?thesis by (auto simp: told_def)
  next
    case (Joins q)
    have keep: "closed_in (holds ?v M') M' j" if "closed_in (holds ?v M) M j" for j
      using that Joins(7,8) stay [of j] d(2) by (cases "j = i") (auto simp: closed_in_def)
    have fin: "finite N" using assms(2) by (simp add: topology_within_def)
    have "card {j \<in> N. holds ?v M j} < card N"
      using Joins(1,2) fin by (intro psubset_card_mono) auto
    with Joins(6) assms(3) have "1 < packet_ttl q" by linarith
    then obtain q' where q': "hop_packet q = Some q'" using hop_packet_None [of q] by auto
    have "closed_in (holds ?v M') M' j" if "j \<in> set (neighbours T i)" for j
      using that Joins(8) q' d(2) by (force simp: closed_in_def)
    with assms(4) keep Joins(7) d(2) show ?thesis by (auto simp: told_def)
  qed
qed

section \<open>Runs\<close>

lemma mesh_run_inv: "mesh_run T M as M' \<Longrightarrow> mesh_inv M \<Longrightarrow> mesh_inv M'"
  by (induction rule: mesh_run.induct) (auto intro: mesh_step_inv)

lemma flood_run_inv: "mesh_run T M as M' \<Longrightarrow> flood_inv T N p M \<Longrightarrow> topology_within T N \<Longrightarrow> flood_inv T N p M'"
  by (induction rule: mesh_run.induct) (auto intro: flood_inv_step)

lemma flood_run_work:
  assumes "mesh_run T M as M'" "flood_inv T N p M" "topology_within T N"
  shows "length as + flood_work T N (hmac_sig p) M' \<le> flood_work T N (hmac_sig p) M"
  using assms
proof (induction rule: mesh_run.induct)
  case (run_snoc M as M1 a M2)
  have "flood_inv T N p M1" using run_snoc by (blast intro: flood_run_inv)
  moreover have "finite N" using run_snoc.prems(2) by (simp add: topology_within_def)
  ultimately show ?case using flood_work_step [OF _ _ run_snoc.hyps(2)] run_snoc.IH [OF run_snoc.prems] by fastforce
qed simp

definition lossless :: "mesh_action list \<Rightarrow> bool" where
  "lossless as \<longleftrightarrow> (\<forall>a \<in> set as. \<exists>i bs. a = Deliver i bs)"

lemma told_run:
  assumes "mesh_run T M as M'" "lossless as" "flood_inv T N p M" "topology_within T N" "card N < packet_ttl p"
    "told T N (hmac_sig p) M"
  shows "told T N (hmac_sig p) M' \<and> (\<forall>j. closed_in (holds (hmac_sig p) M) M j \<longrightarrow> closed_in (holds (hmac_sig p) M') M' j)"
  using assms
proof (induction rule: mesh_run.induct)
  case (run_snoc M as M1 a M2)
  from run_snoc.prems(1) obtain i bs where a: "a = Deliver i bs" "lossless as" by (auto simp: lossless_def)
  have f: "flood_inv T N p M1" using run_snoc by (blast intro: flood_run_inv)
  from run_snoc.IH [OF a(2) run_snoc.prems(2-5)]
  have "told T N (hmac_sig p) M1" and k: "\<And>j. closed_in (holds (hmac_sig p) M) M j \<Longrightarrow> closed_in (holds (hmac_sig p) M1) M1 j"
    by blast+
  from told_step [OF f run_snoc.prems(3,4) this(1)] run_snoc.hyps(2) k show ?case unfolding a(1) by blast
qed simp

text \<open>Every flood can run to its end without a loss.\<close>

lemma mesh_run_Cons:
  "mesh_run T M1 as M2 \<Longrightarrow> mesh_step T M a M1 \<Longrightarrow> mesh_run T M (a # as) M2"
proof (induction rule: mesh_run.induct)
  case (run_Nil M1)
  from mesh_run.run_snoc [OF mesh_run.run_Nil run_Nil] show ?case by simp
next
  case (run_snoc M1 as M2 b M3)
  from mesh_run.run_snoc [OF run_snoc.IH [OF run_snoc.prems] run_snoc.hyps(2)] show ?case by simp
qed

lemma mesh_completes:
  assumes "mesh_inv M"
  shows "\<exists>as M'. mesh_run T M as M' \<and> lossless as \<and> in_flight M' = {#}"
proof -
  have "wf (inv_image (mult less_than) (\<lambda>M. image_mset hops_left (in_flight M)))"
    by (rule wf_inv_image [OF wf_mult [OF wf_less_than]])
  from this assms show ?thesis
  proof (induction M rule: wf_induct_rule)
    case (less M)
    show ?case
    proof (cases "in_flight M = {#}")
      case True
      then show ?thesis using mesh_run.run_Nil [of T M] by (auto simp: lossless_def intro!: exI [of _ "[]"])
    next
      case False
      then obtain i bs where "(i, bs) \<in># in_flight M" by auto
      then have st: "mesh_step T M (Deliver i bs) (mesh_deliver T M i bs)" by (rule mesh_step.deliver)
      from less.IH [OF _ mesh_step_inv [OF st less.prems]] mesh_step_decreases [OF st less.prems] obtain as M'
        where r: "mesh_run T (mesh_deliver T M i bs) as M'" "lossless as" "in_flight M' = {#}" by auto
      from mesh_run_Cons [OF r(1) st] r(2,3) show ?thesis by (auto simp: lossless_def intro!: exI [of _ "Deliver i bs # as"])
    qed
  qed
qed

text \<open>What a node sends in a run: for each iteration of its loop that sends at all, the datagrams.\<close>

definition step_sends :: "topology \<Rightarrow> mesh \<Rightarrow> mesh_action \<Rightarrow> nat \<Rightarrow> (u32 \<times> u8 list) list" where
  "step_sends T M a i = (case a of
       Deliver j bs \<Rightarrow> if j = i then sends (snd (node_step (Some (node_ifs T i)) (mesh_nodes M i) (Some bs))) else []
     | Lose j bs \<Rightarrow> [])"

definition mesh_after :: "topology \<Rightarrow> mesh \<Rightarrow> mesh_action \<Rightarrow> mesh" where
  "mesh_after T M a = (case a of
       Deliver j bs \<Rightarrow> mesh_deliver T M j bs
     | Lose j bs \<Rightarrow> M\<lparr>in_flight := in_flight M - {#(j, bs)#}\<rparr>)"

primrec node_sends :: "topology \<Rightarrow> mesh \<Rightarrow> mesh_action list \<Rightarrow> nat \<Rightarrow> (u32 \<times> u8 list) list list" where
  "node_sends T M [] i = []"
| "node_sends T M (a # as) i =
     (let rest = node_sends T (mesh_after T M a) as i in if step_sends T M a i = [] then rest else step_sends T M a i # rest)"

lemma mesh_step_after: "mesh_step T M a M' \<Longrightarrow> M' = mesh_after T M a"
  by (induction rule: mesh_step.induct) (simp_all add: mesh_after_def)

lemma mesh_run_after: "mesh_run T M as M' \<Longrightarrow> M' = foldl (mesh_after T) M as"
  by (induction rule: mesh_run.induct) (simp_all add: mesh_step_after)

lemma node_sends_snoc:
  "node_sends T M (as @ [a]) i = node_sends T M as i @
     (if step_sends T (foldl (mesh_after T) M as) a i = [] then [] else [step_sends T (foldl (mesh_after T) M as) a i])"
  by (induction as arbitrary: M) (simp_all add: Let_def)

text \<open>A node that sends did not hold the signature before and does so afterwards, for good.\<close>

lemma flood_sends:
  assumes "flood_inv T N p M" "mesh_step T M a M'"
  shows "step_sends T M a i = [] \<or> \<not> holds (hmac_sig p) M i \<and> holds (hmac_sig p) M' i \<and>
    (\<exists>q. wf_packet q \<and> packet_core q = packet_core p \<and>
      step_sends T M a i = map (\<lambda>it. (the (ifa_broadaddr it), packet_bytes q)) (filter eligible (node_ifs T i)))"
  using assms(2)
proof cases
  case (deliver j bs)
  let ?s = "mesh_nodes M j" and ?v = "hmac_sig p"
  from assms(1) deliver(3) obtain r where r: "bs = packet_bytes r" "wf_packet r" "packet_core r = packet_core p"
    unfolding flood_inv_def copy_ok_def by fastforce
  have inv: "node_inv ?s" using assms(1) by (simp add: flood_inv_def mesh_inv_def)
  then have wf: "wf_packet (node_packet ?s)" by (simp add: node_inv_def)
  have recv: "recv_into (node_packet ?s) (Some bs) = r" unfolding r(1) using wf r(2) by (rule recv_packet)
  have seen: "seen_sig ?s (Some bs) = ?v" using packet_core_eqs [OF r(3)] by (simp add: seen_sig_def recv)
  from sends_step [OF inv, of "Some (node_ifs T j)" "Some bs", unfolded seen recv]
  consider "sends (snd (node_step (Some (node_ifs T j)) ?s (Some bs))) = []"
    | q where "\<not> holds ?v M j" "hop_packet r = Some q"
        "sends (snd (node_step (Some (node_ifs T j)) ?s (Some bs))) =
           map (\<lambda>it. (the (ifa_broadaddr it), packet_bytes q)) (filter eligible (node_ifs T j))"
    by (auto simp: holds_def)
  then show ?thesis
  proof cases
    case 1
    then show ?thesis using deliver(1) by (cases "i = j") (simp_all add: step_sends_def)
  next
    case (2 q)
    have "holds ?v M' j"
      by (rule flood_deliver [OF assms(1) deliver(3)]) (use 2(1) deliver(2) in auto)
    moreover have "wf_packet q" "packet_core q = packet_core p" using hop_packet_Some [OF 2(2)] r(2,3) by auto
    ultimately show ?thesis using 2(1,3) deliver(1) by (cases "i = j") (auto simp: step_sends_def)
  qed
qed (simp add: step_sends_def)

lemma flood_holds:
  assumes "flood_inv T N p M" "mesh_step T M a M'" "holds (hmac_sig p) M i"
  shows "holds (hmac_sig p) M' i"
  using assms(2)
proof cases
  case (deliver j bs)
  from assms(1) deliver(3) show ?thesis by (rule flood_deliver) (use assms(3) deliver(2) in auto)
qed (use assms(3) in \<open>simp add: holds_def\<close>)

lemma one_broadcast:
  assumes "mesh_run T M as M'" "flood_inv T N p M" "topology_within T N"
  shows "node_sends T M as i = [] \<or> holds (hmac_sig p) M' i \<and> (\<exists>q. wf_packet q \<and> packet_core q = packet_core p \<and>
    node_sends T M as i = [map (\<lambda>it. (the (ifa_broadaddr it), packet_bytes q)) (filter eligible (node_ifs T i))])"
  using assms
proof (induction rule: mesh_run.induct)
  case (run_snoc M as M1 a M2)
  have f: "flood_inv T N p M1" using run_snoc by (blast intro: flood_run_inv)
  note snoc = node_sends_snoc [of T M as a i, folded mesh_run_after [OF run_snoc.hyps(1)]]
  from flood_sends [OF f run_snoc.hyps(2), of i] run_snoc.IH [OF run_snoc.prems] flood_holds [OF f run_snoc.hyps(2), of i]
  show ?case unfolding snoc by auto
qed simp

inductive connected :: "topology \<Rightarrow> nat set \<Rightarrow> nat \<Rightarrow> bool" for T S where
  source: "i \<in> S \<Longrightarrow> connected T S i"
| hear: "connected T S i \<Longrightarrow> j \<in> set (neighbours T i) \<Longrightarrow> connected T S j"

text \<open>A network about to be flooded: only copies of \<open>p\<close> in flight, and no node knows it yet.\<close>

definition flood_start :: "nat set \<Rightarrow> emergencyPacket \<Rightarrow> mesh \<Rightarrow> bool" where
  "flood_start N p M \<longleftrightarrow> mesh_inv M \<and> wf_packet p \<and> (\<forall>i \<in> N. \<not> holds (hmac_sig p) M i) \<and>
     (\<forall>m. m \<in># in_flight M \<longrightarrow> fst m \<in> N \<and> snd m = packet_bytes p)"

lemma flood_start_inv: "flood_start N p M \<Longrightarrow> flood_inv T N p M \<and> told T N (hmac_sig p) M"
  unfolding flood_start_def flood_inv_def copy_ok_def told_def by force

section \<open>Properties\<close>

text \<open>
  Property C16. No set of datagrams, whatever their bytes (short and forged ones included), keeps a
  network of relay nodes busy for ever: on every topology, in every order of delivery and with any
  losses, the network falls silent after finitely many steps.
\<close>

theorem mesh_falls_silent:
  assumes "mesh_inv (f 0)"
  shows "\<not> (\<forall>k. \<exists>a. mesh_step T (f k) a (f (Suc k)))"
proof
  assume steps: "\<forall>k. \<exists>a. mesh_step T (f k) a (f (Suc k))"
  have inv: "mesh_inv (f k)" for k
    by (induction k) (use assms steps mesh_step_inv in blast)+
  have "(image_mset hops_left (in_flight (f (Suc k))), image_mset hops_left (in_flight (f k))) \<in> mult less_than" for k
    using steps mesh_step_decreases [OF _ inv] by blast
  then have "\<exists>g. \<forall>k. (g (Suc k), g k) \<in> mult less_than"
    by (intro exI [of _ "\<lambda>k. image_mset hops_left (in_flight (f k))"]) simp
  with wf_mult [OF wf_less_than] show False
    unfolding wf_iff_no_infinite_down_chain by (rule notE)
qed

text \<open>Two nodes on one bridge network, and a packet on its way to the first.\<close>

definition pair_topology :: topology where
  "pair_topology = \<lparr>node_ifs = \<lambda>_. sample_ifs, members = \<lambda>sa. if sa = 0xAC12FFFF then [0, 1] else []\<rparr>"

definition pair_mesh :: mesh where
  "pair_mesh = \<lparr>mesh_nodes = \<lambda>_. node_init, in_flight = {#(0, packet_bytes sample_packet)#}\<rparr>"

lemma pair_neighbours: "neighbours pair_topology i = [0, 1]"
  by (simp add: neighbours_def pair_topology_def eligible_sample)

lemma pair_within: "topology_within pair_topology {0, 1}"
  by (simp add: topology_within_def pair_neighbours)

lemma pair_inv: "mesh_inv pair_mesh"
  by (simp add: mesh_inv_def pair_mesh_def node_init_inv)

lemma pair_start: "flood_start {0, 1} sample_packet pair_mesh"
  using sample_sig_new by (simp add: flood_start_def pair_inv) (simp add: pair_mesh_def holds_def)

lemma pair_connected: "connected pair_topology (fst ` set_mset (in_flight pair_mesh)) 1"
  by (rule connected.hear [of _ _ 0]) (auto intro: connected.source simp: pair_mesh_def pair_neighbours)

theorem mesh_falls_silent_witness:
  "\<not> (\<forall>k. \<exists>a. mesh_step pair_topology pair_mesh a pair_mesh)"
  using mesh_falls_silent [of "\<lambda>_. pair_mesh" pair_topology] pair_inv by simp

text \<open>
  Property C11. The flood of one packet is bounded by the network, not by the TTL. On every
  topology, in every order of delivery and with any losses, each node sends it on in at most one
  iteration of its loop, one datagram with an otherwise unaltered copy per eligible interface; and
  the steps of the run (deliveries and losses) and the copies still in flight are together at most
  the copies at the start plus, for each node, the number of its listeners.
\<close>

theorem flood_cost:
  assumes "flood_start N p M" "topology_within T N" "mesh_run T M as M'"
  shows "(node_sends T M as i = [] \<or> (\<exists>q. wf_packet q \<and> packet_core q = packet_core p \<and>
      node_sends T M as i = [map (\<lambda>it. (the (ifa_broadaddr it), packet_bytes q)) (filter eligible (node_ifs T i))])) \<and>
    length as + size (in_flight M') \<le> size (in_flight M) + (\<Sum>j \<in> N. length (neighbours T j))"
proof
  have f: "flood_inv T N p M" using flood_start_inv [OF assms(1)] by blast
  have fin: "finite N" using assms(2) by (simp add: topology_within_def)
  from one_broadcast [OF assms(3) f assms(2), of i]
  show "node_sends T M as i = [] \<or> (\<exists>q. wf_packet q \<and> packet_core q = packet_core p \<and>
      node_sends T M as i = [map (\<lambda>it. (the (ifa_broadaddr it), packet_bytes q)) (filter eligible (node_ifs T i))])"
    by blast
  have "length as + flood_work T N (hmac_sig p) M' \<le> flood_work T N (hmac_sig p) M"
    by (rule flood_run_work [OF assms(3) f assms(2)])
  moreover have "(\<Sum>i \<in> {j \<in> N. \<not> holds (hmac_sig p) M j}. length (neighbours T i)) \<le> (\<Sum>i \<in> N. length (neighbours T i))"
    using fin by (intro sum_mono2) auto
  ultimately show "length as + size (in_flight M') \<le> size (in_flight M) + (\<Sum>j \<in> N. length (neighbours T j))"
    by (simp add: flood_work_def)
qed

theorem flood_cost_witness:
  "\<exists>as M'. mesh_run pair_topology pair_mesh as M' \<and> in_flight M' = {#} \<and> length as \<le> 5 \<and>
     length (node_sends pair_topology pair_mesh as 1) \<le> 1"
proof -
  obtain as M' where r: "mesh_run pair_topology pair_mesh as M'" "in_flight M' = {#}"
    using mesh_completes [OF pair_inv] by blast
  from flood_cost [OF pair_start pair_within r(1), of 1] r show ?thesis
    by (auto simp: pair_neighbours pair_mesh_def intro!: exI [of _ as] exI [of _ M'])
qed

text \<open>
  If the network has fewer nodes than the packet has TTL and no datagram is lost,
  then when the flood is over every node that is connected to a first receiver has got the packet,
  in whatever order the copies travelled. (With more nodes a copy that came by a detour can make
  a node drop a later copy with more TTL, so the TTL bounds the number of nodes, not the distance.)
\<close>

theorem flood_reaches_all:
  assumes "flood_start N p M" "topology_within T N" "card N < packet_ttl p"
    "mesh_run T M as M'" "lossless as" "in_flight M' = {#}"
    "connected T (fst ` set_mset (in_flight M)) j"
  shows "holds (hmac_sig p) M' j"
proof -
  let ?v = "hmac_sig p"
  have f: "flood_inv T N p M" "told T N ?v M" using flood_start_inv [OF assms(1)] by blast+
  note final = told_run [OF assms(4,5) f(1) assms(2,3) f(2)]
  from assms(7) have "j \<in> N \<and> holds ?v M' j"
  proof (induction rule: connected.induct)
    case (source i)
    then have "closed_in (holds ?v M') M' i" using final by (simp add: closed_in_def)
    with source assms(1,6) show ?case by (auto simp: closed_in_def flood_start_def)
  next
    case (hear i j)
    with final have "closed_in (holds ?v M') M' j" by (auto simp: told_def)
    with hear assms(2,6) show ?case by (auto simp: closed_in_def topology_within_def)
  qed
  then show ?thesis ..
qed

theorem flood_reaches_all_witness:
  "\<exists>as M'. mesh_run pair_topology pair_mesh as M' \<and> lossless as \<and> in_flight M' = {#} \<and>
     holds (hmac_sig sample_packet) M' 1"
proof -
  obtain as M' where r: "mesh_run pair_topology pair_mesh as M'" "lossless as" "in_flight M' = {#}"
    using mesh_completes [OF pair_inv] by blast
  have "card {0, 1 :: nat} < packet_ttl sample_packet" by simp
  from flood_reaches_all [OF pair_start pair_within this r pair_connected] r show ?thesis by blast
qed

end
