(* ===== verification/SimExit.thy ===== *)
theory SimExit
  imports SimNode
begin

text \<open>
  The exit node of the simulator, exit.cpp: it receives like a relay node, keeps the same table
  of signatures, and hands every packet it has not seen to the emergency service (a line on the
  terminal) instead of sending it on. The TTL bits are cleared and never looked at.
\<close>

section \<open>Model\<close>

datatype exit_event =
    ExitReceived int
  | Delivered int
  | ExitDuplicate int

record exit_state =
  exit_packet :: emergencyPacket
  exit_cache :: circularBuffer

definition exit_init :: exit_state where
  "exit_init = \<lparr>exit_packet = zero_packet, exit_cache = zero_buffer\<rparr>"

definition clear_ttl :: "u8 \<Rightarrow> u8" where
  "clear_ttl f = ucast ((ucast f :: u32) AND push_bit 5 0xFF)"

definition exit_step :: "exit_state \<Rightarrow> u8 list option \<Rightarrow> exit_state \<times> exit_event list" where
  "exit_step s d =
     (let p = recv_into (exit_packet s) d;
          location = containsBuff (exit_cache s) (hmac_sig p)
      in if location = -1
         then (\<lparr>exit_packet = p\<lparr>flags := clear_ttl (flags p)\<rparr>,
                exit_cache = fst (addToBuff (exit_cache s) (hmac_sig p))\<rparr>,
               [ExitReceived (recv_count d), Delivered (recv_count d)])
         else (s\<lparr>exit_packet := p\<rparr>, [ExitReceived (recv_count d), ExitDuplicate location]))"

text \<open>
  The endless loop over its first datagrams: the final state and, per iteration, the packet left
  in the buffer with the events.
\<close>

primrec exit_run :: "exit_state \<Rightarrow> u8 list option list \<Rightarrow> exit_state \<times> (emergencyPacket \<times> exit_event list) list" where
  "exit_run s [] = (s, [])"
| "exit_run s (d # ds) =
     (let (s1, evs) = exit_step s d; (s2, rest) = exit_run s1 ds
      in (s2, (exit_packet s1, evs) # rest))"

section \<open>Invariant and branches\<close>

definition exit_inv :: "exit_state \<Rightarrow> bool" where
  "exit_inv s \<longleftrightarrow> wf_buffer (exit_cache s) \<and> wf_packet (exit_packet s)"

definition delivers :: "u8 list \<Rightarrow> emergencyPacket \<times> exit_event list \<Rightarrow> bool" where
  "delivers v x \<longleftrightarrow> hmac_sig (fst x) = v \<and> list_ex (\<lambda>e. \<exists>n. e = Delivered n) (snd x)"

lemma clear_ttl_mask: "clear_ttl f = f AND 0xE0"
  by (rule u8_eqI) (simp_all add: clear_ttl_def bit_simps)

lemma exit_init_inv: "exit_inv exit_init"
  by (simp add: exit_inv_def exit_init_def wf_zero_buffer)

lemma exit_step_cases:
  assumes "exit_inv s"
  obtains (Old) row where "hmac_sig (recv_into (exit_packet s) d) \<in> set (buff (exit_cache s))"
      "exit_step s d = (s\<lparr>exit_packet := recv_into (exit_packet s) d\<rparr>,
         [ExitReceived (recv_count d), ExitDuplicate row])"
  | (New) "hmac_sig (recv_into (exit_packet s) d) \<notin> set (buff (exit_cache s))"
      "exit_step s d = (\<lparr>exit_packet = packet_core (recv_into (exit_packet s) d),
           exit_cache = put_sig (exit_cache s) (hmac_sig (recv_into (exit_packet s) d))\<rparr>,
         [ExitReceived (recv_count d), Delivered (recv_count d)])"
proof -
  let ?p = "recv_into (exit_packet s) d"
  have wf: "wf_buffer (exit_cache s)" "wf_sig (hmac_sig ?p)" using assms by (simp_all add: exit_inv_def)
  show thesis
  proof (cases "hmac_sig ?p \<in> set (buff (exit_cache s))")
    case True
    moreover from True wf have "containsBuff (exit_cache s) (hmac_sig ?p) \<noteq> -1"
      by (simp add: containsBuff_miss)
    ultimately show thesis by (intro Old) (simp_all add: exit_step_def Let_def)
  next
    case False
    moreover from False wf have "containsBuff (exit_cache s) (hmac_sig ?p) = -1"
      by (simp add: containsBuff_miss)
    ultimately show thesis
      by (intro New) (simp_all add: exit_step_def Let_def put_sig_def packet_core_def flag_core_def clear_ttl_mask)
  qed
qed

lemma hmac_sig_core [simp]: "hmac_sig (packet_core p) = hmac_sig p" "wf_packet (packet_core p) = wf_packet p"
  by (simp_all add: packet_core_def)

lemma exit_step_inv: "exit_inv s \<Longrightarrow> exit_inv (fst (exit_step s d))"
  by (rule exit_step_cases [of s d]) (auto simp: exit_inv_def wf_put_sig)

lemma exit_step_delivers:
  "exit_inv s \<Longrightarrow> delivers v (exit_packet (fst (exit_step s d)), snd (exit_step s d)) \<longleftrightarrow>
     hmac_sig (recv_into (exit_packet s) d) = v \<and> v \<notin> set (buff (exit_cache s))"
  by (erule exit_step_cases [where d = d]) (auto simp: delivers_def)

primrec exit_sigs :: "exit_state \<Rightarrow> u8 list option list \<Rightarrow> u8 list list" where
  "exit_sigs s [] = []"
| "exit_sigs s (d # ds) = hmac_sig (recv_into (exit_packet s) d) # exit_sigs (fst (exit_step s d)) ds"

lemma exit_sigs_wf: "exit_inv s \<Longrightarrow> \<forall>v \<in> set (exit_sigs s ds). wf_sig v"
proof (induction ds arbitrary: s)
  case (Cons d ds)
  then show ?case using Cons.IH [OF exit_step_inv [OF Cons.prems, of d]] by (simp add: exit_inv_def)
qed simp

text \<open>Deliveries are exactly the keys that the duplicate filter lets through.\<close>

lemma exit_deliveries:
  assumes "exit_inv s"
  shows "length (filter (delivers v) (snd (exit_run s ds))) =
    count_list (accepted (\<lambda>c v. containsBuff c v \<noteq> -1) put_sig (exit_cache s) (exit_sigs s ds)) v"
  using assms
proof (induction ds arbitrary: s)
  case Nil
  then show ?case by simp
next
  case (Cons d ds)
  let ?p = "recv_into (exit_packet s) d"
  let ?s1 = "fst (exit_step s d)"
  have wf: "wf_buffer (exit_cache s)" "wf_sig (hmac_sig ?p)" using Cons.prems by (simp_all add: exit_inv_def)
  have c: "exit_cache ?s1 = put_sig (exit_cache s) (hmac_sig ?p)"
    by (rule exit_step_cases [OF Cons.prems, of d]) (use wf in \<open>auto simp: put_sig_known\<close>)
  have IH: "length (filter (delivers v) (snd (exit_run ?s1 ds))) =
    count_list (accepted (\<lambda>c v. containsBuff c v \<noteq> -1) put_sig (put_sig (exit_cache s) (hmac_sig ?p)) (exit_sigs ?s1 ds)) v"
    using Cons.IH [OF exit_step_inv [OF Cons.prems, of d]] by (simp add: c)
  have run: "snd (exit_run s (d # ds)) = (exit_packet ?s1, snd (exit_step s d)) # snd (exit_run ?s1 ds)"
    by (simp add: split_beta Let_def)
  show ?case
    using IH wf exit_step_delivers [OF Cons.prems, of v d]
    by (auto simp: run containsBuff_miss put_sig_known simp del: exit_run.simps)
qed

section \<open>Properties\<close>

text \<open>
  While at most 256 different signatures come in, however often and in whatever
  order the copies arrive, the exit node delivers no packet twice, and it delivers exactly once
  every packet it receives whose signature was not in its table at the start.
\<close>

theorem exit_delivers_once:
  assumes "exit_inv s" "card (set (exit_sigs s ds)) \<le> HASHES"
  shows "length (filter (delivers v) (snd (exit_run s ds))) \<le> 1 \<and>
    (v \<in> set (exit_sigs s ds) \<and> v \<notin> set (buff (exit_cache s)) \<longrightarrow>
       length (filter (delivers v) (snd (exit_run s ds))) = 1)"
proof -
  let ?acc = "accepted (\<lambda>c v. containsBuff c v \<noteq> -1) put_sig (exit_cache s) (exit_sigs s ds)"
  have wf: "wf_buffer (exit_cache s)" using assms(1) by (simp add: exit_inv_def)
  have le: "count_list ?acc v \<le> 1"
    using circ.accepted_distinct [OF wf exit_sigs_wf [OF assms(1)] assms(2)] by (rule count_list_distinct)
  have "v \<in> set ?acc" if v: "v \<in> set (exit_sigs s ds)" "v \<notin> set (buff (exit_cache s))"
  proof (rule circ.accepted_first [OF wf exit_sigs_wf [OF assms(1)] v(1)])
    show "\<not> containsBuff (exit_cache s) v \<noteq> -1"
      using wf v exit_sigs_wf [OF assms(1)] by (simp add: containsBuff_miss)
  qed
  then have "count_list ?acc v = 1" if "v \<in> set (exit_sigs s ds) \<and> v \<notin> set (buff (exit_cache s))"
    using that le count_list_0_iff [of ?acc v] by linarith
  with le show ?thesis by (simp add: exit_deliveries [OF assms(1)])
qed

lemma exit_recv_sample: "recv_into (exit_packet exit_init) (Some (packet_bytes sample_packet)) = sample_packet"
  by (rule recv_packet) (simp_all add: exit_init_def)

theorem exit_delivers_once_witness:
  "length (filter (delivers (hmac_sig sample_packet)) (snd (exit_run exit_init
     (replicate 3 (Some (packet_bytes sample_packet)))))) = 1"
proof -
  let ?ds = "replicate 3 (Some (packet_bytes sample_packet))"
  have "length (exit_sigs s ds) = length ds" for s ds
    by (induction ds arbitrary: s) simp_all
  then have c: "card (set (exit_sigs exit_init ?ds)) \<le> HASHES"
    using card_length [of "exit_sigs exit_init ?ds"] by (simp add: HASHES_def del: replicate.simps)
  have "hmac_sig sample_packet \<in> set (exit_sigs exit_init ?ds)"
    by (simp add: exit_recv_sample eval_nat_numeral del: replicate.simps(1))
  moreover have "hmac_sig sample_packet \<notin> set (buff (exit_cache exit_init))"
    using sample_sig_new by (simp add: node_init_def exit_init_def)
  ultimately show ?thesis
    using exit_delivers_once [OF exit_init_inv c, of "hmac_sig sample_packet"] by blast
qed

end
