(* ===== verification/Signing.thy ===== *)
theory Signing
  imports Packet
begin

text \<open>
  What the programs share about strings, keys and signatures: C strings as bytes with their
  terminator, the key all parties are compiled with, and the receiver's check of a packet's
  signature (verify\_hmac of the Python scanners). HMAC-SHA-256 comes from mbedTLS, OpenSSL and
  Python's hmac module; it is a parameter \<open>mac\<close> from a key and a message to a digest, and
  \<open>digest_ok\<close> is the documented fact that the digest has 32 bytes.
\<close>

definition c_string :: "string \<Rightarrow> u8 list" where
  "c_string s = map of_char s @ [0]"

definition strlen :: "u8 list \<Rightarrow> nat" where
  "strlen s = length (takeWhile (\<lambda>b. b \<noteq> 0) s)"

definition MURMUR_SEED :: u32 where
  "MURMUR_SEED = 112"

definition SECRET_KEY :: "u8 list" where
  "SECRET_KEY =
     [0x01, 0x02, 0x03, 0x04, 0x05, 0x06, 0x07, 0x08,
      0x09, 0x0a, 0x0b, 0x0c, 0x0d, 0x0e, 0x0f, 0x10,
      0x11, 0x12, 0x13, 0x14, 0x15, 0x16, 0x17, 0x18,
      0x19, 0x1a, 0x1b, 0x1c, 0x1d, 0x1e, 0x1f, 0x20]"

type_synonym hmac_fun = "u8 list \<Rightarrow> u8 list \<Rightarrow> u8 list"

definition digest_ok :: "hmac_fun \<Rightarrow> bool" where
  "digest_ok mac \<longleftrightarrow> (\<forall>k m. length (mac k m) = 32)"

text \<open>The check of the scanners: the TTL bits are cleared before the first 17 bytes are hashed.\<close>

definition TTL_MASK :: u8 where
  "TTL_MASK = 0xE0"

definition verify_hmac :: "hmac_fun \<Rightarrow> u8 list \<Rightarrow> bool" where
  "verify_hmac mac payload_25_bytes =
     (let m = take 17 payload_25_bytes;
          m = m[8 := m ! 8 AND TTL_MASK];
          computed_hash = mac SECRET_KEY m
      in take 8 computed_hash = take 8 (drop 17 payload_25_bytes))"

lemma digest_length [simp]: "digest_ok mac \<Longrightarrow> length (mac k m) = 32"
  by (simp add: digest_ok_def)

lemma packet_bytes_core: "packet_bytes (packet_core p) = (packet_bytes p)[8 := flags p AND TTL_MASK]"
  by (simp add: packet_bytes_def packet_core_def flag_core_def TTL_MASK_def list_update_append)

text \<open>So the check depends on what no relay changes, and on nothing else.\<close>

definition signed_body :: "emergencyPacket \<Rightarrow> u8 list" where
  "signed_body p = take 17 (packet_bytes (packet_core p))"

lemma verify_packet:
  assumes "wf_packet p"
  shows "verify_hmac mac (packet_bytes p) \<longleftrightarrow> hmac_sig p = take 8 (mac SECRET_KEY (signed_body p))"
proof -
  have "take 8 (drop 17 (packet_bytes p)) = hmac_sig p"
    using assms by (simp add: wf_packet_def SIG_LEN_def)
  then show ?thesis
    by (auto simp: verify_hmac_def signed_body_def packet_bytes_core Let_def take_update_swap)
qed

lemma verify_core:
  assumes "packet_core q = packet_core p" "wf_packet p"
  shows "wf_packet q" "verify_hmac mac (packet_bytes q) \<longleftrightarrow> verify_hmac mac (packet_bytes p)"
proof -
  have "hmac_sig q = hmac_sig p" using arg_cong [OF assms(1), of hmac_sig] by (simp add: packet_core_def)
  with assms(2) show "wf_packet q" by (simp add: wf_packet_def)
  with assms \<open>hmac_sig q = hmac_sig p\<close> show "verify_hmac mac (packet_bytes q) \<longleftrightarrow> verify_hmac mac (packet_bytes p)"
    by (simp add: verify_packet signed_body_def)
qed

text \<open>A stand-in for HMAC, used at concrete inputs: the sum of the bytes in a 32-byte digest.\<close>

definition toy_mac :: hmac_fun where
  "toy_mac k m = sum_list m # replicate 31 (sum_list k)"

lemma digest_ok_toy [simp]: "digest_ok toy_mac"
  by (simp add: digest_ok_def toy_mac_def)

end
