(* ===== verification/BlockHash.thy ===== *)
theory BlockHash
  imports Prelude
begin

text \<open>
  What the variants of MurmurHash3 share: a state that absorbs the key block by block and then
  the bytes behind the last block. \<open>absorb\<close> is the reference, one pass over the key; the lemmas
  connect it with the index loops of the code. The interface \<open>block_hash\<close> states that blocks and
  tails permute the state, and its client lemmas are the collision results of all variants.
\<close>

section \<open>The reference\<close>

function absorb :: "('s \<Rightarrow> u8 list \<Rightarrow> 's) \<Rightarrow> ('s \<Rightarrow> u8 list \<Rightarrow> 's) \<Rightarrow> nat \<Rightarrow> 's \<Rightarrow> u8 list \<Rightarrow> 's" where
  "absorb mix rest w s key =
     (if w = 0 \<or> length key < w then rest s key
      else absorb mix rest w (mix s (take w key)) (drop w key))"
  by pat_completeness auto
termination
  by (relation "measure (\<lambda>(mix, rest, w, s, key). length key)") auto

declare absorb.simps [simp del]

lemma absorb_short: "length key < w \<Longrightarrow> absorb mix rest w s key = rest s key"
  by (simp add: absorb.simps [of mix rest w s key])

lemma absorb_block:
  assumes "0 < w" "length b = w"
  shows "absorb mix rest w s (b @ key) = absorb mix rest w (mix s b) key"
  using assms by (simp add: absorb.simps [of mix rest w s "b @ key"])

section \<open>Loops over blocks\<close>

definition chunks :: "nat \<Rightarrow> u8 list \<Rightarrow> nat \<Rightarrow> u8 list list" where
  "chunks w key n = map (\<lambda>j. take w (drop (w * j) key)) [0..<n]"

lemma chunks_0 [simp]: "chunks w key 0 = []"
  by (simp add: chunks_def)

lemma chunks_Suc: "chunks w key (Suc n) = take w key # chunks w (drop w key) n"
  by (simp add: chunks_def upt_conv_Cons map_Suc_upt [symmetric] add.commute del: upt_Suc)

lemma absorb_loop:
  assumes "0 < w"
  shows "rest (foldl mix s (chunks w key (length key div w))) (drop (length key div w * w) key) =
    absorb mix rest w s key"
  using assms
proof (induction mix rest w s key rule: absorb.induct)
  case (1 mix rest w s key)
  show ?case
  proof (cases "length key < w")
    case True
    then show ?thesis by (simp add: absorb_short)
  next
    case False
    then have d: "length key div w = Suc (length (drop w key) div w)"
      using "1.prems" by (simp add: le_div_geq)
    have "drop (Suc (length (drop w key) div w) * w) key = drop (length (drop w key) div w * w) (drop w key)"
      by (simp add: add.commute)
    then show ?thesis
      unfolding d chunks_Suc foldl_Cons using "1.IH" "1.prems" False
      by (simp add: absorb.simps [of mix rest w s key])
  qed
qed

lemma chunks_take: "chunks w (take len key) (len div w) = chunks w key (len div w)"
proof -
  have "take w (drop (w * j) (take len key)) = take w (drop (w * j) key)" if "j < len div w" for j
  proof -
    have "w * Suc j \<le> len" using that by (metis Suc_leI div_times_less_eq_dividend mult.commute mult_le_mono2 le_trans)
    then show ?thesis by (simp add: drop_take min_def)
  qed
  then show ?thesis by (simp add: chunks_def)
qed

text \<open>Two of the loops count a negative index up to zero over a pointer behind the last block.\<close>

lemma upto_negative: "[- int n..-1] = map (\<lambda>j. int j - int n) [0..<n]"
  by (rule nth_equalityI) simp_all

lemma foldl_negative:
  assumes "\<And>s j. j < n \<Longrightarrow> f s (int j - int n) = mix s (take w (drop (w * j) key))"
  shows "foldl f s [- int n..-1] = foldl mix s (chunks w key n)"
  unfolding upto_negative chunks_def foldl_map by (rule foldl_cong) (simp_all add: assms)

section \<open>Words of a tail\<close>

text \<open>The bytes of a tail sit at different places of the word, so OR and XOR agree.\<close>

lemma le_word_xor: "(le_word (b # bs) :: 'a::len word) = ucast b XOR push_bit 8 (le_word bs)"
  by (rule bit_word_eqI) (auto simp: bit_simps dest: bit_imp_le_length)

lemma push_bit_xor_word: "push_bit n (v XOR w :: 'a::len word) = push_bit n v XOR push_bit n w"
  by (rule bit_word_eqI) (auto simp: bit_simps)

text \<open>
  One case label of a switch that falls through from high labels to low ones: the statement of
  label \<open>c\<close> runs when the value \<open>n\<close> is at least \<open>c\<close>.
\<close>

definition fall :: "nat \<Rightarrow> nat \<Rightarrow> 'a::len word \<Rightarrow> 'a word \<Rightarrow> 'a word" where
  "fall n c v k = (if c \<le> n then k XOR v else k)"

lemma take_drop_nths:
  assumes "length bs = n" "\<And>i. i < n \<Longrightarrow> bs ! i = t i"
  shows "take m (drop j bs) = map (\<lambda>i. t (j + i)) [0..<min m (n - j)]"
  using assms by (intro nth_equalityI) (simp, auto)

lemma drop_nths:
  assumes "length bs = j + n"
  shows "drop j bs = map (\<lambda>i. bs ! (j + i)) [0..<n]"
  using assms by (intro nth_equalityI) simp_all

lemma fall_word4:
  fixes bs :: "u8 list"
  assumes "length bs = n" "\<And>i. i < n \<Longrightarrow> bs ! i = t i"
  shows "fall n (j + 1) (ucast (t j)) (fall n (j + 2) (push_bit 8 (ucast (t (j + 1))))
    (fall n (j + 3) (push_bit 16 (ucast (t (j + 2)))) (fall n (j + 4) (push_bit 24 (ucast (t (j + 3)))) 0))) =
    (le_word (take 4 (drop j bs)) :: 'a::len word)"
proof -
  have nths: "take m (drop j bs) = map (\<lambda>i. t (j + i)) [0..<min m (n - j)]" for m
    using assms by (rule take_drop_nths)
  consider "n - j = 0" | "n - j = 1" | "n - j = 2" | "n - j = 3" | "4 \<le> n - j" by linarith
  then show ?thesis
    unfolding nths fall_def
    by cases (auto simp: upt_rec le_word_xor push_bit_xor_word xor.commute xor.left_commute
        numeral_2_eq_2 numeral_3_eq_3 simp del: le_word.simps(2))
qed

lemma fall_word8:
  fixes bs :: "u8 list"
  assumes "length bs = n" "\<And>i. i < n \<Longrightarrow> bs ! i = t i"
  shows "fall n (j + 1) (ucast (t j)) (fall n (j + 2) (push_bit 8 (ucast (t (j + 1))))
    (fall n (j + 3) (push_bit 16 (ucast (t (j + 2)))) (fall n (j + 4) (push_bit 24 (ucast (t (j + 3))))
    (fall n (j + 5) (push_bit 32 (ucast (t (j + 4)))) (fall n (j + 6) (push_bit 40 (ucast (t (j + 5))))
    (fall n (j + 7) (push_bit 48 (ucast (t (j + 6)))) (fall n (j + 8) (push_bit 56 (ucast (t (j + 7)))) 0))))))) =
    (le_word (take 8 (drop j bs)) :: 'a::len word)"
proof -
  have nths: "take m (drop j bs) = map (\<lambda>i. t (j + i)) [0..<min m (n - j)]" for m
    using assms by (rule take_drop_nths)
  have e: "t (j + 4) = t (Suc (Suc (Suc (Suc j))))" "t (j + 5) = t (Suc (Suc (Suc (Suc (Suc j)))))"
    "t (j + 6) = t (Suc (Suc (Suc (Suc (Suc (Suc j))))))"
    "t (j + 7) = t (Suc (Suc (Suc (Suc (Suc (Suc (Suc j)))))))"
    by (simp_all add: eval_nat_numeral)
  consider "n - j = 0" | "n - j = 1" | "n - j = 2" | "n - j = 3" | "n - j = 4" | "n - j = 5" | "n - j = 6"
    | "n - j = 7" | "8 \<le> n - j" by linarith
  then show ?thesis
    unfolding nths fall_def
    by cases (auto simp: e upt_rec le_word_xor push_bit_xor_word xor.commute xor.left_commute
        numeral_2_eq_2 numeral_3_eq_3 simp del: le_word.simps(2))
qed

section \<open>Hashes whose blocks permute the state\<close>

locale block_hash =
  fixes mix :: "'s \<Rightarrow> u8 list \<Rightarrow> 's"
    and rest :: "'s \<Rightarrow> u8 list \<Rightarrow> 's"
    and w :: nat
  assumes w_pos: "0 < w"
    and mix_state: "length b = w \<Longrightarrow> mix s b = mix s' b \<Longrightarrow> s = s'"
    and mix_block: "length b = w \<Longrightarrow> length b' = w \<Longrightarrow> mix s b = mix s b' \<Longrightarrow> b = b'"
    and rest_state: "length b < w \<Longrightarrow> rest s b = rest s' b \<Longrightarrow> s = s'"
    and rest_block: "length b < w \<Longrightarrow> length b' = length b \<Longrightarrow> rest s b = rest s b' \<Longrightarrow> b = b'"
begin

lemma absorb_state: "absorb mix rest w s key = absorb mix rest w s' key \<Longrightarrow> s = s'"
proof (induction key arbitrary: s s' rule: length_induct)
  case (1 key)
  show ?case
  proof (cases "length key < w")
    case True
    with 1 show ?thesis by (auto simp: absorb_short intro: rest_state)
  next
    case False
    with w_pos have "length (drop w key) < length key" "length (take w key) = w" by auto
    with 1 False w_pos show ?thesis
      by (metis absorb.simps mix_state not_gr_zero)
  qed
qed

lemma absorb_first:
  assumes "length a = length b" "length a = w \<or> length a < w \<and> post = []" "a \<noteq> b"
  shows "absorb mix rest w s (a @ post) \<noteq> absorb mix rest w s (b @ post)"
proof (cases "length a = w")
  case True
  with assms have "mix s a \<noteq> mix s b" using mix_block by metis
  with True assms(2) w_pos absorb_state [of "mix s a" post "mix s b"] assms(1) show ?thesis
    by (auto simp: absorb_block)
next
  case False
  with assms(2) have short: "length a < w" "length b < w" "post = []" using assms(1) by auto
  moreover have "rest s a \<noteq> rest s b" using rest_block [OF short(1) assms(1) [symmetric]] assms(3) by metis
  ultimately show ?thesis by (simp add: absorb_short)
qed

lemma collision_free:
  assumes "w dvd length pre" "length a = length b" "length a = w \<or> length a < w \<and> post = []" "a \<noteq> b"
  shows "absorb mix rest w s (pre @ a @ post) \<noteq> absorb mix rest w s (pre @ b @ post)"
  using assms(1)
proof (induction pre arbitrary: s rule: length_induct)
  case (1 pre)
  show ?case
  proof (cases "pre = []")
    case True
    with absorb_first [OF assms(2-4)] show ?thesis by simp
  next
    case False
    with "1.prems" w_pos have len: "w \<le> length pre" by (simp add: dvd_imp_le)
    then have t: "length (take w pre) = w" "length (drop w pre) < length pre" "w dvd length (drop w pre)"
      using "1.prems" w_pos by (auto simp: dvd_minus_self)
    have "absorb mix rest w s (pre @ xs) = absorb mix rest w (mix s (take w pre)) (drop w pre @ xs)" for xs
      using absorb_block [OF w_pos t(1), of mix rest s "drop w pre @ xs"]
      by (simp add: append_assoc [symmetric] del: append_assoc)
    with "1.IH" t show ?thesis by simp
  qed
qed

end

end
