(* ===== verification/Murmur.thy ===== *)
theory Murmur
  imports BlockHash
begin

text \<open>
  MurmurHash3.cpp, the hash of the phone number: the helpers, the finalization mix and
  MurmurHash3\_x86\_32, with the block loop and the fall-through switch of the code. The hash
  interprets the interface \<open>block_hash\<close>. The two 128-bit variants are in Murmur128.
\<close>

section \<open>Helpers\<close>

definition rotl32 :: "u32 \<Rightarrow> nat \<Rightarrow> u32" where
  "rotl32 x r = push_bit r x OR drop_bit (32 - r) x"

definition rotl64 :: "u64 \<Rightarrow> nat \<Rightarrow> u64" where
  "rotl64 x r = push_bit r x OR drop_bit (64 - r) x"

text \<open>
  \<open>p[i]\<close> for a word pointer \<open>p\<close> into a byte array, \<open>base\<close> bytes after its start; the index may
  be negative.
\<close>

definition getblock32 :: "u8 list \<Rightarrow> nat \<Rightarrow> int \<Rightarrow> u32" where
  "getblock32 data base i = le_word (take 4 (drop (nat (int base + 4 * i)) data))"

definition getblock64 :: "u8 list \<Rightarrow> nat \<Rightarrow> int \<Rightarrow> u64" where
  "getblock64 data base i = le_word (take 8 (drop (nat (int base + 8 * i)) data))"

definition fmix32 :: "u32 \<Rightarrow> u32" where
  "fmix32 h =
     (let h = h XOR drop_bit 16 h;
          h = h * 0x85ebca6b;
          h = h XOR drop_bit 13 h;
          h = h * 0xc2b2ae35;
          h = h XOR drop_bit 16 h
      in h)"

definition fmix64 :: "u64 \<Rightarrow> u64" where
  "fmix64 k =
     (let k = k XOR drop_bit 33 k;
          k = k * 0xff51afd7ed558ccd;
          k = k XOR drop_bit 33 k;
          k = k * 0xc4ceb9fe1a85ec53;
          k = k XOR drop_bit 33 k
      in k)"

section \<open>The 32-bit hash\<close>

definition scramble32 :: "u32 \<Rightarrow> u32" where
  "scramble32 k1 =
     (let k1 = k1 * 0xcc9e2d51;
          k1 = rotl32 k1 15
      in k1 * 0x1b873593)"

definition body32 :: "u32 \<Rightarrow> u32 \<Rightarrow> u32" where
  "body32 h1 k1 =
     (let h1 = h1 XOR scramble32 k1;
          h1 = rotl32 h1 13
      in h1 * 5 + 0xe6546b64)"

text \<open>The switch on \<open>len & 3\<close>: case 3 falls through to case 2, and case 2 to case 1.\<close>

definition tail32 :: "u8 list \<Rightarrow> nat \<Rightarrow> nat \<Rightarrow> u32 \<Rightarrow> u32" where
  "tail32 data base len h1 =
     (let tail = (\<lambda>j. ucast (data ! (base + j)) :: u32);
          n = len mod 4;
          k1 = 0;
          k1 = (if 3 \<le> n then k1 XOR push_bit 16 (tail 2) else k1);
          k1 = (if 2 \<le> n then k1 XOR push_bit 8 (tail 1) else k1)
      in if 1 \<le> n then h1 XOR scramble32 (k1 XOR tail 0) else h1)"

definition MurmurHash3_x86_32 :: "u8 list \<Rightarrow> nat \<Rightarrow> u32 \<Rightarrow> u32" where
  "MurmurHash3_x86_32 key len seed =
     (let nblocks = len div 4;
          h1 = foldl (\<lambda>h1 i. body32 h1 (getblock32 key (nblocks * 4) i)) seed [- int nblocks..-1];
          h1 = tail32 key (nblocks * 4) len h1;
          h1 = h1 XOR of_nat len
      in fmix32 h1)"

lemma murmur_test_vectors:
  "MurmurHash3_x86_32 [] 0 0 = 0" "MurmurHash3_x86_32 [] 0 1 = 0x514E28B7"
  "MurmurHash3_x86_32 [0x74, 0x65, 0x73, 0x74] 4 0 = 0xba6bd213"
  "MurmurHash3_x86_32 [0x21, 0x43, 0x65] 3 0 = 0x7E4A8634"
  by code_simp+

section \<open>Permutations of words\<close>

lemma shift_xor_inject:
  fixes x y :: "'a::len word"
  assumes "0 < s" "x XOR drop_bit s x = y XOR drop_bit s y"
  shows "x = y"
proof (rule bit_word_eqI)
  have eq: "bit x k = bit x (k + s) \<longleftrightarrow> bit y k = bit y (k + s)" for k
    using arg_cong [OF assms(2), of "\<lambda>w. bit w k"] by (auto simp: bit_simps add.commute)
  fix k :: nat
  show "bit x k \<longleftrightarrow> bit y k"
  proof (induction "LENGTH('a) - k" arbitrary: k rule: less_induct)
    case less
    show ?case
    proof (cases "k < LENGTH('a)")
      case True
      with assms(1) have "bit x (k + s) \<longleftrightarrow> bit y (k + s)" by (intro less.hyps) simp
      with eq [of k] show ?thesis by blast
    qed (auto dest: bit_imp_le_length)
  qed
qed

lemma mult_unit_inject:
  fixes x y c d :: "'a::len word"
  assumes "c * d = 1"
  shows "x * c = y * c \<longleftrightarrow> x = y"
  using assms by (metis mult.assoc mult_1_right)

lemma xor_word_inject [simp]:
  fixes x y z :: "'a::len word"
  shows "x XOR z = y XOR z \<longleftrightarrow> x = y" "z XOR x = z XOR y \<longleftrightarrow> x = y"
  by (metis xor.assoc xor.right_neutral xor_self_eq, metis xor.assoc xor.left_neutral xor_self_eq)

lemma rotl32_inject:
  assumes "0 < r" "r < 32"
  shows "rotl32 x r = rotl32 y r \<longleftrightarrow> x = y"
proof
  assume eq: "rotl32 x r = rotl32 y r"
  show "x = y"
  proof (rule bit_word_eqI)
    fix k :: nat assume k: "k < LENGTH(32)"
    let ?j = "if k + r < 32 then k + r else k + r - 32"
    have "bit (rotl32 w r) ?j \<longleftrightarrow> bit w k" for w
      using k assms by (auto simp: rotl32_def bit_simps dest: bit_imp_le_length)
    with eq show "bit x k \<longleftrightarrow> bit y k" by metis
  qed
qed simp

lemma fmix32_inject: "fmix32 x = fmix32 y \<longleftrightarrow> x = y"
proof -
  have u: "(0x85ebca6b :: u32) * 0xa5cb9243 = 1" "(0xc2b2ae35 :: u32) * 0x7ed1b41d = 1" by simp_all
  show ?thesis
    by (auto simp: fmix32_def Let_def mult_unit_inject [OF u(1)] mult_unit_inject [OF u(2)]
        dest!: shift_xor_inject [rotated])
qed

lemma scramble32_inject: "scramble32 x = scramble32 y \<longleftrightarrow> x = y"
proof -
  have u: "(0xcc9e2d51 :: u32) * 0xdee13bb1 = 1" "(0x1b873593 :: u32) * 0x56ed309b = 1" by simp_all
  show ?thesis
    by (simp add: scramble32_def Let_def mult_unit_inject [OF u(1)] mult_unit_inject [OF u(2)] rotl32_inject)
qed

lemma body32_inject: "body32 h k = body32 h' k' \<longleftrightarrow> h XOR scramble32 k = h' XOR scramble32 k'"
proof -
  have u: "(5 :: u32) * 0xcccccccd = 1" by simp
  show ?thesis
    by (simp add: body32_def Let_def mult_unit_inject [OF u] rotl32_inject)
qed

section \<open>Absorbing blocks\<close>

definition mix32 :: "u32 \<Rightarrow> u8 list \<Rightarrow> u32" where
  "mix32 h b = body32 h (le_word b)"

definition rest32 :: "u32 \<Rightarrow> u8 list \<Rightarrow> u32" where
  "rest32 h b = h XOR scramble32 (le_word b)"

interpretation m32: block_hash mix32 rest32 4
proof unfold_locales
  fix b b' :: "u8 list" and s
  have inj: "b = b'" if "(le_word b :: u32) = le_word b'" "length b = length b'" "length b \<le> 4"
    using le_word_inject [of b b', where ?'a = 32] that by simp
  show "b = b'" if "length b = 4" "length b' = 4" "mix32 s b = mix32 s b'"
    by (rule inj) (use that in \<open>simp_all add: mix32_def body32_inject scramble32_inject\<close>)
  show "b = b'" if "length b < 4" "length b' = length b" "rest32 s b = rest32 s b'"
    by (rule inj) (use that in \<open>simp_all add: rest32_def scramble32_inject\<close>)
qed (simp_all add: mix32_def rest32_def body32_inject)

text \<open>The same reference written as one pattern match, with no index and no switch.\<close>

fun absorb32 :: "u32 \<Rightarrow> u8 list \<Rightarrow> u32" where
  "absorb32 h (a # b # c # d # rest) = absorb32 (body32 h (le_word [a, b, c, d])) rest"
| "absorb32 h [] = h"
| "absorb32 h tail = h XOR scramble32 (le_word tail)"

lemma scramble32_0 [simp]: "scramble32 0 = 0"
  by (simp add: scramble32_def rotl32_def)

lemma absorb32_absorb: "absorb mix32 rest32 4 h key = absorb32 h key"
proof (induction h key rule: absorb32.induct)
  case (1 h a b c d rest)
  have "absorb mix32 rest32 4 h (a # b # c # d # rest) = absorb mix32 rest32 4 (mix32 h [a, b, c, d]) rest"
    using absorb_block [of 4 "[a, b, c, d]" mix32 rest32 h rest] by simp
  with 1 show ?case by (simp only: mix32_def [of h "[a, b, c, d]"] absorb32.simps(1))
qed (simp_all add: absorb_short rest32_def)

lemma loop32:
  "foldl (\<lambda>h1 i. body32 h1 (getblock32 key (n * 4) i)) h [- int n..-1] = foldl mix32 h (chunks 4 key n)"
  by (rule foldl_negative) (simp add: mix32_def getblock32_def nat_mult_distrib algebra_simps)

lemma tail32_rest:
  assumes "length data = base + len mod 4"
  shows "tail32 data base len h = rest32 h (drop base data)"
proof -
  have "len mod 4 < 4" by simp
  then consider "len mod 4 = 0" | "len mod 4 = 1" | "len mod 4 = 2" | "len mod 4 = 3" by linarith
  then show ?thesis
    unfolding drop_nths [OF assms] tail32_def rest32_def Let_def
    by cases (simp_all add: upt_rec le_word_xor push_bit_xor_word xor.commute xor.left_commute
        del: le_word.simps(2))
qed

lemma tail32_take: "tail32 (take len key) (len div 4 * 4) len h = tail32 key (len div 4 * 4) len h"
proof -
  have t: "take len key ! (len div 4 * 4 + j) = key ! (len div 4 * 4 + j)" if "j < len mod 4" for j
    using that mult_div_mod_eq [of 4 len] by (intro nth_take) linarith
  show ?thesis
    using t [of 0] t [of 1] t [of 2] by (auto simp: tail32_def Let_def)
qed

lemma murmur32_absorb:
  assumes "len \<le> length key"
  shows "MurmurHash3_x86_32 key len seed = fmix32 (absorb mix32 rest32 4 seed (take len key) XOR of_nat len)"
proof -
  have "length (take len key) = len div 4 * 4 + len mod 4" using assms by simp
  from tail32_rest [OF this] show ?thesis
    using absorb_loop [of 4 rest32 mix32 seed "take len key"] assms
    by (simp add: MurmurHash3_x86_32_def Let_def loop32 tail32_take chunks_take)
qed

section \<open>Properties\<close>

text \<open>
  MurmurHash3\_x86\_32 reads the first \<open>len\<close> bytes of the key and nothing behind
  them, and computes the finalization mix of the one-pass reference hash of these bytes, for
  every length, seed and alignment of the tail.
\<close>

theorem murmur32_reference:
  assumes "len \<le> length key"
  shows "MurmurHash3_x86_32 key len seed = fmix32 (absorb32 seed (take len key) XOR of_nat len)"
  using murmur32_absorb [OF assms] by (simp add: absorb32_absorb)

theorem murmur32_reference_witness:
  "MurmurHash3_x86_32 [0x21, 0x43, 0x65, 0x87, 0xFF] 3 112 =
     fmix32 (absorb32 112 [0x21, 0x43, 0x65] XOR 3)"
  using murmur32_reference [of 3 "[0x21, 0x43, 0x65, 0x87, 0xFF]" 112]
  by (simp add: eval_nat_numeral)

text \<open>
  Two different keys of the same length that differ inside one aligned four-byte
  block, or in the tail behind the last block, never get the same hash, whatever the seed. Phone
  numbers that agree up to one such block are told apart with certainty.
\<close>

theorem murmur32_block_collision_free:
  assumes "4 dvd length pre" "length a = length b" "length a = 4 \<or> length a < 4 \<and> post = []" "a \<noteq> b"
  shows "MurmurHash3_x86_32 (pre @ a @ post) (length (pre @ a @ post)) seed \<noteq>
    MurmurHash3_x86_32 (pre @ b @ post) (length (pre @ b @ post)) seed"
  using m32.collision_free [OF assms, of seed]
  by (simp add: murmur32_absorb fmix32_inject assms(2))

text \<open>The digits of +40712345678 and +40712345679: two blocks in common.\<close>

theorem murmur32_block_collision_free_witness:
  "MurmurHash3_x86_32 [43, 52, 48, 55, 49, 50, 51, 52, 53, 54, 55, 56] 12 112 \<noteq>
     MurmurHash3_x86_32 [43, 52, 48, 55, 49, 50, 51, 52, 53, 54, 55, 57] 12 112"
proof -
  have "4 dvd length [43, 52, 48, 55, 49, 50, 51, 52 :: u8]" by code_simp
  from murmur32_block_collision_free [OF this, of "[53, 54, 55, 56]" "[53, 54, 55, 57]" "[]" 112]
  show ?thesis by (simp add: eval_nat_numeral)
qed

end
