(* ===== verification/SimVictim.thy ===== *)
theory SimVictim
  imports Signing Murmur "HOL-Library.Signed_Division"
begin

text \<open>
  The victim of the UDP simulator, victim.cpp: the packet it assembles from its arguments, in
  network byte order, and the thirty broadcasts of it. The arguments are C strings; the time and
  HMAC are inputs, and so is \<open>coord\<close>, the value of the double expression
  (int32\_t)(atof(s) * GPS\_PRECISION) for an argument.
\<close>

section \<open>Model\<close>

definition strcmp_eq :: "u8 list \<Rightarrow> u8 list \<Rightarrow> bool" where
  "strcmp_eq a b \<longleftrightarrow> take (strlen a) a = take (strlen b) b"

definition SIM_TTL :: u8 where
  "SIM_TTL = 20"

definition BRD_LIFETIME :: u8 where
  "BRD_LIFETIME = 30"

definition BRD_DELAY :: nat where
  "BRD_DELAY = 5"

definition INADDR_BROADCAST :: u32 where
  "INADDR_BROADCAST = 0xFFFFFFFF"

record arguments =
  argv1 :: "u8 list"
  argv2 :: "u8 list"
  argv3 :: "u8 list"
  argv4 :: "u8 list"

definition sim_fields :: "(u8 list \<Rightarrow> u32) \<Rightarrow> arguments \<Rightarrow> u64 \<Rightarrow> int \<Rightarrow> emergencyPacket" where
  "sim_fields coord a nonce now =
     (let p = zero_packet;
          p = p\<lparr>phone := MurmurHash3_x86_32 (argv1 a) (strlen (argv1 a)) MURMUR_SEED\<rparr>;
          p = p\<lparr>timestamp := of_int (now sdiv 60)\<rparr>
      in if strcmp_eq (argv2 a) (c_string ''1'')
         then (let p = p\<lparr>payload := set_latitude (coord (argv3 a)) (payload p)\<rparr>;
                   p = p\<lparr>payload := set_longitude (coord (argv4 a)) (payload p)\<rparr>
               in p\<lparr>flags := flags p OR push_bit 7 1\<rparr>)
         else p\<lparr>payload := nonce\<rparr>)"

definition sim_network_order :: "arguments \<Rightarrow> emergencyPacket \<Rightarrow> emergencyPacket" where
  "sim_network_order a p =
     (let p = p\<lparr>phone := htonl (phone p)\<rparr>;
          p = p\<lparr>timestamp := htonl (timestamp p)\<rparr>
      in if strcmp_eq (argv2 a) (c_string ''0'')
         then p\<lparr>payload := htobe64 (payload p)\<rparr>
         else (let p = p\<lparr>payload := set_latitude (htonl (gps_latitude (payload p))) (payload p)\<rparr>
               in p\<lparr>payload := set_longitude (htonl (gps_longitude (payload p))) (payload p)\<rparr>))"

definition sim_victim_packet :: "hmac_fun \<Rightarrow> (u8 list \<Rightarrow> u32) \<Rightarrow> arguments \<Rightarrow> int \<Rightarrow> emergencyPacket" where
  "sim_victim_packet mac coord a now =
     (let p = sim_network_order a (sim_fields coord a 0 now);
          hash = mac SECRET_KEY (packet_bytes p);
          p = p\<lparr>hmac_sig := memcpy (hmac_sig p) hash 8\<rparr>
      in p\<lparr>flags := flags p OR SIM_TTL\<rparr>)"

datatype sim_event =
    Broadcast u32 u16 "u8 list"
  | Sleep nat

text \<open>The send loop, counted in a uint8\_t.\<close>

function broadcast_from :: "u8 list \<Rightarrow> u8 \<Rightarrow> sim_event list" where
  "broadcast_from bs brdSecond =
     (if brdSecond < BRD_LIFETIME
      then Broadcast INADDR_BROADCAST 4950 bs # Sleep BRD_DELAY # broadcast_from bs (brdSecond + 1)
      else [])"
  by pat_completeness auto
termination
proof (relation "measure (\<lambda>(bs, b). 30 - unat b)")
  fix bs :: "u8 list" and b :: u8 assume "b < BRD_LIFETIME"
  then have b: "unat b < 30" by (simp add: BRD_LIFETIME_def word_less_nat_alt)
  then have "unat (b + 1) = unat b + 1" by (simp add: unat_word_ariths)
  with b show "((bs, b + 1), bs, b) \<in> measure (\<lambda>(bs, b). 30 - unat b)" by simp
qed simp

declare broadcast_from.simps [simp del]

definition sim_victim_main :: "hmac_fun \<Rightarrow> (u8 list \<Rightarrow> u32) \<Rightarrow> arguments \<Rightarrow> int \<Rightarrow> sim_event list" where
  "sim_victim_main mac coord a now = broadcast_from (packet_bytes (sim_victim_packet mac coord a now)) 0"

section \<open>The packet\<close>

lemma wf_sim_fields [simp]: "wf_packet (sim_fields coord a n t)"
  by (simp add: sim_fields_def Let_def)

lemma wf_network_order [simp]: "wf_packet (sim_network_order a p) = wf_packet p"
  by (simp add: sim_network_order_def Let_def)

lemma sim_network_order_fields [simp]:
  "flags (sim_network_order a p) = flags p" "hmac_sig (sim_network_order a p) = hmac_sig p"
  "phone (sim_network_order a p) = htonl (phone p)" "timestamp (sim_network_order a p) = htonl (timestamp p)"
  by (simp_all add: sim_network_order_def Let_def)

lemma sim_fields_flags: "flags (sim_fields coord a n t) = (if strcmp_eq (argv2 a) (c_string ''1'') then 0x80 else 0)"
  by (simp add: sim_fields_def Let_def zero_packet_def)

lemma sim_fields_sig: "hmac_sig (sim_fields coord a n t) = replicate 8 0"
  by (simp add: sim_fields_def Let_def zero_packet_def SIG_LEN_def)

text \<open>The packet before it is signed, and what signing adds.\<close>

definition sim_unsigned :: "(u8 list \<Rightarrow> u32) \<Rightarrow> arguments \<Rightarrow> int \<Rightarrow> emergencyPacket" where
  "sim_unsigned coord a t = sim_network_order a (sim_fields coord a 0 t)"

lemma sim_victim_signed:
  assumes "digest_ok mac"
  shows "sim_victim_packet mac coord a t = (sim_unsigned coord a t)
    \<lparr>hmac_sig := take 8 (mac SECRET_KEY (packet_bytes (sim_unsigned coord a t))),
     flags := flags (sim_unsigned coord a t) OR 20\<rparr>"
  using assms
  by (simp add: sim_victim_packet_def sim_unsigned_def Let_def memcpy_def sim_fields_sig SIM_TTL_def)

lemma sim_unsigned_flags: "flags (sim_unsigned coord a t) = (if strcmp_eq (argv2 a) (c_string ''1'') then 0x80 else 0)"
  by (simp add: sim_unsigned_def sim_fields_flags)

lemma sim_victim_wf:
  assumes "digest_ok mac"
  shows "wf_packet (sim_victim_packet mac coord a t)" "packet_ttl (sim_victim_packet mac coord a t) = 20"
  using assms
  by (simp_all add: sim_victim_signed wf_packet_def SIG_LEN_def packet_ttl_def sim_unsigned_flags ttl_of_mask)

lemma sim_victim_core:
  assumes "digest_ok mac"
  shows "packet_core (sim_victim_packet mac coord a t) = (sim_unsigned coord a t)
    \<lparr>hmac_sig := take 8 (mac SECRET_KEY (packet_bytes (sim_unsigned coord a t)))\<rparr>"
  using assms by (simp add: sim_victim_signed packet_core_def flag_core_def sim_unsigned_flags)

lemma broadcast_from_count:
  assumes "unat b \<le> 30"
  shows "broadcast_from bs b = concat (replicate (30 - unat b) [Broadcast INADDR_BROADCAST 4950 bs, Sleep BRD_DELAY])"
  using assms
proof (induction bs b rule: broadcast_from.induct)
  case (1 bs b)
  show ?case
  proof (cases "unat b < 30")
    case True
    then have s: "unat (b + 1) = unat b + 1" by (simp add: unat_word_ariths)
    from True have "b < BRD_LIFETIME" by (simp add: BRD_LIFETIME_def word_less_nat_alt)
    moreover from True have "30 - unat b = Suc (30 - unat (b + 1))" by (simp add: s)
    ultimately show ?thesis
      using "1.IH" True by (simp add: broadcast_from.simps [of bs b] s)
  next
    case False
    with 1 show ?thesis
      by (simp add: broadcast_from.simps [of bs b] BRD_LIFETIME_def word_less_nat_alt)
  qed
qed

section \<open>Properties\<close>

text \<open>
  Property C38. The simulated victim signs all 25 bytes, the zeros of the empty signature field
  included. A receiver that checks the first 17 bytes, as the scanners do, accepts the packet
  exactly if the two digests happen to agree in their first eight bytes.
\<close>

theorem sim_victim_signature:
  assumes "digest_ok mac"
  shows "hmac_sig (sim_victim_packet mac coord a t) =
      take 8 (mac SECRET_KEY (signed_body (sim_victim_packet mac coord a t) @ replicate 8 0)) \<and>
    (verify_hmac mac (packet_bytes (sim_victim_packet mac coord a t)) \<longleftrightarrow>
      take 8 (mac SECRET_KEY (signed_body (sim_victim_packet mac coord a t) @ replicate 8 0)) =
      take 8 (mac SECRET_KEY (signed_body (sim_victim_packet mac coord a t))))"
proof -
  have b: "packet_bytes (sim_unsigned coord a t) = signed_body (sim_victim_packet mac coord a t) @ replicate 8 0"
    by (simp add: signed_body_def sim_victim_core assms packet_bytes_def)
      (simp add: sim_unsigned_def sim_fields_sig)
  have "hmac_sig (sim_victim_packet mac coord a t) = take 8 (mac SECRET_KEY (packet_bytes (sim_unsigned coord a t)))"
    by (simp add: sim_victim_signed assms)
  then show ?thesis
    by (simp only: b verify_packet [OF sim_victim_wf(1) [OF assms]])
qed

definition sample_arguments :: arguments where
  "sample_arguments = \<lparr>argv1 = c_string ''+40712345678'', argv2 = c_string ''1'',
     argv3 = c_string ''44.4378'', argv4 = c_string ''26.0472''\<rparr>"

lemma length_signed_body: "wf_packet p \<Longrightarrow> length (signed_body p) = 17"
  by (simp add: signed_body_def packet_bytes_def)

theorem sim_victim_signature_witness:
  "\<not> verify_hmac (\<lambda>k m. of_nat (length m) # replicate 31 0)
     (packet_bytes (sim_victim_packet (\<lambda>k m. of_nat (length m) # replicate 31 0) (\<lambda>_. 5) sample_arguments 125))"
proof -
  let ?mac = "\<lambda>k m. of_nat (length m) # replicate 31 0 :: u8 list"
  have ok: "digest_ok ?mac" by (simp add: digest_ok_def)
  from sim_victim_signature [OF this, of "\<lambda>_. 5" sample_arguments 125] show ?thesis
    by (simp add: length_signed_body sim_victim_wf(1) [OF ok])
qed

text \<open>
  The victim sends its packet thirty times, the same 25 bytes each time, with a
  pause of five seconds after each, and stops.
\<close>

theorem sim_victim_broadcasts:
  "sim_victim_main mac coord a t = concat (replicate 30
     [Broadcast INADDR_BROADCAST 4950 (packet_bytes (sim_victim_packet mac coord a t)), Sleep 5])"
  by (simp add: sim_victim_main_def broadcast_from_count BRD_DELAY_def)

end
