(* ===== verification/SimNet.thy ===== *)
theory SimNet
  imports Mesh SimExit SimVictim
begin

text \<open>
  A whole simulation: one victim running victim.cpp, relay nodes running node.cpp and exit nodes
  running exit.cpp. The topology (who hears whom) is a parameter, as it is generated outside the
  program; datagrams arrive in any order and may be lost. The theorems say that an exit node
  delivers the victim's packet at most once, that without losses every exit node next to a
  connected relay delivers it, and how many steps a simulation takes at most.
\<close>

section \<open>Model\<close>

record net_topology =
  relay_topology :: topology
  exit_members :: "u32 \<Rightarrow> nat list"
  victim_relays :: "nat list"
  victim_exits :: "nat list"

record network =
  victim_part :: "sim_event list"
  relay_part :: mesh
  exit_part :: "nat \<Rightarrow> exit_state"
  exit_flight :: "(nat \<times> u8 list) multiset"
  exit_log :: "nat \<Rightarrow> (emergencyPacket \<times> exit_event list) list"

text \<open>The exit nodes as the members of the relays' networks.\<close>

definition exit_view :: "net_topology \<Rightarrow> topology" where
  "exit_view T = (relay_topology T)\<lparr>members := exit_members T\<rparr>"

definition victim_act :: "net_topology \<Rightarrow> network \<Rightarrow> network" where
  "victim_act T M =
     (case victim_part M of
        [] \<Rightarrow> M
      | Sleep n # evs \<Rightarrow> M\<lparr>victim_part := evs\<rparr>
      | Broadcast sa port bs # evs \<Rightarrow>
          M\<lparr>victim_part := evs,
            relay_part := (relay_part M)\<lparr>in_flight := in_flight (relay_part M) + mset (map (\<lambda>j. (j, bs)) (victim_relays T))\<rparr>,
            exit_flight := exit_flight M + mset (map (\<lambda>e. (e, bs)) (victim_exits T))\<rparr>)"

definition relay_get :: "net_topology \<Rightarrow> network \<Rightarrow> nat \<Rightarrow> u8 list \<Rightarrow> network" where
  "relay_get T M i bs =
     (let evs = snd (node_step (Some (node_ifs (relay_topology T) i)) (mesh_nodes (relay_part M) i) (Some bs))
      in M\<lparr>relay_part := mesh_deliver (relay_topology T) (relay_part M) i bs,
           exit_flight := exit_flight M + deliveries (exit_view T) evs\<rparr>)"

definition exit_get :: "network \<Rightarrow> nat \<Rightarrow> u8 list \<Rightarrow> network" where
  "exit_get M e bs =
     (let (x, evs) = exit_step (exit_part M e) (Some bs)
      in M\<lparr>exit_part := (exit_part M)(e := x),
           exit_flight := exit_flight M - {#(e, bs)#},
           exit_log := (exit_log M)(e := exit_log M e @ [(exit_packet x, evs)])\<rparr>)"

datatype net_action =
    VictimActs
  | RelayGets nat "u8 list"
  | ExitGets nat "u8 list"
  | RelayMisses nat "u8 list"
  | ExitMisses nat "u8 list"

inductive net_step :: "net_topology \<Rightarrow> network \<Rightarrow> net_action \<Rightarrow> network \<Rightarrow> bool" for T where
  victim: "victim_part M \<noteq> [] \<Longrightarrow> net_step T M VictimActs (victim_act T M)"
| relay: "(i, bs) \<in># in_flight (relay_part M) \<Longrightarrow> net_step T M (RelayGets i bs) (relay_get T M i bs)"
| exit: "(e, bs) \<in># exit_flight M \<Longrightarrow> net_step T M (ExitGets e bs) (exit_get M e bs)"
| relay_miss: "(i, bs) \<in># in_flight (relay_part M) \<Longrightarrow> net_step T M (RelayMisses i bs)
     (M\<lparr>relay_part := (relay_part M)\<lparr>in_flight := in_flight (relay_part M) - {#(i, bs)#}\<rparr>\<rparr>)"
| exit_miss: "(e, bs) \<in># exit_flight M \<Longrightarrow> net_step T M (ExitMisses e bs)
     (M\<lparr>exit_flight := exit_flight M - {#(e, bs)#}\<rparr>)"

inductive net_run :: "net_topology \<Rightarrow> network \<Rightarrow> net_action list \<Rightarrow> network \<Rightarrow> bool" for T where
  net_Nil: "net_run T M [] M"
| net_snoc: "net_run T M as M1 \<Longrightarrow> net_step T M1 a M2 \<Longrightarrow> net_run T M (as @ [a]) M2"

definition net_lossless :: "net_action list \<Rightarrow> bool" where
  "net_lossless as \<longleftrightarrow> (\<forall>a \<in> set as. \<forall>i bs. a \<noteq> RelayMisses i bs \<and> a \<noteq> ExitMisses i bs)"

definition net_silent :: "network \<Rightarrow> bool" where
  "net_silent M \<longleftrightarrow> victim_part M = [] \<and> in_flight (relay_part M) = {#} \<and> exit_flight M = {#}"

text \<open>
  The start: the victim before its first broadcast, nothing on the way, and no node that has seen
  the packet.
\<close>

definition net_start :: "net_topology \<Rightarrow> nat set \<Rightarrow> emergencyPacket \<Rightarrow> network \<Rightarrow> bool" where
  "net_start T N p M \<longleftrightarrow>
     (\<forall>sa port bs. Broadcast sa port bs \<in> set (victim_part M) \<longrightarrow> bs = packet_bytes p) \<and>
     mesh_inv (relay_part M) \<and> in_flight (relay_part M) = {#} \<and> exit_flight M = {#} \<and>
     (\<forall>i \<in> N. \<not> holds (hmac_sig p) (relay_part M) i) \<and>
     (\<forall>e. exit_inv (exit_part M e) \<and> hmac_sig p \<notin> set (buff (exit_cache (exit_part M e))) \<and> exit_log M e = [])"

definition net_within :: "net_topology \<Rightarrow> nat set \<Rightarrow> bool" where
  "net_within T N \<longleftrightarrow> topology_within (relay_topology T) N \<and> set (victim_relays T) \<subseteq> N"

section \<open>What a relay passes to the exit nodes\<close>

lemma relay_get_simps [simp]:
  "victim_part (relay_get T M i bs) = victim_part M" "exit_part (relay_get T M i bs) = exit_part M"
  "relay_part (relay_get T M i bs) = mesh_deliver (relay_topology T) (relay_part M) i bs"
  "exit_log (relay_get T M i bs) = exit_log M"
  by (simp_all add: relay_get_def Let_def)

lemma flood_inv_any: "flood_inv T N p M \<longleftrightarrow> flood_inv T' N p M"
  by (simp add: flood_inv_def)

text \<open>The counterpart of \<open>flood_deliver\<close> for the datagrams to exit nodes.\<close>

lemma relay_get_exits:
  assumes "flood_inv (relay_topology T) N p (relay_part M)" "(i, bs) \<in># in_flight (relay_part M)"
  obtains (Known) "holds (hmac_sig p) (relay_part M) i"
      "\<And>j. holds (hmac_sig p) (relay_part (relay_get T M i bs)) j \<longleftrightarrow> holds (hmac_sig p) (relay_part M) j"
      "exit_flight (relay_get T M i bs) = exit_flight M"
  | (Joins) q where "\<not> holds (hmac_sig p) (relay_part M) i" "i \<in> N" "bs = packet_bytes q" "wf_packet q"
      "packet_core q = packet_core p"
      "packet_ttl p \<le> packet_ttl q + card {j \<in> N. holds (hmac_sig p) (relay_part M) j}"
      "\<And>j. holds (hmac_sig p) (relay_part (relay_get T M i bs)) j \<longleftrightarrow> holds (hmac_sig p) (relay_part M) j \<or> j = i"
      "exit_flight (relay_get T M i bs) = exit_flight M +
         (case hop_packet q of None \<Rightarrow> {#} | Some q' \<Rightarrow> mset (map (\<lambda>j. (j, packet_bytes q')) (neighbours (exit_view T) i)))"
proof -
  let ?X = "exit_view T" and ?R = "relay_part M"
  have ifs: "node_ifs ?X = node_ifs (relay_topology T)" by (simp add: exit_view_def)
  have h: "holds v (mesh_deliver ?X ?R i bs) j \<longleftrightarrow> holds v (relay_part (relay_get T M i bs)) j" for v j
    by (simp add: holds_def mesh_deliver_nodes ifs)
  have fl: "exit_flight (relay_get T M i bs) = exit_flight M + E"
    if "in_flight (mesh_deliver ?X ?R i bs) = in_flight ?R - {#(i, bs)#} + E" for E
    using that by (simp add: relay_get_def Let_def mesh_deliver_flight ifs)
  from assms(1) have "flood_inv ?X N p ?R" by (rule iffD1 [OF flood_inv_any])
  from this assms(2) show thesis
  proof (cases rule: flood_deliver)
    case Known
    with fl [of "{#}"] h show thesis by (intro that(1)) simp_all
  next
    case (Joins q)
    show thesis by (rule that(2) [OF Joins(1-6) _ fl [OF Joins(8)]]) (use Joins(7) h in blast)
  qed
qed

section \<open>Invariant\<close>

text \<open>
  An exit node has either not seen the packet and not delivered it, or it has the signature in
  its table and its log has one delivery of the packet.
\<close>

definition exit_ok :: "emergencyPacket \<Rightarrow> exit_state \<Rightarrow> (emergencyPacket \<times> exit_event list) list \<Rightarrow> bool" where
  "exit_ok p x log \<longleftrightarrow> exit_inv x \<and>
     (if hmac_sig p \<in> set (buff (exit_cache x))
      then map fst (filter (delivers (hmac_sig p)) log) = [packet_core p]
      else filter (delivers (hmac_sig p)) log = [])"

definition copy_of :: "emergencyPacket \<Rightarrow> u8 list \<Rightarrow> bool" where
  "copy_of p bs \<longleftrightarrow> (\<exists>q. bs = packet_bytes q \<and> wf_packet q \<and> packet_core q = packet_core p)"

definition net_inv :: "net_topology \<Rightarrow> nat set \<Rightarrow> emergencyPacket \<Rightarrow> network \<Rightarrow> bool" where
  "net_inv T N p M \<longleftrightarrow> wf_packet p \<and> flood_inv (relay_topology T) N p (relay_part M) \<and>
     (\<forall>m. m \<in># exit_flight M \<longrightarrow> copy_of p (snd m)) \<and>
     (\<forall>e. exit_ok p (exit_part M e) (exit_log M e)) \<and>
     (\<forall>sa port bs. Broadcast sa port bs \<in> set (victim_part M) \<longrightarrow> bs = packet_bytes p)"

lemma net_start_inv: "net_start T N p M \<Longrightarrow> wf_packet p \<Longrightarrow> net_inv T N p M"
  by (simp add: net_start_def net_inv_def flood_inv_def exit_ok_def)

text \<open>An exit node that gets a copy: it is the packet's signature that it looks up.\<close>

lemma exit_ok_step:
  assumes "exit_ok p x log" "copy_of p bs"
  shows "exit_ok p (fst (exit_step x (Some bs))) (log @ [(exit_packet (fst (exit_step x (Some bs))), snd (exit_step x (Some bs)))]) \<and>
    hmac_sig p \<in> set (buff (exit_cache (fst (exit_step x (Some bs)))))"
proof -
  let ?v = "hmac_sig p"
  from assms(2) obtain q where q: "bs = packet_bytes q" "wf_packet q" "packet_core q = packet_core p"
    by (auto simp: copy_of_def)
  have inv: "exit_inv x" using assms(1) by (simp add: exit_ok_def)
  have wf: "wf_buffer (exit_cache x)" "wf_packet (exit_packet x)" using inv by (simp_all add: exit_inv_def)
  have sig: "hmac_sig q = ?v" using packet_core_eqs [OF q(3)] by simp
  have r: "recv_into (exit_packet x) (Some bs) = q" using wf(2) q(1,2) by (simp add: recv_packet)
  note inv' = exit_step_inv [OF inv, of "Some bs"]
  from inv show ?thesis
  proof (cases rule: exit_step_cases [where d = "Some bs"])
    case (Old row)
    then have "?v \<in> set (buff (exit_cache x))" by (simp add: r sig)
    with assms(1) inv' Old(2) show ?thesis by (simp add: exit_ok_def delivers_def)
  next
    case New
    then have n: "?v \<notin> set (buff (exit_cache x))" by (simp add: r sig)
    have "?v \<in> set (buff (put_sig (exit_cache x) ?v))"
      using circ.has_put_self [of "exit_cache x" ?v] wf q(2) sig [symmetric]
      by (simp add: containsBuff_miss wf_put_sig)
    with assms(1) inv' New(2) n q(3) show ?thesis by (simp add: exit_ok_def delivers_def r sig)
  qed
qed

lemma in_put_flight [simp]: "m \<in># F + mset (map (\<lambda>j. (j, bs)) js) \<longleftrightarrow> m \<in># F \<or> fst m \<in> set js \<and> snd m = bs"
  by (cases m) auto

lemma flood_inv_broadcast:
  assumes "flood_inv T N p M" "wf_packet p" "set js \<subseteq> N"
  shows "flood_inv T N p (M\<lparr>in_flight := in_flight M + mset (map (\<lambda>j. (j, packet_bytes p)) js)\<rparr>)"
proof -
  have "copy_ok N p c (j, packet_bytes p)" if "j \<in> N" for j c
    using that assms(2) by (auto simp: copy_ok_def)
  with assms show ?thesis
    by (auto simp: flood_inv_def mesh_inv_def holds_def)
qed

lemma net_inv_step:
  assumes "net_inv T N p M" "net_within T N" "net_step T M a M'"
  shows "net_inv T N p M'"
  using assms(3)
proof cases
  case victim
  show ?thesis
  proof (cases "victim_part M")
    case Nil
    with victim show ?thesis by simp
  next
    case (Cons ev evs)
    with assms(1) have p: "\<forall>sa port bs. Broadcast sa port bs \<in> set (ev # evs) \<longrightarrow> bs = packet_bytes p" "wf_packet p"
      by (simp_all add: net_inv_def)
    show ?thesis
    proof (cases ev)
      case (Broadcast sa port bs)
      with p have bs: "bs = packet_bytes p" by simp
      have M': "victim_part M' = evs" "exit_part M' = exit_part M" "exit_log M' = exit_log M"
        "relay_part M' = (relay_part M)\<lparr>in_flight := in_flight (relay_part M) + mset (map (\<lambda>j. (j, packet_bytes p)) (victim_relays T))\<rparr>"
        "exit_flight M' = exit_flight M + mset (map (\<lambda>e. (e, packet_bytes p)) (victim_exits T))"
        using victim(2) Cons Broadcast bs by (simp_all add: victim_act_def)
      have "flood_inv (relay_topology T) N p (relay_part M')"
        unfolding M' by (rule flood_inv_broadcast) (use assms(1,2) in \<open>simp_all add: net_inv_def net_within_def\<close>)
      moreover have "copy_of p (snd m)" if "m \<in># exit_flight M'" for m
      proof -
        from p(2) have "copy_of p (packet_bytes p)" by (auto simp: copy_of_def)
        with that assms(1) show ?thesis unfolding M' in_put_flight net_inv_def by metis
      qed
      moreover have "exit_ok p (exit_part M' e) (exit_log M' e)" for e
        using assms(1) by (simp add: M' net_inv_def)
      moreover have "bs = packet_bytes p" if "Broadcast sa port bs \<in> set (victim_part M')" for sa port bs
        using that p(1) unfolding M' by simp
      ultimately show ?thesis using p(2) unfolding net_inv_def by blast
    next
      case (Sleep n)
      with assms(1) Cons victim show ?thesis by (simp add: net_inv_def victim_act_def)
    qed
  qed
next
  case (relay i bs)
  have f: "flood_inv (relay_topology T) N p (relay_part M)" using assms(1) by (simp add: net_inv_def)
  have "flood_inv (relay_topology T) N p (mesh_deliver (relay_topology T) (relay_part M) i bs)"
    by (rule flood_inv_step [OF f _ mesh_step.deliver]) (use relay assms(2) in \<open>simp_all add: net_within_def\<close>)
  moreover from f relay(3) have "\<forall>m. m \<in># exit_flight M' \<longrightarrow> copy_of p (snd m)"
  proof (cases rule: relay_get_exits)
    case Known
    with assms(1) relay(2) show ?thesis by (simp add: net_inv_def)
  next
    case (Joins q)
    have "copy_of p (packet_bytes q')" if "hop_packet q = Some q'" for q'
      using hop_packet_Some [OF that] Joins(4,5) by (auto simp: copy_of_def)
    with Joins(8) assms(1) relay(2) show ?thesis by (auto simp: net_inv_def split: option.splits)
  qed
  ultimately show ?thesis using assms(1) relay(2) by (simp add: net_inv_def)
next
  case (exit e bs)
  from assms(1) exit(3) have "copy_of p bs" "exit_ok p (exit_part M e) (exit_log M e)"
    by (fastforce simp: net_inv_def)+
  from exit_ok_step [OF this(2,1)] assms(1) exit(2) show ?thesis
    by (auto simp: net_inv_def exit_get_def split_beta dest: in_diffD)
next
  case (relay_miss i bs)
  have f: "flood_inv (relay_topology T) N p (relay_part M)" using assms(1) by (simp add: net_inv_def)
  have "flood_inv (relay_topology T) N p ((relay_part M)\<lparr>in_flight := in_flight (relay_part M) - {#(i, bs)#}\<rparr>)"
    by (rule flood_inv_step [OF f _ mesh_step.lose]) (use relay_miss assms(2) in \<open>simp_all add: net_within_def\<close>)
  with assms(1) relay_miss(2) show ?thesis by (simp add: net_inv_def)
next
  case (exit_miss e bs)
  with assms(1) show ?thesis by (auto simp: net_inv_def dest: in_diffD)
qed

lemma net_run_inv: "net_run T M as M' \<Longrightarrow> net_inv T N p M \<Longrightarrow> net_within T N \<Longrightarrow> net_inv T N p M'"
  by (induction rule: net_run.induct) (auto intro: net_inv_step)

section \<open>Nothing gets lost\<close>

text \<open>
  As long as no datagram is lost, a node that has been sent the packet has it or will get it, and
  so will whoever hears a relay that has it.
\<close>

definition exit_has :: "u8 list \<Rightarrow> network \<Rightarrow> nat \<Rightarrow> bool" where
  "exit_has v M e \<longleftrightarrow> v \<in> set (buff (exit_cache (exit_part M e)))"

definition exit_closed :: "u8 list \<Rightarrow> network \<Rightarrow> nat \<Rightarrow> bool" where
  "exit_closed v M e \<longleftrightarrow> exit_has v M e \<or> e \<in> fst ` set_mset (exit_flight M)"

definition relay_closed :: "u8 list \<Rightarrow> network \<Rightarrow> nat \<Rightarrow> bool" where
  "relay_closed v M j \<longleftrightarrow> closed_in (holds v (relay_part M)) (relay_part M) j"

definition net_told :: "net_topology \<Rightarrow> nat set \<Rightarrow> u8 list \<Rightarrow> network \<Rightarrow> bool" where
  "net_told T N v M \<longleftrightarrow> told (relay_topology T) N v (relay_part M) \<and>
     (\<forall>i \<in> N. holds v (relay_part M) i \<longrightarrow> (\<forall>e \<in> set (neighbours (exit_view T) i). exit_closed v M e))"

definition victim_told :: "net_topology \<Rightarrow> u8 list \<Rightarrow> network \<Rightarrow> bool" where
  "victim_told T v M \<longleftrightarrow> (\<exists>sa port bs. Broadcast sa port bs \<in> set (victim_part M)) \<or>
     (\<forall>j \<in> set (victim_relays T). relay_closed v M j) \<and> (\<forall>e \<in> set (victim_exits T). exit_closed v M e)"

text \<open>A step keeps what it does not undo.\<close>

definition keeps :: "u8 list \<Rightarrow> network \<Rightarrow> network \<Rightarrow> bool" where
  "keeps v M M' \<longleftrightarrow> (\<forall>j. relay_closed v M j \<longrightarrow> relay_closed v M' j) \<and> (\<forall>e. exit_closed v M e \<longrightarrow> exit_closed v M' e)"

lemma keeps_victim: "keeps v M (victim_act T M)"
  by (auto simp: keeps_def victim_act_def relay_closed_def closed_in_def exit_closed_def exit_has_def holds_def
      image_Un split: list.split sim_event.split)

lemma keeps_told:
  assumes "keeps v M M'" "net_told T N v M" "\<And>i. holds v (relay_part M') i \<longleftrightarrow> holds v (relay_part M) i"
  shows "net_told T N v M'"
  using assms unfolding keeps_def net_told_def told_def relay_closed_def by blast

lemma exit_get_keeps:
  assumes "net_inv T N p M" "(e, bs) \<in># exit_flight M"
  shows "keeps (hmac_sig p) M (exit_get M e bs)"
proof -
  let ?v = "hmac_sig p" and ?M = "exit_get M e bs"
  from assms have "copy_of p bs" "exit_ok p (exit_part M e) (exit_log M e)" by (fastforce simp: net_inv_def)+
  from exit_ok_step [OF this(2,1)] have e: "exit_has ?v ?M e"
    by (simp add: exit_has_def exit_get_def split_beta)
  have "exit_closed ?v ?M f" if "exit_closed ?v M f" for f
  proof (cases "f = e")
    case False
    then have "exit_has ?v ?M f = exit_has ?v M f" by (simp add: exit_has_def exit_get_def split_beta)
    moreover have "f \<in> fst ` set_mset (exit_flight ?M)" if "f \<in> fst ` set_mset (exit_flight M)"
      using that False by (force simp: exit_get_def split_beta in_diff_count)
    ultimately show ?thesis using that by (auto simp: exit_closed_def)
  qed (use e in \<open>simp add: exit_closed_def\<close>)
  then show ?thesis by (simp add: keeps_def relay_closed_def exit_get_def split_beta)
qed

lemma relay_get_told:
  assumes "net_inv T N p M" "net_within T N" "card N < packet_ttl p" "net_told T N (hmac_sig p) M"
    "(i, bs) \<in># in_flight (relay_part M)"
  shows "keeps (hmac_sig p) M (relay_get T M i bs) \<and> net_told T N (hmac_sig p) (relay_get T M i bs)"
proof -
  let ?v = "hmac_sig p" and ?M = "relay_get T M i bs"
  have f: "flood_inv (relay_topology T) N p (relay_part M)" "topology_within (relay_topology T) N" "finite N"
    "told (relay_topology T) N ?v (relay_part M)"
    using assms(1,2,4) by (simp_all add: net_inv_def net_within_def net_told_def topology_within_def)
  from told_step [OF f(1,2) assms(3) f(4) mesh_step.deliver [OF assms(5)]]
  have r: "told (relay_topology T) N ?v (relay_part ?M)" "\<forall>j. relay_closed ?v M j \<longrightarrow> relay_closed ?v ?M j"
    by (simp_all add: relay_closed_def)
  from f(1) assms(5) show ?thesis
  proof (cases rule: relay_get_exits)
    case Known
    then have k: "keeps ?v M ?M" using r(2) by (auto simp: keeps_def exit_closed_def exit_has_def)
    with keeps_told [OF k assms(4) Known(2)] show ?thesis by blast
  next
    case (Joins q)
    have keep: "\<forall>e. exit_closed ?v M e \<longrightarrow> exit_closed ?v ?M e"
      by (auto simp: exit_closed_def exit_has_def Joins(8))
    have "card {j \<in> N. holds ?v (relay_part M) j} < card N"
      using Joins(1,2) f(3) by (intro psubset_card_mono) auto
    with Joins(6) assms(3) have "1 < packet_ttl q" by linarith
    then obtain q' where q': "hop_packet q = Some q'" using hop_packet_None [of q] by auto
    have "exit_closed ?v ?M e" if "e \<in> set (neighbours (exit_view T) i)" for e
      using that by (force simp: exit_closed_def Joins(8) q')
    with assms(4) keep r(1) Joins(7) have "net_told T N ?v ?M" unfolding net_told_def by blast
    with keep r(2) show ?thesis by (simp add: keeps_def)
  qed
qed

lemma victim_act_told:
  assumes "net_told T N v M" "victim_told T v M"
  shows "net_told T N v (victim_act T M) \<and> victim_told T v (victim_act T M)"
proof -
  have h: "holds v (relay_part (victim_act T M)) i \<longleftrightarrow> holds v (relay_part M) i" for i
    by (auto simp: victim_act_def holds_def split: list.split sim_event.split)
  note k = keeps_victim [of v M T]
  have "victim_told T v (victim_act T M)"
  proof (cases "\<exists>sa port bs evs. victim_part M = Broadcast sa port bs # evs")
    case True
    then have "(\<forall>j \<in> set (victim_relays T). relay_closed v (victim_act T M) j) \<and> (\<forall>e \<in> set (victim_exits T). exit_closed v (victim_act T M) e)"
      by (force simp: victim_act_def relay_closed_def closed_in_def exit_closed_def)
    then show ?thesis by (simp add: victim_told_def)
  next
    case False
    then have "Broadcast sa port bs \<in> set (victim_part M) \<Longrightarrow> Broadcast sa port bs \<in> set (victim_part (victim_act T M))" for sa port bs
      by (cases "victim_part M") (auto simp: victim_act_def split: sim_event.split)
    with assms(2) k show ?thesis unfolding victim_told_def keeps_def by blast
  qed
  with keeps_told [OF k assms(1) h] show ?thesis ..
qed

lemma net_told_step:
  assumes "net_inv T N p M" "net_within T N" "card N < packet_ttl p" "net_told T N (hmac_sig p) M"
    "victim_told T (hmac_sig p) M" "net_step T M a M'" "net_lossless [a]"
  shows "net_told T N (hmac_sig p) M' \<and> victim_told T (hmac_sig p) M'"
proof -
  have vt: "victim_told T (hmac_sig p) M'" if "keeps (hmac_sig p) M M'" "victim_part M' = victim_part M"
    using assms(5) that unfolding victim_told_def keeps_def by metis
  from assms(6) show ?thesis
  proof cases
    case victim
    with victim_act_told [OF assms(4,5)] show ?thesis by simp
  next
    case (relay i bs)
    from relay_get_told [OF assms(1-4) relay(3)] vt relay(2) show ?thesis by simp
  next
    case (exit e bs)
    have k: "keeps (hmac_sig p) M M'" using exit_get_keeps [OF assms(1) exit(3)] exit(2) by simp
    moreover have "victim_part M' = victim_part M" "relay_part M' = relay_part M"
      using exit(2) by (simp_all add: exit_get_def split_beta)
    ultimately show ?thesis using keeps_told [OF k assms(4)] vt by simp
  qed (use assms(7) in \<open>auto simp: net_lossless_def\<close>)
qed

lemma net_told_run:
  assumes "net_run T M as M'" "net_lossless as" "net_inv T N p M" "net_within T N" "card N < packet_ttl p"
    "net_told T N (hmac_sig p) M" "victim_told T (hmac_sig p) M"
  shows "net_told T N (hmac_sig p) M' \<and> victim_told T (hmac_sig p) M'"
  using assms
proof (induction rule: net_run.induct)
  case (net_snoc M as M1 a M2)
  from net_snoc.prems(1) have l: "net_lossless as" "net_lossless [a]" by (auto simp: net_lossless_def)
  have "net_inv T N p M1" using net_snoc by (blast intro: net_run_inv)
  from net_told_step [OF this net_snoc.prems(3,4) _ _ net_snoc.hyps(2) l(2)] net_snoc.IH [OF l(1) net_snoc.prems(2-6)]
  show ?case by blast
qed simp

section \<open>The length of a simulation\<close>

fun event_work :: "net_topology \<Rightarrow> sim_event \<Rightarrow> nat" where
  "event_work T (Broadcast sa port bs) = 1 + length (victim_relays T) + length (victim_exits T)"
| "event_work T (Sleep n) = 1"

definition exits_to_come :: "net_topology \<Rightarrow> nat set \<Rightarrow> u8 list \<Rightarrow> mesh \<Rightarrow> nat" where
  "exits_to_come T N v R = (\<Sum>i \<in> {j \<in> N. \<not> holds v R j}. length (neighbours (exit_view T) i))"

definition net_work :: "net_topology \<Rightarrow> nat set \<Rightarrow> u8 list \<Rightarrow> network \<Rightarrow> nat" where
  "net_work T N v M = sum_list (map (event_work T) (victim_part M)) +
     flood_work (relay_topology T) N v (relay_part M) + size (exit_flight M) + exits_to_come T N v (relay_part M)"

lemma relay_get_exit_work:
  assumes "net_inv T N p M" "finite N" "(i, bs) \<in># in_flight (relay_part M)"
  shows "size (exit_flight (relay_get T M i bs)) + exits_to_come T N (hmac_sig p) (relay_part (relay_get T M i bs)) \<le>
    size (exit_flight M) + exits_to_come T N (hmac_sig p) (relay_part M)"
proof -
  let ?v = "hmac_sig p" and ?R = "relay_part M" and ?R' = "relay_part (relay_get T M i bs)"
  have "flood_inv (relay_topology T) N p ?R" using assms(1) by (simp add: net_inv_def)
  from this assms(3) show ?thesis
  proof (cases rule: relay_get_exits)
    case Known
    from Known(2,3) show ?thesis unfolding exits_to_come_def by presburger
  next
    case (Joins q)
    have "{j \<in> N. \<not> holds ?v ?R j} = insert i {j \<in> N. \<not> holds ?v ?R' j}"
      using Joins(1,2,7) by blast
    moreover have "i \<notin> {j \<in> N. \<not> holds ?v ?R' j}" using Joins(7) by blast
    ultimately have "exits_to_come T N ?v ?R = length (neighbours (exit_view T) i) + exits_to_come T N ?v ?R'"
      using assms(2) by (simp add: exits_to_come_def)
    moreover have "size (exit_flight (relay_get T M i bs)) \<le> size (exit_flight M) + length (neighbours (exit_view T) i)"
      by (simp add: Joins(8) split: option.split)
    ultimately show ?thesis by simp
  qed
qed

lemma net_work_step:
  assumes "net_inv T N p M" "net_within T N" "net_step T M a M'"
  shows "Suc (net_work T N (hmac_sig p) M') \<le> net_work T N (hmac_sig p) M"
proof -
  have fin: "finite N" using assms(2) by (simp add: net_within_def topology_within_def)
  have f: "flood_inv (relay_topology T) N p (relay_part M)" using assms(1) by (simp add: net_inv_def)
  from assms(3) show ?thesis
  proof cases
    case victim
    then show ?thesis
      by (cases "victim_part M")
        (auto simp: net_work_def victim_act_def flood_work_def exits_to_come_def holds_def split: sim_event.split)
  next
    case (relay i bs)
    from flood_work_step [OF f fin mesh_step.deliver [OF relay(3)]] relay_get_exit_work [OF assms(1) fin relay(3)]
    show ?thesis by (simp add: net_work_def relay(2))
  next
    case (exit e bs)
    then show ?thesis using size_Suc_Diff1 [OF exit(3)]
      by (simp add: net_work_def exit_get_def split_beta)
  next
    case (relay_miss i bs)
    from flood_work_step [OF f fin mesh_step.lose [OF relay_miss(3)]] show ?thesis
      by (simp add: net_work_def relay_miss(2) exits_to_come_def holds_def)
  next
    case (exit_miss e bs)
    then show ?thesis using size_Suc_Diff1 [OF exit_miss(3)] by (simp add: net_work_def)
  qed
qed

lemma net_run_work:
  assumes "net_run T M as M'" "net_inv T N p M" "net_within T N"
  shows "length as + net_work T N (hmac_sig p) M' \<le> net_work T N (hmac_sig p) M"
  using assms
proof (induction rule: net_run.induct)
  case (net_snoc M as M1 a M2)
  have "net_inv T N p M1" using net_snoc by (blast intro: net_run_inv)
  from net_work_step [OF this net_snoc.prems(2) net_snoc.hyps(2)] net_snoc.IH [OF net_snoc.prems]
  show ?case by simp
qed simp

text \<open>Every simulation can go on without a loss until it is silent.\<close>

lemma net_run_Cons: "net_run T M1 as M2 \<Longrightarrow> net_step T M a M1 \<Longrightarrow> net_run T M (a # as) M2"
proof (induction rule: net_run.induct)
  case (net_Nil M1)
  from net_run.net_snoc [OF net_run.net_Nil net_Nil] show ?case by simp
next
  case (net_snoc M1 as M2 b M3)
  from net_run.net_snoc [OF net_snoc.IH [OF net_snoc.prems] net_snoc.hyps(2)] show ?case by simp
qed

lemma net_goes_on:
  assumes "\<not> net_silent M"
  shows "\<exists>a M'. net_step T M a M' \<and> net_lossless [a]"
proof -
  from assms consider "victim_part M \<noteq> []" | i bs where "(i, bs) \<in># in_flight (relay_part M)"
    | e bs where "(e, bs) \<in># exit_flight M"
    unfolding net_silent_def by (metis multiset_nonemptyE surj_pair)
  then show ?thesis
    by cases (use net_step.victim net_step.relay net_step.exit in \<open>fastforce simp: net_lossless_def\<close>)+
qed

lemma net_completes:
  assumes "net_inv T N p M" "net_within T N"
  shows "\<exists>as M'. net_run T M as M' \<and> net_lossless as \<and> net_silent M'"
  using assms
proof (induction "net_work T N (hmac_sig p) M" arbitrary: M rule: less_induct)
  case less
  show ?case
  proof (cases "net_silent M")
    case True
    then show ?thesis using net_run.net_Nil [of T M] by (auto simp: net_lossless_def intro!: exI [of _ "[]"])
  next
    case False
    from net_goes_on [OF this] obtain a M1 where st: "net_step T M a M1" "net_lossless [a]" by blast
    from net_work_step [OF less.prems st(1)] net_inv_step [OF less.prems st(1)] less.hyps [of M1] less.prems(2)
    obtain as M' where r: "net_run T M1 as M'" "net_lossless as" "net_silent M'" by fastforce
    from net_run_Cons [OF r(1) st(1)] r st(2) show ?thesis
      by (auto simp: net_lossless_def intro!: exI [of _ "a # as"])
  qed
qed

section \<open>Properties\<close>

lemma sim_victim_start:
  "Broadcast sa port bs \<in> set (sim_victim_main mac coord a t) \<Longrightarrow> bs = packet_bytes (sim_victim_packet mac coord a t)"
  by (simp add: sim_victim_main_def broadcast_from_count)

lemma sim_victim_work:
  "sum_list (map (event_work T) (sim_victim_main mac coord a t)) = 30 * (2 + length (victim_relays T) + length (victim_exits T))"
proof -
  have "sum_list (map (event_work T) (concat (replicate n [Broadcast sa port bs, Sleep d]))) =
      n * (2 + length (victim_relays T) + length (victim_exits T))" for n sa port bs d
    by (induction n) simp_all
  then show ?thesis by (simp add: sim_victim_main_def broadcast_from_count)
qed

text \<open>The logged deliveries of a signature at an exit node, as the packets that were delivered.\<close>

definition delivered :: "u8 list \<Rightarrow> network \<Rightarrow> nat \<Rightarrow> emergencyPacket list" where
  "delivered v M e = map fst (filter (delivers v) (exit_log M e))"

lemma delivered_inv:
  "net_inv T N p M \<Longrightarrow> delivered (hmac_sig p) M e = (if exit_has (hmac_sig p) M e then [packet_core p] else [])"
  by (simp add: net_inv_def exit_ok_def exit_has_def delivered_def)

text \<open>
  Two relays on one bridge network, an exit node that only hears the relays, and a victim that
  only the first relay hears.
\<close>

definition pair_net :: net_topology where
  "pair_net = \<lparr>relay_topology = pair_topology, exit_members = \<lambda>sa. if sa = 0xAC12FFFF then [7] else [],
     victim_relays = [0], victim_exits = []\<rparr>"

definition ones_mac :: hmac_fun where
  "ones_mac k m = replicate 32 1"

definition pair_packet :: emergencyPacket where
  "pair_packet = sim_victim_packet ones_mac (\<lambda>_. 5) sample_arguments 125"

definition pair_network :: network where
  "pair_network = \<lparr>victim_part = sim_victim_main ones_mac (\<lambda>_. 5) sample_arguments 125,
     relay_part = \<lparr>mesh_nodes = \<lambda>_. node_init, in_flight = {#}\<rparr>,
     exit_part = \<lambda>_. exit_init, exit_flight = {#}, exit_log = \<lambda>_. []\<rparr>"

lemma digest_ok_ones: "digest_ok ones_mac"
  by (simp add: digest_ok_def ones_mac_def)

lemma pair_packet_sig: "hmac_sig pair_packet \<notin> set (buff zero_buffer)"
  by (simp add: pair_packet_def sim_victim_signed digest_ok_ones zero_buffer_def)
    (simp add: ones_mac_def CHARACTERS_def HASHES_def numeral_eq_Suc)

lemma pair_net_start: "net_start T N pair_packet pair_network"
  using pair_packet_sig
  by (auto simp: net_start_def pair_network_def mesh_inv_def node_init_inv exit_init_inv holds_def pair_packet_def
      dest: sim_victim_start) (simp_all add: node_init_def exit_init_def)

lemma pair_net_within: "net_within pair_net {0, 1}"
  using pair_within by (simp add: net_within_def pair_net_def)

lemma pair_net_neighbours: "neighbours (exit_view pair_net) i = [7]" "neighbours (relay_topology pair_net) i = [0, 1]"
  by (simp_all add: neighbours_def exit_view_def pair_net_def pair_topology_def eligible_sample)

lemma pair_net_completes:
  obtains as M' where "net_run pair_net pair_network as M'" "net_lossless as" "net_silent M'"
proof -
  have "wf_packet pair_packet" by (simp add: pair_packet_def sim_victim_wf(1) digest_ok_ones)
  from net_completes [OF net_start_inv [OF pair_net_start this] pair_net_within] that show thesis by blast
qed

text \<open>
  At every moment of a simulation, whatever is lost and in whatever order the thirty
  broadcasts and the relayed copies arrive, an exit node has delivered the victim's packet at most
  once, and what it delivered is the packet as the victim made it, with the TTL bits cleared.
\<close>

theorem simulation_delivers_at_most_once:
  assumes "digest_ok mac" "p = sim_victim_packet mac coord a t" "net_start T N p M" "net_within T N" "net_run T M as M'"
  shows "delivered (hmac_sig p) M' e = [] \<or> delivered (hmac_sig p) M' e = [packet_core p]"
proof -
  have "wf_packet p" using sim_victim_wf(1) [OF assms(1)] assms(2) by simp
  from delivered_inv [OF net_run_inv [OF assms(5) net_start_inv [OF assms(3) this] assms(4)], of e]
  show ?thesis by simp
qed

theorem simulation_delivers_at_most_once_witness:
  "delivered (hmac_sig pair_packet) pair_network 7 = [] \<or>
   delivered (hmac_sig pair_packet) pair_network 7 = [packet_core pair_packet]"
  by (rule simulation_delivers_at_most_once
      [OF digest_ok_ones pair_packet_def pair_net_start pair_net_within net_run.net_Nil])

lemma lossless_delivery:
  assumes "digest_ok mac" "p = sim_victim_packet mac coord a t" "victim_part M = sim_victim_main mac coord a t"
    "net_start T N p M" "net_within T N" "card N < 20" "net_run T M as M'" "net_lossless as" "net_silent M'"
    "e \<in> set (victim_exits T) \<or> (\<exists>j. connected (relay_topology T) (set (victim_relays T)) j \<and> e \<in> set (neighbours (exit_view T) j))"
  shows "delivered (hmac_sig p) M' e = [packet_core p]"
proof -
  let ?v = "hmac_sig p" and ?R = "relay_part M'"
  have wf: "wf_packet p" "packet_ttl p = 20" using sim_victim_wf [OF assms(1)] assms(2) by simp_all
  note inv = net_start_inv [OF assms(4) wf(1)]
  have "net_told T N ?v M" "victim_told T ?v M"
    using assms(4) by (auto simp: net_start_def net_told_def told_def victim_told_def assms(3)
        sim_victim_main_def broadcast_from_count)
  with net_told_run [OF assms(7,8) inv assms(5)] assms(6) wf(2)
  have told: "net_told T N ?v M'" "victim_told T ?v M'" by simp_all
  have closed: "relay_closed ?v M' j \<Longrightarrow> holds ?v ?R j" "exit_closed ?v M' e \<Longrightarrow> exit_has ?v M' e" for j e
    using assms(9) by (simp_all add: net_silent_def relay_closed_def closed_in_def exit_closed_def)
  have first: "\<forall>j \<in> set (victim_relays T). relay_closed ?v M' j" "\<forall>e \<in> set (victim_exits T). exit_closed ?v M' e"
    using told(2) assms(9) by (simp_all add: victim_told_def net_silent_def)
  have "j \<in> N \<and> holds ?v ?R j" if "connected (relay_topology T) (set (victim_relays T)) j" for j
    using that
  proof (induction rule: connected.induct)
    case (source i)
    then show ?case using first(1) closed(1) assms(5) by (auto simp: net_within_def)
  next
    case (hear i j)
    then have "relay_closed ?v M' j" using told(1) by (auto simp: net_told_def told_def relay_closed_def)
    with hear assms(5) show ?case using closed(1) by (auto simp: net_within_def topology_within_def)
  qed
  with assms(10) first(2) told(1) have "exit_closed ?v M' e" by (auto simp: net_told_def)
  then have "exit_has ?v M' e" by (rule closed(2))
  with delivered_inv [OF net_run_inv [OF assms(7) inv assms(5)]] show ?thesis by simp
qed

text \<open>
  If no datagram is lost and there are fewer than 20 relays, a finished simulation
  has delivered the victim's packet exactly once at every exit node that hears a relay connected
  to the victim, or the victim itself.
\<close>

theorem simulation_delivers:
  assumes "digest_ok mac" "p = sim_victim_packet mac coord a t" "victim_part M = sim_victim_main mac coord a t"
    "net_start T N p M" "net_within T N" "card N < 20" "net_run T M as M'" "net_lossless as" "net_silent M'"
    "e \<in> set (victim_exits T) \<or> (\<exists>j. connected (relay_topology T) (set (victim_relays T)) j \<and> e \<in> set (neighbours (exit_view T) j))"
  shows "delivered (hmac_sig p) M' e = [packet_core p]"
  using assms by (rule lossless_delivery)

theorem simulation_delivers_witness:
  "\<exists>as M'. net_run pair_net pair_network as M' \<and> delivered (hmac_sig pair_packet) M' 7 = [packet_core pair_packet]"
proof -
  obtain as M' where r: "net_run pair_net pair_network as M'" "net_lossless as" "net_silent M'"
    by (rule pair_net_completes)
  have "7 \<in> set (neighbours (exit_view pair_net) 0)" "connected (relay_topology pair_net) (set (victim_relays pair_net)) 0"
    by (auto simp: pair_net_neighbours intro!: connected.source) (simp add: pair_net_def)
  moreover have "victim_part pair_network = sim_victim_main ones_mac (\<lambda>_. 5) sample_arguments 125"
    by (simp add: pair_network_def)
  moreover have "card {0, 1 :: nat} < 20" by simp
  ultimately have "delivered (hmac_sig pair_packet) M' 7 = [packet_core pair_packet]"
    using simulation_delivers [OF digest_ok_ones pair_packet_def _ pair_net_start pair_net_within _ r] by blast
  with r(1) show ?thesis by blast
qed

text \<open>
  Property C23. A simulation ends: with any losses it takes at most thirty times the steps of one
  broadcast and its receivers, plus the listeners of every relay once.
\<close>

theorem simulation_cost:
  assumes "digest_ok mac" "p = sim_victim_packet mac coord a t" "victim_part M = sim_victim_main mac coord a t"
    "net_start T N p M" "net_within T N" "net_run T M as M'"
  shows "length as \<le> 30 * (2 + length (victim_relays T) + length (victim_exits T)) +
    (\<Sum>i \<in> N. length (neighbours (relay_topology T) i) + length (neighbours (exit_view T) i))"
proof -
  have "wf_packet p" using sim_victim_wf(1) [OF assms(1)] assms(2) by simp
  note w = net_run_work [OF assms(6) net_start_inv [OF assms(4) this] assms(5)]
  have "{j \<in> N. \<not> holds (hmac_sig p) (relay_part M) j} = N" using assms(4) by (auto simp: net_start_def)
  then have "net_work T N (hmac_sig p) M = 30 * (2 + length (victim_relays T) + length (victim_exits T)) +
    (\<Sum>i \<in> N. length (neighbours (relay_topology T) i) + length (neighbours (exit_view T) i))"
    using assms(3,4) by (simp add: net_work_def flood_work_def exits_to_come_def net_start_def sim_victim_work sum.distrib)
  with w show ?thesis by linarith
qed

theorem simulation_cost_witness:
  "\<exists>as M'. net_run pair_net pair_network as M' \<and> net_silent M' \<and> length as \<le> 96"
proof -
  obtain as M' where r: "net_run pair_net pair_network as M'" "net_lossless as" "net_silent M'"
    by (rule pair_net_completes)
  have "victim_part pair_network = sim_victim_main ones_mac (\<lambda>_. 5) sample_arguments 125"
    by (simp add: pair_network_def)
  from simulation_cost [OF digest_ok_ones pair_packet_def this pair_net_start pair_net_within r(1)]
  have "length as \<le> 96" by (simp add: pair_net_neighbours) (simp add: pair_net_def)
  with r show ?thesis by blast
qed

end
