(* ===== verification/Floods.thy ===== *)
theory Floods
  imports Mesh
begin

text \<open>
  Many packets at once in a network of relay nodes. The specification of one packet's flood is
  a set of nodes it has reached and copies with a TTL on their way; it does not know of
  other packets, tables or bytes. While at most 256 different signatures travel, the network of
  Mesh refines one such flood per signature: no flood disturbs another, whatever the order of
  arrival, because no table drops a signature that is still under way.
\<close>

section \<open>The specification of a flood\<close>

record flood =
  reached :: "nat set"
  copies_to :: "(nat \<times> nat) multiset"

definition flood_get :: "topology \<Rightarrow> flood \<Rightarrow> nat \<Rightarrow> nat \<Rightarrow> flood" where
  "flood_get T F i t =
     (if i \<in> reached F then F\<lparr>copies_to := copies_to F - {#(i, t)#}\<rparr>
      else \<lparr>reached = insert i (reached F),
            copies_to = copies_to F - {#(i, t)#} + (if t \<le> 1 then {#} else mset (map (\<lambda>j. (j, t - 1)) (neighbours T i)))\<rparr>)"

definition flood_miss :: "flood \<Rightarrow> nat \<Rightarrow> nat \<Rightarrow> flood" where
  "flood_miss F i t = F\<lparr>copies_to := copies_to F - {#(i, t)#}\<rparr>"

inductive flood_step :: "topology \<Rightarrow> flood \<Rightarrow> bool \<Rightarrow> flood \<Rightarrow> bool" for T where
  get: "(i, t) \<in># copies_to F \<Longrightarrow> flood_step T F True (flood_get T F i t)"
| miss: "(i, t) \<in># copies_to F \<Longrightarrow> flood_step T F False (flood_miss F i t)"

inductive_cases flood_step_True: "flood_step T F True F'"

definition flood_ok :: "nat set \<Rightarrow> flood \<Rightarrow> bool" where
  "flood_ok N F \<longleftrightarrow> (\<forall>i t. (i, t) \<in># copies_to F \<longrightarrow> i \<in> N \<and> card N < t + card (reached F \<inter> N))"

definition flood_closed :: "flood \<Rightarrow> nat \<Rightarrow> bool" where
  "flood_closed F j \<longleftrightarrow> j \<in> reached F \<or> j \<in> fst ` set_mset (copies_to F)"

definition flood_told :: "topology \<Rightarrow> nat set \<Rightarrow> flood \<Rightarrow> bool" where
  "flood_told T N F \<longleftrightarrow> (\<forall>i \<in> reached F \<inter> N. \<forall>j \<in> set (neighbours T i). flood_closed F j)"

text \<open>What a lossless step of a flood keeps: enough TTL, and whom it has promised to reach.\<close>

lemma flood_closed_step:
  assumes "flood_step T F True F'" "flood_closed F j"
  shows "flood_closed F' j"
proof -
  from assms(1) obtain i t where 1: "(i, t) \<in># copies_to F" "F' = flood_get T F i t"
    by (auto elim: flood_step_True)
  show ?thesis
  proof (cases "j = i \<or> j \<in> reached F")
    case True
    with 1 show ?thesis by (auto simp: flood_closed_def flood_get_def)
  next
    case False
    with assms(2) obtain u where "(j, u) \<in># copies_to F" by (auto simp: flood_closed_def)
    with False have "(j, u) \<in># copies_to F'" using 1 by (auto simp: flood_get_def in_diff_count)
    then show ?thesis by (force simp: flood_closed_def)
  qed
qed

lemma flood_keeps:
  assumes "flood_step T F True F'" "flood_ok N F" "flood_told T N F" "topology_within T N"
  shows "flood_ok N F' \<and> flood_told T N F'"
proof -
  from assms(1) obtain i t where 1: "(i, t) \<in># copies_to F" "F' = flood_get T F i t"
    by (auto elim: flood_step_True)
  have closed: "flood_closed F' j" if "flood_closed F j" for j
    using assms(1) that by (rule flood_closed_step)
  show ?thesis
  proof (cases "i \<in> reached F")
    case True
    with 1 have "reached F' = reached F" "\<And>m. m \<in># copies_to F' \<Longrightarrow> m \<in># copies_to F"
      by (auto simp: flood_get_def dest: in_diffD)
    with closed assms(2,3) show ?thesis unfolding flood_ok_def flood_told_def by metis
  next
    case False
    have fin: "finite N" and i: "i \<in> N" "card N < t + card (reached F \<inter> N)"
      using 1 assms(2,4) by (auto simp: topology_within_def flood_ok_def)
    have F': "reached F' = insert i (reached F)" "copies_to F' = copies_to F - {#(i, t)#} +
        (if t \<le> 1 then {#} else mset (map (\<lambda>j. (j, t - 1)) (neighbours T i)))"
      using False 1 by (simp_all add: flood_get_def)
    have c: "card (reached F' \<inter> N) = Suc (card (reached F \<inter> N))"
      using False i fin by (simp add: F'(1))
    have "card (reached F \<inter> N) < card N" using False i(1) fin by (intro psubset_card_mono) auto
    with i(2) have t: "1 < t" by linarith
    have "j \<in> N \<and> card N < u + card (reached F' \<inter> N)" if "(j, u) \<in># copies_to F'" for j u
    proof (cases "(j, u) \<in># copies_to F")
      case True
      with assms(2) have "j \<in> N" "card N < u + card (reached F \<inter> N)" unfolding flood_ok_def by blast+
      with c show ?thesis by simp
    next
      case False
      with that t have "j \<in> set (neighbours T i)" "u = t - 1" by (auto simp: F'(2) dest: in_diffD)
      with i c t assms(4) show ?thesis by (auto simp: topology_within_def)
    qed
    moreover have "flood_closed F' j" if "k \<in> reached F' \<inter> N" "j \<in> set (neighbours T k)" for k j
    proof (cases "k = i")
      case True
      with that(2) t have "(j, t - 1) \<in># copies_to F'" by (simp add: F'(2))
      then show ?thesis by (force simp: flood_closed_def)
    next
      case False
      with that F'(1) assms(3) have "flood_closed F j" by (auto simp: flood_told_def)
      then show ?thesis by (rule closed)
    qed
    ultimately show ?thesis unfolding flood_ok_def flood_told_def by blast
  qed
qed

section \<open>Tables with room\<close>

text \<open>
  The signatures of \<open>V\<close> that a table holds are its newest rows. As long as \<open>V\<close> fits into the
  table, none of them is overwritten by another of \<open>V\<close>.
\<close>

definition room :: "u8 list set \<Rightarrow> circularBuffer \<Rightarrow> bool" where
  "room V c \<longleftrightarrow> (\<exists>old new. circ_list c = old @ new \<and> distinct new \<and> set new \<subseteq> V \<and> set old \<inter> V = {})"

lemma room_put:
  assumes "wf_buffer c" "wf_sig k" "k \<in> V" "finite V" "card V \<le> HASHES" "room V c"
  shows "room V (put_sig c k) \<and> (\<forall>v \<in> V. v \<in> set (buff (put_sig c k)) \<longleftrightarrow> v \<in> set (buff c) \<or> v = k)"
proof (cases "k \<in> set (buff c)")
  case True
  with assms show ?thesis by (auto simp: put_sig_known)
next
  case False
  from assms(6) obtain old new where r: "circ_list c = old @ new" "distinct new" "set new \<subseteq> V" "set old \<inter> V = {}"
    by (auto simp: room_def)
  have set_c: "set (buff c) = set old \<union> set new" using r(1) by (metis set_append set_circ_list)
  with False have k: "k \<notin> set new" by simp
  have "card (insert k (set new)) \<le> card V" using assms(3,4) r(3) by (intro card_mono) simp_all
  with assms(5) k have "length new < HASHES" by (simp add: distinct_card [OF r(2)])
  moreover have "length old + length new = HASHES"
    using assms(1) arg_cong [OF r(1), of length] by (simp add: wf_buffer_def)
  ultimately obtain x xs where old: "old = x # xs" by (cases old) auto
  have p: "circ_list (put_sig c k) = xs @ (new @ [k])"
    using circ_list_put_new [OF assms(1,2) False] by (simp add: r(1) old)
  moreover have "distinct (new @ [k])" "set (new @ [k]) \<subseteq> V" "set xs \<inter> V = {}"
    using r k assms(3) old by auto
  ultimately have "room V (put_sig c k)" unfolding room_def by blast
  moreover have "v \<in> set (buff (put_sig c k)) \<longleftrightarrow> v \<in> set (buff c) \<or> v = k" if "v \<in> V" for v
  proof -
    have "set (buff (put_sig c k)) = set xs \<union> set new \<union> {k}"
      using arg_cong [OF p, of set] by simp
    with that r(4) set_c old show ?thesis by auto
  qed
  ultimately show ?thesis by blast
qed

section \<open>The network refines its floods\<close>

definition packet_of :: "nat \<times> u8 list \<Rightarrow> emergencyPacket" where
  "packet_of m = bytes_packet (snd m)"

definition flood_of :: "u8 list \<Rightarrow> mesh \<Rightarrow> flood" where
  "flood_of v M = \<lparr>reached = {i. holds v M i},
     copies_to = image_mset (\<lambda>m. (fst m, packet_ttl (packet_of m))) {#m \<in># in_flight M. hmac_sig (packet_of m) = v#}\<rparr>"

definition traffic_inv :: "u8 list set \<Rightarrow> nat set \<Rightarrow> mesh \<Rightarrow> bool" where
  "traffic_inv V N M \<longleftrightarrow> mesh_inv M \<and> (\<forall>i \<in> N. room V (node_cache (mesh_nodes M i))) \<and>
     (\<forall>m. m \<in># in_flight M \<longrightarrow> fst m \<in> N \<and> (\<exists>q. snd m = packet_bytes q \<and> wf_packet q \<and> hmac_sig q \<in> V))"

definition fits :: "u8 list set \<Rightarrow> bool" where
  "fits V \<longleftrightarrow> finite V \<and> card V \<le> HASHES"

lemma packet_of_bytes [simp]: "wf_packet q \<Longrightarrow> packet_of (j, packet_bytes q) = q"
  by (simp add: packet_of_def)

lemma filter_forwards: "wf_packet q \<Longrightarrow> filter_mset (\<lambda>m. hmac_sig (packet_of m) = v) (mset (map (\<lambda>j. (j, packet_bytes q)) js)) =
    (if hmac_sig q = v then mset (map (\<lambda>j. (j, packet_bytes q)) js) else {#})"
  by (induction js) auto

lemma image_forwards: "wf_packet q \<Longrightarrow> image_mset (\<lambda>m. (fst m, packet_ttl (packet_of m))) (mset (map (\<lambda>j. (j, packet_bytes q)) js)) =
    mset (map (\<lambda>j. (j, packet_ttl q)) js)"
  by (induction js) auto

lemma copies_minus:
  assumes "(i, packet_bytes q) \<in># F" "wf_packet q"
  shows "image_mset (\<lambda>m. (fst m, packet_ttl (packet_of m))) {#m \<in># F - {#(i, packet_bytes q)#}. hmac_sig (packet_of m) = v#} =
    image_mset (\<lambda>m. (fst m, packet_ttl (packet_of m))) {#m \<in># F. hmac_sig (packet_of m) = v#} -
      (if hmac_sig q = v then {#(i, packet_ttl q)#} else {#})"
  using assms by (auto simp: image_mset_Diff)

lemma traffic_deliver:
  assumes "traffic_inv V N M" "topology_within T N" "fits V" "(i, bs) \<in># in_flight M" "v \<in> V"
  shows "traffic_inv V N (mesh_deliver T M i bs) \<and>
    (flood_of v (mesh_deliver T M i bs) = flood_of v M \<or>
     flood_step T (flood_of v M) True (flood_of v (mesh_deliver T M i bs)))"
proof -
  let ?M = "mesh_deliver T M i bs"
  from assms(1,4) obtain q where q: "i \<in> N" "bs = packet_bytes q" "wf_packet q" "hmac_sig q \<in> V"
    unfolding traffic_inv_def by fastforce
  let ?k = "hmac_sig q"
  have inv: "node_inv (mesh_nodes M i)" "mesh_inv M" using assms(1) by (simp_all add: traffic_inv_def mesh_inv_def)
  note d = deliver_packet [OF inv(1) q(3), of T, folded q(2)]
  have wf: "wf_buffer (node_cache (mesh_nodes M i))" "wf_sig ?k" using inv(1) q(3) by (simp_all add: node_inv_def)
  have rm: "room V (node_cache (mesh_nodes M i))" using assms(1) q(1) by (simp add: traffic_inv_def)
  have room: "room V (put_sig (node_cache (mesh_nodes M i)) ?k)"
    and put: "\<And>w. w \<in> V \<Longrightarrow> w \<in> set (buff (put_sig (node_cache (mesh_nodes M i)) ?k)) \<longleftrightarrow> w \<in> set (buff (node_cache (mesh_nodes M i))) \<or> w = ?k"
    using room_put [OF wf q(4) _ _ rm] assms(3) by (simp_all add: fits_def)
  have holds: "holds w ?M j \<longleftrightarrow> holds w M j \<or> j = i \<and> w = ?k" if "w \<in> V" for w j
    using put [OF that] by (auto simp: holds_def d(1))
  define fwd where "fwd = (if holds ?k M i then {#}
    else case hop_packet q of None \<Rightarrow> {#} | Some q' \<Rightarrow> mset (map (\<lambda>j. (j, packet_bytes q')) (neighbours T i)))"
  have fl: "in_flight ?M = in_flight M - {#(i, bs)#} + fwd" unfolding fwd_def by (rule d(2))
  have fwd_cases: "fwd = {#} \<or> (\<exists>q'. hop_packet q = Some q' \<and> wf_packet q' \<and> hmac_sig q' = ?k \<and> packet_ttl q' = packet_ttl q - 1 \<and>
      fwd = mset (map (\<lambda>j. (j, packet_bytes q')) (neighbours T i)))"
    using hop_packet_Some [of q] q(3) unfolding fwd_def by (auto split: option.split)
  have "mesh_inv ?M" using mesh_step_inv [OF mesh_step.deliver [OF assms(4)] inv(2)] .
  moreover have "\<forall>j \<in> N. room V (node_cache (mesh_nodes ?M j))"
    using assms(1) room by (simp add: d(1) traffic_inv_def)
  moreover have "fst m \<in> N \<and> (\<exists>q. snd m = packet_bytes q \<and> wf_packet q \<and> hmac_sig q \<in> V)" if "m \<in># in_flight ?M" for m
  proof (cases "m \<in># in_flight M")
    case True
    with assms(1) show ?thesis unfolding traffic_inv_def by blast
  next
    case False
    with that fl have "m \<in># fwd" by (auto dest: in_diffD)
    with fwd_cases obtain q' where "wf_packet q'" "hmac_sig q' = ?k" "snd m = packet_bytes q'" "fst m \<in> set (neighbours T i)"
      by auto
    moreover from this q(1) assms(2) have "fst m \<in> N" unfolding topology_within_def by blast
    ultimately show ?thesis using q(4) by auto
  qed
  ultimately have "traffic_inv V N ?M" unfolding traffic_inv_def by blast
  moreover have "flood_of v ?M = flood_of v M \<or> flood_step T (flood_of v M) True (flood_of v ?M)"
  proof -
    let ?new = "image_mset (\<lambda>m. (fst m, packet_ttl (packet_of m))) {#m \<in># fwd. hmac_sig (packet_of m) = v#}"
    note cm = copies_minus [OF assms(4) [unfolded q(2)] q(3), of v, folded q(2)]
    have cp: "copies_to (flood_of v ?M) = copies_to (flood_of v M) - (if ?k = v then {#(i, packet_ttl q)#} else {#}) + ?new"
      by (simp only: flood_of_def flood.select_convs fl filter_union_mset image_mset_union cm)
    have rc: "reached (flood_of v ?M) = (if v = ?k then insert i (reached (flood_of v M)) else reached (flood_of v M))"
      using holds [OF assms(5)] by (auto simp: flood_of_def)
    show ?thesis
    proof (cases "v = ?k")
      case False
      have "?new = {#}" using fwd_cases False by (auto simp: filter_forwards)
      with False cp rc have "flood_of v ?M = flood_of v M" by (intro flood.equality) simp_all
      then show ?thesis ..
    next
      case True
      have new: "?new = (if holds v M i \<or> packet_ttl q \<le> 1 then {#} else mset (map (\<lambda>j. (j, packet_ttl q - 1)) (neighbours T i)))"
      proof (cases "hop_packet q")
        case None
        with hop_packet_None [of q] show ?thesis by (simp add: fwd_def)
      next
        case (Some q')
        have "packet_ttl q' = packet_ttl q - 1" using hop_packet_Some [OF Some] by (metis diff_Suc_1)
        with hop_packet_None [of q] hop_packet_Some [OF Some] Some q(3) True show ?thesis
          by (auto simp: fwd_def filter_forwards image_forwards simp del: mset_map)
      qed
      have "i \<in> reached (flood_of v M) \<longleftrightarrow> holds v M i" by (simp add: flood_of_def)
      with True cp rc new have "flood_of v ?M = flood_get T (flood_of v M) i (packet_ttl q)"
        by (intro flood.equality) (auto simp: flood_get_def)
      moreover have "(i, packet_ttl q) \<in># copies_to (flood_of v M)"
        using assms(4) q(2,3) True by (force simp: flood_of_def)
      ultimately show ?thesis using flood_step.get by metis
    qed
  qed
  ultimately show ?thesis ..
qed

lemma traffic_lose:
  assumes "traffic_inv V N M" "(i, bs) \<in># in_flight M"
  shows "traffic_inv V N (M\<lparr>in_flight := in_flight M - {#(i, bs)#}\<rparr>) \<and>
    (flood_of v (M\<lparr>in_flight := in_flight M - {#(i, bs)#}\<rparr>) = flood_of v M \<or>
     flood_step T (flood_of v M) False (flood_of v (M\<lparr>in_flight := in_flight M - {#(i, bs)#}\<rparr>)))"
proof
  let ?M = "M\<lparr>in_flight := in_flight M - {#(i, bs)#}\<rparr>"
  show "traffic_inv V N ?M"
    using assms(1) unfolding traffic_inv_def mesh_inv_def by (auto dest: in_diffD)
  from assms obtain q where q: "bs = packet_bytes q" "wf_packet q" unfolding traffic_inv_def by fastforce
  note cm = copies_minus [OF assms(2) [unfolded q(1)] q(2), of v, folded q(1)]
  have "copies_to (flood_of v ?M) = copies_to (flood_of v M) - (if hmac_sig q = v then {#(i, packet_ttl q)#} else {#})"
  proof -
    have "in_flight ?M = in_flight M - {#(i, bs)#}" by simp
    then show ?thesis by (simp only: flood_of_def flood.select_convs cm)
  qed
  moreover have "reached (flood_of v ?M) = reached (flood_of v M)" by (simp add: flood_of_def holds_def)
  ultimately have "flood_of v ?M = (if hmac_sig q = v then flood_miss (flood_of v M) i (packet_ttl q) else flood_of v M)"
    by (intro flood.equality) (auto simp: flood_miss_def)
  moreover have "hmac_sig q = v \<Longrightarrow> (i, packet_ttl q) \<in># copies_to (flood_of v M)"
    using assms(2) q by (force simp: flood_of_def)
  ultimately show "flood_of v ?M = flood_of v M \<or> flood_step T (flood_of v M) False (flood_of v ?M)"
    using flood_step.miss by metis
qed

lemma traffic_step:
  assumes "traffic_inv V N M" "topology_within T N" "fits V" "v \<in> V" "mesh_step T M a M'"
  shows "traffic_inv V N M' \<and> (flood_of v M' = flood_of v M \<or> flood_step T (flood_of v M) (lossless [a]) (flood_of v M'))"
  using assms(5)
proof cases
  case (deliver i bs)
  with traffic_deliver [OF assms(1-3) deliver(3) assms(4)] show ?thesis by (simp add: lossless_def)
next
  case (lose i bs)
  with traffic_lose [OF assms(1) lose(3), of v T] show ?thesis by (simp add: lossless_def)
qed

text \<open>The runs of a flood; a run of the network is one of each of its floods.\<close>

inductive flood_run :: "topology \<Rightarrow> flood \<Rightarrow> bool list \<Rightarrow> flood \<Rightarrow> bool" for T where
  flood_Nil: "flood_run T F [] F"
| flood_snoc: "flood_run T F ls F1 \<Longrightarrow> flood_step T F1 l F2 \<Longrightarrow> flood_run T F (ls @ [l]) F2"

lemma traffic_run:
  assumes "mesh_run T M as M'" "traffic_inv V N M" "topology_within T N" "fits V" "v \<in> V"
  shows "traffic_inv V N M' \<and> (\<exists>ls. flood_run T (flood_of v M) ls (flood_of v M') \<and> length ls \<le> length as \<and>
    (lossless as \<longrightarrow> False \<notin> set ls))"
  using assms
proof (induction rule: mesh_run.induct)
  case (run_Nil M)
  then show ?case using flood_run.flood_Nil by (auto intro!: exI [of _ "[]"])
next
  case (run_snoc M as M1 a M2)
  from run_snoc.IH [OF run_snoc.prems] obtain ls where ls: "traffic_inv V N M1" "flood_run T (flood_of v M) ls (flood_of v M1)"
    "length ls \<le> length as" "lossless as \<longrightarrow> False \<notin> set ls" by blast
  have l: "lossless (as @ [a]) \<longleftrightarrow> lossless as \<and> lossless [a]" by (auto simp: lossless_def)
  from traffic_step [OF ls(1) run_snoc.prems(2-4) run_snoc.hyps(2)] have inv: "traffic_inv V N M2"
    and "flood_of v M2 = flood_of v M1 \<or> flood_step T (flood_of v M1) (lossless [a]) (flood_of v M2)" by simp_all
  from this(2) show ?case
  proof
    assume "flood_of v M2 = flood_of v M1"
    with inv ls l show ?thesis by (intro conjI exI [of _ ls]) auto
  next
    assume "flood_step T (flood_of v M1) (lossless [a]) (flood_of v M2)"
    from flood_run.flood_snoc [OF ls(2) this] inv ls l show ?thesis
      by (intro conjI exI [of _ "ls @ [lossless [a]]"]) auto
  qed
qed

lemma flood_run_keeps:
  assumes "flood_run T F ls F'" "False \<notin> set ls" "flood_ok N F" "flood_told T N F" "topology_within T N"
  shows "flood_ok N F' \<and> flood_told T N F' \<and> (\<forall>j. flood_closed F j \<longrightarrow> flood_closed F' j)"
  using assms
proof (induction rule: flood_run.induct)
  case (flood_snoc F ls F1 l F2)
  then have "flood_step T F1 True F2" and F1: "flood_ok N F1" "flood_told T N F1" "\<forall>j. flood_closed F j \<longrightarrow> flood_closed F1 j"
    by auto
  from flood_keeps [OF this(1) F1(1,2) flood_snoc.prems(4)] flood_closed_step [OF this(1)] F1(3) show ?case by blast
qed simp

section \<open>Properties\<close>

text \<open>
  A network with packets on their way, as many as one likes but of at most 256 different
  signatures, none of which a node knows yet.
\<close>

definition traffic_start :: "u8 list set \<Rightarrow> nat set \<Rightarrow> mesh \<Rightarrow> bool" where
  "traffic_start V N M \<longleftrightarrow> mesh_inv M \<and> (\<forall>i \<in> N. \<forall>v \<in> V. \<not> holds v M i) \<and>
     (\<forall>m. m \<in># in_flight M \<longrightarrow> fst m \<in> N \<and> (\<exists>q. snd m = packet_bytes q \<and> wf_packet q \<and> hmac_sig q \<in> V))"

lemma traffic_start_inv: "traffic_start V N M \<Longrightarrow> traffic_inv V N M"
proof -
  assume s: "traffic_start V N M"
  have "room V (node_cache (mesh_nodes M i))" if "i \<in> N" for i
  proof -
    have "circ_list (node_cache (mesh_nodes M i)) = circ_list (node_cache (mesh_nodes M i)) @ []" by simp
    moreover have "set (circ_list (node_cache (mesh_nodes M i))) \<inter> V = {}"
      using s that by (auto simp: traffic_start_def holds_def)
    ultimately show ?thesis unfolding room_def by (metis distinct.simps(1) empty_subsetI list.set(1))
  qed
  with s show ?thesis unfolding traffic_start_def traffic_inv_def by blast
qed

text \<open>Two packets on their way to the first of two relays.\<close>

definition other_packet :: emergencyPacket where
  "other_packet = sample_packet\<lparr>hmac_sig := replicate SIG_LEN 9\<rparr>"

definition two_mesh :: mesh where
  "two_mesh = \<lparr>mesh_nodes = \<lambda>_. node_init, in_flight = {#(0, packet_bytes sample_packet), (0, packet_bytes other_packet)#}\<rparr>"

definition two_sigs :: "u8 list set" where
  "two_sigs = {hmac_sig sample_packet, hmac_sig other_packet}"

lemma wf_other: "wf_packet other_packet"
  by (simp add: other_packet_def wf_packet_def)

lemma other_fields: "packet_ttl other_packet = packet_ttl sample_packet"
  by (simp add: other_packet_def packet_ttl_def)

lemma other_sig_new: "hmac_sig other_packet \<notin> set (buff (node_cache node_init))"
  by (simp add: other_packet_def node_init_def zero_buffer_def HASHES_def CHARACTERS_def SIG_LEN_def)

lemma two_start: "traffic_start two_sigs {0, 1} two_mesh"
proof -
  have "mesh_inv two_mesh" by (simp add: mesh_inv_def two_mesh_def node_init_inv)
  moreover have "\<not> holds v two_mesh i" if "v \<in> two_sigs" for v i
    using that sample_sig_new other_sig_new by (auto simp: holds_def two_mesh_def two_sigs_def)
  moreover have "fst m \<in> {0, 1} \<and> (\<exists>q. snd m = packet_bytes q \<and> wf_packet q \<and> hmac_sig q \<in> two_sigs)" if "m \<in># in_flight two_mesh" for m
    using that wf_other wf_sample_packet by (auto simp: two_mesh_def two_sigs_def)
  ultimately show ?thesis unfolding traffic_start_def by blast
qed

lemma two_fit: "finite two_sigs" "card two_sigs \<le> HASHES"
  using card_insert_le_m1 [of 2 "{hmac_sig other_packet}" "hmac_sig sample_packet"]
  by (simp_all add: two_sigs_def HASHES_def)

lemma two_completes:
  obtains as M' where "mesh_run pair_topology two_mesh as M'" "lossless as" "in_flight M' = {#}"
proof -
  have "mesh_inv two_mesh" using two_start by (simp add: traffic_start_def)
  from mesh_completes [OF this] that show thesis by blast
qed

text \<open>
  Property C8. The network refines one flood per signature: while at most 256 signatures travel,
  what a run does to the packets of one signature is a run of the specification, which knows of
  no other packet. Floods do not disturb each other.
\<close>

theorem mesh_refines_floods:
  assumes "traffic_start V N M" "topology_within T N" "finite V" "card V \<le> HASHES" "mesh_run T M as M'" "v \<in> V"
  shows "\<exists>ls. flood_run T (flood_of v M) ls (flood_of v M') \<and> length ls \<le> length as \<and> (lossless as \<longrightarrow> False \<notin> set ls)"
  using traffic_run [OF assms(5) traffic_start_inv [OF assms(1)] assms(2) _ assms(6)] assms(3,4)
  by (auto simp: fits_def)

theorem mesh_refines_floods_witness:
  "\<exists>as M' ls. mesh_run pair_topology two_mesh as M' \<and>
     flood_run pair_topology (flood_of (hmac_sig other_packet) two_mesh) ls (flood_of (hmac_sig other_packet) M') \<and> False \<notin> set ls"
proof -
  obtain as M' where r: "mesh_run pair_topology two_mesh as M'" "lossless as" "in_flight M' = {#}" by (rule two_completes)
  have "hmac_sig other_packet \<in> two_sigs" by (simp add: two_sigs_def)
  from mesh_refines_floods [OF two_start pair_within two_fit r(1) this] r(1,2) show ?thesis by blast
qed

text \<open>
  Property C7. Many floods at once, each reaches everyone: if no datagram is lost, at most 256
  signatures travel and every copy of a signature starts with more TTL than the network has nodes,
  then in the end every node connected to a first receiver of that signature has got it, whatever
  else the nodes relay and in whatever order all the copies arrive.
\<close>

theorem floods_reach_all:
  assumes "traffic_start V N M" "topology_within T N" "finite V" "card V \<le> HASHES" "v \<in> V"
    "\<forall>m. m \<in># in_flight M \<and> hmac_sig (packet_of m) = v \<longrightarrow> card N < packet_ttl (packet_of m)"
    "mesh_run T M as M'" "lossless as" "in_flight M' = {#}"
    "connected T {i. \<exists>m. m \<in># in_flight M \<and> fst m = i \<and> hmac_sig (packet_of m) = v} j"
  shows "holds v M' j"
proof -
  let ?F = "flood_of v M" and ?F' = "flood_of v M'"
  have "fits V" using assms(3,4) by (simp add: fits_def)
  from traffic_run [OF assms(7) traffic_start_inv [OF assms(1)] assms(2) this assms(5)] assms(8) obtain ls where
    ls: "flood_run T ?F ls ?F'" "False \<notin> set ls" by blast
  have empty: "reached ?F \<inter> N = {}" using assms(1,5) by (auto simp: traffic_start_def flood_of_def)
  have "flood_ok N ?F" "flood_told T N ?F"
    using assms(1,6) empty by (auto simp: flood_ok_def flood_told_def flood_of_def traffic_start_def)
  from flood_run_keeps [OF ls this assms(2)] have told: "flood_told T N ?F'"
    and keep: "\<And>j. flood_closed ?F j \<Longrightarrow> flood_closed ?F' j" by blast+
  have closed: "flood_closed ?F' j \<Longrightarrow> holds v M' j" for j
    using assms(9) by (simp add: flood_closed_def flood_of_def)
  from assms(10) have "j \<in> N \<and> holds v M' j"
  proof (induction rule: connected.induct)
    case (source i)
    then obtain m where m: "m \<in># in_flight M" "fst m = i" "hmac_sig (packet_of m) = v" by blast
    then have "flood_closed ?F i" by (force simp: flood_closed_def flood_of_def)
    with keep closed have "holds v M' i" by blast
    moreover have "fst m \<in> N" using m(1) assms(1) unfolding traffic_start_def by blast
    ultimately show ?case using m(2) by blast
  next
    case (hear i j)
    then have "i \<in> reached ?F' \<inter> N" by (simp add: flood_of_def)
    with hear(2) told have "flood_closed ?F' j" by (auto simp: flood_told_def)
    with closed hear assms(2) show ?case by (auto simp: topology_within_def)
  qed
  then show ?thesis ..
qed

theorem floods_reach_all_witness:
  "\<exists>as M'. mesh_run pair_topology two_mesh as M' \<and> lossless as \<and> in_flight M' = {#} \<and> holds (hmac_sig other_packet) M' 1"
proof -
  let ?v = "hmac_sig other_packet"
  obtain as M' where r: "mesh_run pair_topology two_mesh as M'" "lossless as" "in_flight M' = {#}" by (rule two_completes)
  have v: "?v \<in> two_sigs" by (simp add: two_sigs_def)
  have ttl: "\<forall>m. m \<in># in_flight two_mesh \<and> hmac_sig (packet_of m) = ?v \<longrightarrow> card {0, 1 :: nat} < packet_ttl (packet_of m)"
    by (auto simp: two_mesh_def wf_other other_fields)
  have "\<exists>m. m \<in># in_flight two_mesh \<and> fst m = 0 \<and> hmac_sig (packet_of m) = ?v"
    by (intro exI [of _ "(0, packet_bytes other_packet)"]) (simp add: two_mesh_def wf_other)
  then have "connected pair_topology {i. \<exists>m. m \<in># in_flight two_mesh \<and> fst m = i \<and> hmac_sig (packet_of m) = ?v} 1"
    by (rule_tac connected.hear [OF connected.source [of 0]]) (simp_all add: pair_neighbours)
  from floods_reach_all [OF two_start pair_within two_fit v ttl r this] r show ?thesis by blast
qed

end
