(* ===== verification/Rescue.thy ===== *)
theory Rescue
  imports SimNet Floods
begin

text \<open>
  A simulation with several victims: each runs victim.cpp with its own arguments and is heard by
  its own relays and exit nodes, while the relays and exit nodes of SimNet carry all packets at
  once. Every exit node must hand over each packet once, whatever other packets it gets.
\<close>

section \<open>Model\<close>

record rescue =
  net :: network
  talks :: "nat \<Rightarrow> sim_event list"

text \<open>Who hears the \<open>k\<close>-th victim: relays and exit nodes.\<close>

type_synonym audience = "nat \<Rightarrow> nat list \<times> nat list"

definition victim_net :: "net_topology \<Rightarrow> nat list \<times> nat list \<Rightarrow> net_topology" where
  "victim_net T h = T\<lparr>victim_relays := fst h, victim_exits := snd h\<rparr>"

definition victim_speaks :: "net_topology \<Rightarrow> audience \<Rightarrow> rescue \<Rightarrow> nat \<Rightarrow> rescue" where
  "victim_speaks T A M k =
     (let S = victim_act (victim_net T (A k)) ((net M)\<lparr>victim_part := talks M k\<rparr>)
      in \<lparr>net = S\<lparr>victim_part := []\<rparr>, talks = (talks M)(k := victim_part S)\<rparr>)"

datatype rescue_action =
    Speaks nat
  | Carries net_action

inductive rescue_step :: "net_topology \<Rightarrow> audience \<Rightarrow> rescue \<Rightarrow> rescue_action \<Rightarrow> rescue \<Rightarrow> bool" for T A where
  speaks: "talks M k \<noteq> [] \<Longrightarrow> rescue_step T A M (Speaks k) (victim_speaks T A M k)"
| carries: "net_step T (net M) a S \<Longrightarrow> rescue_step T A M (Carries a) (M\<lparr>net := S\<rparr>)"

inductive rescue_run :: "net_topology \<Rightarrow> audience \<Rightarrow> rescue \<Rightarrow> rescue_action list \<Rightarrow> rescue \<Rightarrow> bool" for T A where
  rescue_Nil: "rescue_run T A M [] M"
| rescue_snoc: "rescue_run T A M as M1 \<Longrightarrow> rescue_step T A M1 a M2 \<Longrightarrow> rescue_run T A M (as @ [a]) M2"

definition no_loss :: "rescue_action list \<Rightarrow> bool" where
  "no_loss as \<longleftrightarrow> (\<forall>a. Carries a \<in> set as \<longrightarrow> net_lossless [a])"

definition rescue_silent :: "rescue \<Rightarrow> bool" where
  "rescue_silent M \<longleftrightarrow> net_silent (net M) \<and> (\<forall>k. talks M k = [])"

text \<open>
  The start: nothing is on its way, and no node has seen a packet of the victims \<open>K\<close>; victim
  \<open>k\<close> is going to broadcast \<open>pk k\<close>.
\<close>

definition rescue_start :: "nat set \<Rightarrow> nat set \<Rightarrow> (nat \<Rightarrow> emergencyPacket) \<Rightarrow> rescue \<Rightarrow> bool" where
  "rescue_start N K pk M \<longleftrightarrow>
     (\<forall>k sa port bs. Broadcast sa port bs \<in> set (talks M k) \<longrightarrow> k \<in> K \<and> bs = packet_bytes (pk k)) \<and>
     victim_part (net M) = [] \<and> mesh_inv (relay_part (net M)) \<and>
     in_flight (relay_part (net M)) = {#} \<and> exit_flight (net M) = {#} \<and>
     (\<forall>k \<in> K. \<forall>i \<in> N. \<not> holds (hmac_sig (pk k)) (relay_part (net M)) i) \<and>
     (\<forall>e. exit_inv (exit_part (net M) e) \<and> exit_log (net M) e = [] \<and>
        (\<forall>k \<in> K. hmac_sig (pk k) \<notin> set (buff (exit_cache (exit_part (net M) e)))))"

definition rescue_within :: "net_topology \<Rightarrow> audience \<Rightarrow> nat set \<Rightarrow> bool" where
  "rescue_within T A N \<longleftrightarrow> topology_within (relay_topology T) N \<and> (\<forall>k. set (fst (A k)) \<subseteq> N)"

text \<open>At most 256 packets, told apart by their signatures.\<close>

definition crowd :: "emergencyPacket set \<Rightarrow> bool" where
  "crowd P \<longleftrightarrow> finite P \<and> card P \<le> HASHES \<and> (\<forall>p \<in> P. wf_packet p) \<and> inj_on hmac_sig P"

section \<open>Invariant\<close>

definition carried :: "emergencyPacket set \<Rightarrow> (nat \<times> u8 list) multiset \<Rightarrow> bool" where
  "carried P F \<longleftrightarrow> (\<forall>m. m \<in># F \<longrightarrow> (\<exists>p \<in> P. copy_of p (snd m)))"

definition exits_ok :: "emergencyPacket set \<Rightarrow> network \<Rightarrow> bool" where
  "exits_ok P S \<longleftrightarrow> (\<forall>e. exit_inv (exit_part S e) \<and> room (hmac_sig ` P) (exit_cache (exit_part S e)) \<and>
     (\<forall>p \<in> P. exit_ok p (exit_part S e) (exit_log S e)))"

definition rescue_inv :: "nat set \<Rightarrow> nat set \<Rightarrow> (nat \<Rightarrow> emergencyPacket) \<Rightarrow> rescue \<Rightarrow> bool" where
  "rescue_inv N K pk M \<longleftrightarrow> traffic_inv (hmac_sig ` pk ` K) N (relay_part (net M)) \<and>
     carried (pk ` K) (in_flight (relay_part (net M))) \<and> carried (pk ` K) (exit_flight (net M)) \<and>
     exits_ok (pk ` K) (net M) \<and> victim_part (net M) = [] \<and>
     (\<forall>k sa port bs. Broadcast sa port bs \<in> set (talks M k) \<longrightarrow> k \<in> K \<and> bs = packet_bytes (pk k))"

lemma crowd_fits: "crowd P \<Longrightarrow> fits (hmac_sig ` P)"
  by (simp add: crowd_def fits_def card_image)

lemma room_start: "set (buff c) \<inter> V = {} \<Longrightarrow> room V c"
  unfolding room_def by (intro exI [of _ "circ_list c"] exI [of _ "[]"]) simp

lemma rescue_start_inv:
  assumes "rescue_start N K pk M"
  shows "rescue_inv N K pk M"
proof -
  have "traffic_start (hmac_sig ` pk ` K) N (relay_part (net M))"
    using assms by (simp add: rescue_start_def traffic_start_def)
  moreover have "room (hmac_sig ` pk ` K) (exit_cache (exit_part (net M) e))" for e
    by (rule room_start) (use assms in \<open>auto simp: rescue_start_def\<close>)
  ultimately show ?thesis using assms
    by (auto simp: rescue_inv_def rescue_start_def carried_def exits_ok_def exit_ok_def traffic_start_inv)
qed

lemma carried_add [simp]: "carried P (F + G) \<longleftrightarrow> carried P F \<and> carried P G"
  by (auto simp: carried_def)

lemma carried_diff: "carried P F \<Longrightarrow> carried P (F - G)"
  by (auto simp: carried_def dest: in_diffD)

lemma carried_map: "(\<exists>p \<in> P. copy_of p bs) \<Longrightarrow> carried P (mset (map (\<lambda>j. (j, bs)) js))"
  by (auto simp: carried_def)

text \<open>What a relay sends when it gets a copy of \<open>q\<close>.\<close>

definition passed_on :: "bool \<Rightarrow> emergencyPacket \<Rightarrow> nat list \<Rightarrow> (nat \<times> u8 list) multiset" where
  "passed_on known q js = (if known then {#}
     else case hop_packet q of None \<Rightarrow> {#} | Some q' \<Rightarrow> mset (map (\<lambda>j. (j, packet_bytes q')) js))"

lemma relay_gets:
  assumes "node_inv (mesh_nodes (relay_part S) i)" "wf_packet q"
  shows "node_cache (mesh_nodes (mesh_deliver (relay_topology T) (relay_part S) i (packet_bytes q)) j) =
      (if j = i then put_sig (node_cache (mesh_nodes (relay_part S) i)) (hmac_sig q) else node_cache (mesh_nodes (relay_part S) j))"
    "in_flight (mesh_deliver (relay_topology T) (relay_part S) i (packet_bytes q)) = in_flight (relay_part S) - {#(i, packet_bytes q)#} +
       passed_on (holds (hmac_sig q) (relay_part S) i) q (neighbours (relay_topology T) i)"
    "exit_flight (relay_get T S i (packet_bytes q)) = exit_flight S +
       passed_on (holds (hmac_sig q) (relay_part S) i) q (neighbours (exit_view T) i)"
proof -
  have ifs: "node_ifs (exit_view T) = node_ifs (relay_topology T)" by (simp add: exit_view_def)
  show "node_cache (mesh_nodes (mesh_deliver (relay_topology T) (relay_part S) i (packet_bytes q)) j) =
      (if j = i then put_sig (node_cache (mesh_nodes (relay_part S) i)) (hmac_sig q) else node_cache (mesh_nodes (relay_part S) j))"
    and "in_flight (mesh_deliver (relay_topology T) (relay_part S) i (packet_bytes q)) = in_flight (relay_part S) - {#(i, packet_bytes q)#} +
       passed_on (holds (hmac_sig q) (relay_part S) i) q (neighbours (relay_topology T) i)"
    using deliver_packet [OF assms, of "relay_topology T"] by (simp_all add: passed_on_def)
  from deliver_packet(2) [OF assms, of "exit_view T"]
  have "deliveries (exit_view T) (snd (node_step (Some (node_ifs (relay_topology T) i)) (mesh_nodes (relay_part S) i) (Some (packet_bytes q)))) =
      passed_on (holds (hmac_sig q) (relay_part S) i) q (neighbours (exit_view T) i)"
    by (simp add: mesh_deliver_flight ifs passed_on_def)
  then show "exit_flight (relay_get T S i (packet_bytes q)) = exit_flight S +
       passed_on (holds (hmac_sig q) (relay_part S) i) q (neighbours (exit_view T) i)"
    by (simp add: relay_get_def Let_def)
qed

lemma carried_passed_on:
  assumes "\<exists>p \<in> P. copy_of p (packet_bytes q)" "wf_packet q"
  shows "carried P (passed_on known q js)"
proof (cases "known \<or> hop_packet q = None")
  case True
  then show ?thesis by (auto simp: passed_on_def carried_def)
next
  case False
  then obtain q' where q': "hop_packet q = Some q'" by auto
  from assms(1) obtain p where p: "p \<in> P" "copy_of p (packet_bytes q)" by blast
  then obtain r where r: "packet_bytes q = packet_bytes r" "wf_packet r" "packet_core r = packet_core p"
    by (auto simp: copy_of_def)
  have "q = r" using r(1,2) assms(2) by (metis bytes_packet_bytes)
  with hop_packet_Some [OF q'] r p(1) have "\<exists>p \<in> P. copy_of p (packet_bytes q')" by (auto simp: copy_of_def)
  with False q' show ?thesis by (simp add: passed_on_def carried_map del: mset_map)
qed

text \<open>An exit node that gets a copy of a packet of the crowd: only that packet's account changes.\<close>

lemma exits_ok_get:
  assumes "exits_ok P S" "crowd P" "p \<in> P" "copy_of p bs"
  shows "exits_ok P (exit_get S e bs) \<and>
    (\<forall>v \<in> hmac_sig ` P. \<forall>f. exit_has v (exit_get S e bs) f \<longleftrightarrow> exit_has v S f \<or> f = e \<and> v = hmac_sig p)"
proof -
  let ?x = "exit_part S e" and ?V = "hmac_sig ` P"
  let ?r = "exit_step ?x (Some bs)"
  from assms(4) obtain q where q: "bs = packet_bytes q" "wf_packet q" "packet_core q = packet_core p"
    by (auto simp: copy_of_def)
  have ok: "exit_inv ?x" "room ?V (exit_cache ?x)" and acc: "\<And>p. p \<in> P \<Longrightarrow> exit_ok p ?x (exit_log S e)"
    using assms(1) by (simp_all add: exits_ok_def)
  have wf: "wf_buffer (exit_cache ?x)" "wf_packet (exit_packet ?x)" using ok(1) by (simp_all add: exit_inv_def)
  have sig: "hmac_sig q = hmac_sig p" using packet_core_eqs [OF q(3)] by simp
  have recv: "recv_into (exit_packet ?x) (Some bs) = q" using wf(2) q(1,2) by (simp add: recv_packet)
  have wp: "wf_sig (hmac_sig p)" using q(2) sig by (metis wf_sig_packet)
  have "exit_cache (fst ?r) = put_sig (exit_cache ?x) (hmac_sig p) \<and> hmac_sig (exit_packet (fst ?r)) = hmac_sig p"
    using ok(1)
  proof (cases rule: exit_step_cases [where d = "Some bs"])
    case (Old row)
    then show ?thesis using put_sig_known [OF wf(1) wp] by (simp add: recv sig)
  next
    case New
    then show ?thesis by (simp add: recv sig)
  qed
  then have cache: "exit_cache (fst ?r) = put_sig (exit_cache ?x) (hmac_sig p)"
    and log: "hmac_sig (exit_packet (fst ?r)) = hmac_sig p" by simp_all
  have fit: "finite ?V" "card ?V \<le> HASHES" using crowd_fits [OF assms(2)] by (simp_all add: fits_def)
  have pV: "hmac_sig p \<in> ?V" using assms(3) by simp
  note rp = room_put [OF wf(1) wp pV fit ok(2)]
  have "exit_ok p' (fst ?r) (exit_log S e @ [(exit_packet (fst ?r), snd ?r)])" if p': "p' \<in> P" for p'
  proof (cases "p' = p")
    case True
    with exit_ok_step [OF acc [OF assms(3)] assms(4)] show ?thesis by simp
  next
    case False
    with p' assms(2,3) have ne: "hmac_sig p' \<noteq> hmac_sig p" by (auto simp: crowd_def dest: inj_onD)
    have "hmac_sig p' \<in> set (buff (exit_cache (fst ?r))) \<longleftrightarrow> hmac_sig p' \<in> set (buff (exit_cache ?x))"
      using rp p' ne by (simp add: cache)
    with acc [OF p'] exit_step_inv [OF ok(1), of "Some bs"] log ne show ?thesis
      by (simp add: exit_ok_def delivers_def)
  qed
  moreover have "exit_inv (fst ?r)" "room ?V (exit_cache (fst ?r))"
    using exit_step_inv [OF ok(1), of "Some bs"] rp by (simp_all add: cache)
  ultimately have "exits_ok P (exit_get S e bs)"
    using assms(1) by (simp add: exits_ok_def exit_get_def split_beta)
  moreover have "exit_has v (exit_get S e bs) f \<longleftrightarrow> exit_has v S f \<or> f = e \<and> v = hmac_sig p" if "v \<in> ?V" for v f
    using rp that by (auto simp: exit_has_def exit_get_def split_beta cache)
  ultimately show ?thesis by blast
qed

lemma victim_speaks_simps [simp]:
  "victim_part (net (victim_speaks T A M k)) = []" "exit_part (net (victim_speaks T A M k)) = exit_part (net M)"
  "exit_log (net (victim_speaks T A M k)) = exit_log (net M)"
  "mesh_nodes (relay_part (net (victim_speaks T A M k))) = mesh_nodes (relay_part (net M))"
  "talks (victim_speaks T A M k) = (talks M)(k := tl (talks M k))"
  by (auto simp: victim_speaks_def victim_act_def Let_def fun_eq_iff split: list.split sim_event.split)

text \<open>What a victim sends.\<close>

definition said :: "sim_event list \<Rightarrow> nat list \<Rightarrow> (nat \<times> u8 list) multiset" where
  "said evs js = (case evs of Broadcast sa port bs # _ \<Rightarrow> mset (map (\<lambda>j. (j, bs)) js) | _ \<Rightarrow> {#})"

lemma victim_speaks_flight:
  "in_flight (relay_part (net (victim_speaks T A M k))) = in_flight (relay_part (net M)) + said (talks M k) (fst (A k))"
  "exit_flight (net (victim_speaks T A M k)) = exit_flight (net M) + said (talks M k) (snd (A k))"
  by (simp_all add: victim_speaks_def victim_act_def victim_net_def said_def Let_def split: list.split sim_event.split)

lemma said_packet:
  assumes "\<forall>sa port bs. Broadcast sa port bs \<in> set evs \<longrightarrow> k \<in> K \<and> bs = packet_bytes (pk k)"
  shows "said evs js = {#} \<or> k \<in> K \<and> said evs js = mset (map (\<lambda>j. (j, packet_bytes (pk k))) js)"
  using assms by (cases evs) (auto simp: said_def split: sim_event.split)

lemma rescue_inv_speaks:
  assumes "rescue_inv N K pk M" "crowd (pk ` K)" "rescue_within T A N"
  shows "rescue_inv N K pk (victim_speaks T A M k)"
proof -
  let ?M = "victim_speaks T A M k" and ?V = "hmac_sig ` pk ` K"
  have b: "\<And>k sa port bs. Broadcast sa port bs \<in> set (talks M k) \<Longrightarrow> k \<in> K \<and> bs = packet_bytes (pk k)"
    using assms(1) unfolding rescue_inv_def by blast
  have own: "wf_packet (pk k)" "hmac_sig (pk k) \<in> ?V" "\<exists>p \<in> pk ` K. copy_of p (packet_bytes (pk k))" if "k \<in> K"
    using that assms(2) by (auto simp: crowd_def copy_of_def)
  have s: "said (talks M k) js = {#} \<or> k \<in> K \<and> said (talks M k) js = mset (map (\<lambda>j. (j, packet_bytes (pk k))) js)" for js
    using b by (intro said_packet) blast
  have c: "carried (pk ` K) (said (talks M k) js)" for js
    using s [of js]
  proof
    assume "k \<in> K \<and> said (talks M k) js = mset (map (\<lambda>j. (j, packet_bytes (pk k))) js)"
    with own(3) show ?thesis by (simp add: carried_map del: mset_map)
  qed (simp add: carried_def)
  have "fst m \<in> N \<and> (\<exists>q. snd m = packet_bytes q \<and> wf_packet q \<and> hmac_sig q \<in> ?V)" if "m \<in># said (talks M k) (fst (A k))" for m
  proof -
    from s [of "fst (A k)"] that have k: "k \<in> K" "fst m \<in> set (fst (A k))" "snd m = packet_bytes (pk k)" by auto
    then have "fst m \<in> N" using assms(3) unfolding rescue_within_def by blast
    with k own(1,2) [OF k(1)] show ?thesis by auto
  qed
  then have "traffic_inv ?V N (relay_part (net ?M))"
    using assms(1) by (auto simp: rescue_inv_def traffic_inv_def mesh_inv_def victim_speaks_flight)
  moreover have "k' \<in> K \<and> bs = packet_bytes (pk k')" if "Broadcast sa port bs \<in> set (talks ?M k')" for k' sa port bs
    using that b by (auto split: if_splits dest: list.set_sel(2) [rotated]) (metis list.set_sel(2) empty_iff list.set(1) tl_Nil)+
  ultimately show ?thesis
    using assms(1) c by (simp add: rescue_inv_def victim_speaks_flight exits_ok_def)
qed

lemma rescue_inv_relay:
  assumes "rescue_inv N K pk M" "crowd (pk ` K)" "rescue_within T A N" "(i, bs) \<in># in_flight (relay_part (net M))"
  shows "rescue_inv N K pk (M\<lparr>net := relay_get T (net M) i bs\<rparr>)"
proof (cases "pk ` K = {}")
  case True
  with assms(1,4) show ?thesis by (auto simp: rescue_inv_def carried_def)
next
  case False
  let ?S = "net M" and ?V = "hmac_sig ` pk ` K"
  have inv: "traffic_inv ?V N (relay_part ?S)" "carried (pk ` K) (in_flight (relay_part ?S))" using assms(1) by (simp_all add: rescue_inv_def)
  from False obtain v where v: "v \<in> ?V" by auto
  have w: "topology_within (relay_topology T) N" using assms(3) by (simp add: rescue_within_def)
  from inv(1) assms(4) obtain q where q: "bs = packet_bytes q" "wf_packet q" unfolding traffic_inv_def by fastforce
  have n: "node_inv (mesh_nodes (relay_part ?S) i)" using inv(1) by (simp add: traffic_inv_def mesh_inv_def)
  have "\<exists>p \<in> pk ` K. copy_of p (packet_bytes q)" using inv(2) assms(4) q(1) by (auto simp: carried_def)
  from carried_passed_on [OF this q(2)] have c: "carried (pk ` K) (passed_on known q js)" for known js .
  have "traffic_inv ?V N (relay_part (relay_get T ?S i bs))"
    using traffic_deliver [OF inv(1) w crowd_fits [OF assms(2)] assms(4) v] by simp
  with assms(1) c inv(2) show ?thesis
    by (simp add: rescue_inv_def q(1) relay_gets(2,3) [OF n q(2)] carried_diff exits_ok_def)
qed

lemma rescue_inv_step:
  assumes "rescue_inv N K pk M" "crowd (pk ` K)" "rescue_within T A N" "rescue_step T A M a M'"
  shows "rescue_inv N K pk M'"
  using assms(4)
proof cases
  case (speaks k)
  with rescue_inv_speaks [OF assms(1-3)] show ?thesis by simp
next
  case (carries a S)
  from carries(3) show ?thesis
  proof cases
    case victim
    with assms(1) show ?thesis by (simp add: rescue_inv_def)
  next
    case (relay i bs)
    with rescue_inv_relay [OF assms(1-3)] carries(2) show ?thesis by simp
  next
    case (exit e bs)
    have "carried (pk ` K) (exit_flight (net M))" using assms(1) by (simp add: rescue_inv_def)
    with exit(3) obtain p where p: "p \<in> pk ` K" "copy_of p bs" unfolding carried_def by fastforce
    have "exits_ok (pk ` K) (net M)" using assms(1) by (simp add: rescue_inv_def)
    from exits_ok_get [OF this assms(2) p] assms(1) show ?thesis
      by (simp add: carries(2) exit(2) rescue_inv_def) (simp add: exit_get_def split_beta carried_diff)
  next
    case (relay_miss i bs)
    have "traffic_inv (hmac_sig ` pk ` K) N (relay_part (net M))" using assms(1) by (simp add: rescue_inv_def)
    from traffic_lose [OF this relay_miss(3)] assms(1) show ?thesis
      by (simp add: carries(2) relay_miss(2) rescue_inv_def exits_ok_def carried_diff)
  next
    case (exit_miss e bs)
    with assms(1) show ?thesis by (simp add: carries(2) rescue_inv_def exits_ok_def carried_diff)
  qed
qed

lemma rescue_run_inv:
  "rescue_run T A M as M' \<Longrightarrow> rescue_inv N K pk M \<Longrightarrow> crowd (pk ` K) \<Longrightarrow> rescue_within T A N \<Longrightarrow> rescue_inv N K pk M'"
  by (induction rule: rescue_run.induct) (auto intro: rescue_inv_step)


section \<open>Nothing gets lost\<close>

text \<open>An exit node has the signature \<open>v\<close>, or a copy of that signature is on its way to it.\<close>

definition exit_reached :: "u8 list \<Rightarrow> network \<Rightarrow> nat \<Rightarrow> bool" where
  "exit_reached v S e \<longleftrightarrow> exit_has v S e \<or> (\<exists>m. m \<in># exit_flight S \<and> fst m = e \<and> hmac_sig (packet_of m) = v)"

definition relay_reached :: "u8 list \<Rightarrow> network \<Rightarrow> nat \<Rightarrow> bool" where
  "relay_reached v S j \<longleftrightarrow> flood_closed (flood_of v (relay_part S)) j"

lemma relay_reached_iff:
  "relay_reached v S j \<longleftrightarrow> holds v (relay_part S) j \<or>
     (\<exists>m. m \<in># in_flight (relay_part S) \<and> fst m = j \<and> hmac_sig (packet_of m) = v)"
  by (force simp: relay_reached_def flood_closed_def flood_of_def)

definition reach_kept :: "u8 list \<Rightarrow> network \<Rightarrow> network \<Rightarrow> bool" where
  "reach_kept v S S' \<longleftrightarrow> (\<forall>j. relay_reached v S j \<longrightarrow> relay_reached v S' j) \<and> (\<forall>e. exit_reached v S e \<longrightarrow> exit_reached v S' e)"

definition relays_told :: "net_topology \<Rightarrow> nat set \<Rightarrow> u8 list \<Rightarrow> network \<Rightarrow> bool" where
  "relays_told T N v S \<longleftrightarrow> flood_ok N (flood_of v (relay_part S)) \<and> flood_told (relay_topology T) N (flood_of v (relay_part S)) \<and>
     (\<forall>i \<in> N. holds v (relay_part S) i \<longrightarrow> (\<forall>e \<in> set (neighbours (exit_view T) i). exit_reached v S e))"

definition audience_told :: "audience \<Rightarrow> u8 list \<Rightarrow> rescue \<Rightarrow> nat \<Rightarrow> bool" where
  "audience_told A v M k \<longleftrightarrow> (\<exists>sa port bs. Broadcast sa port bs \<in> set (talks M k)) \<or>
     (\<forall>j \<in> set (fst (A k)). relay_reached v (net M) j) \<and> (\<forall>e \<in> set (snd (A k)). exit_reached v (net M) e)"

definition word_spread :: "net_topology \<Rightarrow> audience \<Rightarrow> nat set \<Rightarrow> nat set \<Rightarrow> (nat \<Rightarrow> emergencyPacket) \<Rightarrow> u8 list \<Rightarrow> rescue \<Rightarrow> bool" where
  "word_spread T A N K pk v M \<longleftrightarrow> relays_told T N v (net M) \<and> (\<forall>k \<in> K. hmac_sig (pk k) = v \<longrightarrow> audience_told A v M k)"

lemma copies_iff:
  "(i, t) \<in># copies_to (flood_of v M) \<longleftrightarrow>
     (\<exists>bs. (i, bs) \<in># in_flight M \<and> t = packet_ttl (packet_of (i, bs)) \<and> hmac_sig (packet_of (i, bs)) = v)"
  by (force simp: flood_of_def)

lemma audience_kept:
  "audience_told A v M k \<Longrightarrow> talks M' k = talks M k \<Longrightarrow> reach_kept v (net M) (net M') \<Longrightarrow> audience_told A v M' k"
  unfolding audience_told_def reach_kept_def by metis

lemma relays_told_kept:
  assumes "relays_told T N v S" "reach_kept v S S'" "\<And>i. holds v (relay_part S') i \<longleftrightarrow> holds v (relay_part S) i"
    "flood_ok N (flood_of v (relay_part S'))"
  shows "relays_told T N v S'"
  using assms unfolding relays_told_def flood_told_def reach_kept_def relay_reached_def by (simp add: flood_of_def)

lemma spread_speaks:
  assumes "word_spread T A N K pk v M" "rescue_inv N K pk M" "crowd (pk ` K)" "rescue_within T A N"
    "\<forall>k \<in> K. card N < packet_ttl (pk k)"
  shows "word_spread T A N K pk v (victim_speaks T A M k)"
proof -
  let ?M = "victim_speaks T A M k"
  have h: "holds v (relay_part (net ?M)) i \<longleftrightarrow> holds v (relay_part (net M)) i" for i by (simp add: holds_def)
  have kept: "reach_kept v (net M) (net ?M)"
    by (auto simp: reach_kept_def relay_reached_iff exit_reached_def exit_has_def h victim_speaks_flight)
  have b: "\<forall>sa port bs. Broadcast sa port bs \<in> set (talks M k) \<longrightarrow> k \<in> K \<and> bs = packet_bytes (pk k)"
    using assms(2) unfolding rescue_inv_def by blast
  have ok: "flood_ok N (flood_of v (relay_part (net M)))" using assms(1) by (simp add: word_spread_def relays_told_def)
  have "i \<in> N \<and> card N < t + card (reached (flood_of v (relay_part (net ?M))) \<inter> N)"
    if m: "(i, t) \<in># copies_to (flood_of v (relay_part (net ?M)))" for i t
  proof -
    have r: "reached (flood_of v (relay_part (net ?M))) = reached (flood_of v (relay_part (net M)))"
      by (simp add: flood_of_def h)
    from m obtain bs where bs: "(i, bs) \<in># in_flight (relay_part (net M)) + said (talks M k) (fst (A k))"
      "t = packet_ttl (packet_of (i, bs))" "hmac_sig (packet_of (i, bs)) = v"
      unfolding copies_iff victim_speaks_flight by blast
    show ?thesis
    proof (cases "(i, bs) \<in># in_flight (relay_part (net M))")
      case True
      with bs have "(i, t) \<in># copies_to (flood_of v (relay_part (net M)))" unfolding copies_iff by blast
      with ok r show ?thesis by (auto simp: flood_ok_def)
    next
      case False
      with bs(1) have "(i, bs) \<in># said (talks M k) (fst (A k))" by simp
      with said_packet [where pk = pk, OF b, of "fst (A k)"] have k: "k \<in> K" "i \<in> set (fst (A k))" "bs = packet_bytes (pk k)" by auto
      have "wf_packet (pk k)" using assms(3) k(1) by (simp add: crowd_def)
      with bs(2) k(3) have "t = packet_ttl (pk k)" by simp
      with assms(4,5) k(1,2) show ?thesis by (auto simp: rescue_within_def)
    qed
  qed
  then have ok': "flood_ok N (flood_of v (relay_part (net ?M)))" by (simp add: flood_ok_def)
  have "audience_told A v ?M k'" if k': "k' \<in> K" "hmac_sig (pk k') = v" for k'
  proof (cases "k' = k \<and> (\<exists>sa port bs evs. talks M k = Broadcast sa port bs # evs)")
    case True
    then obtain sa port bs evs where t: "talks M k = Broadcast sa port bs # evs" by blast
    with b have bs: "bs = packet_bytes (pk k)" by simp
    have wf: "wf_packet (pk k)" using assms(3) k'(1) True by (simp add: crowd_def)
    have p: "(j, packet_bytes (pk k)) \<in># said (talks M k) js" if "j \<in> set js" for j js
      using that by (simp add: said_def t bs)
    have "relay_reached v (net ?M) j" if "j \<in> set (fst (A k))" for j
      unfolding relay_reached_iff victim_speaks_flight
      by (rule disjI2, rule exI [of _ "(j, packet_bytes (pk k))"]) (use p [OF that] wf k'(2) True in simp)
    moreover have "exit_reached v (net ?M) e" if "e \<in> set (snd (A k))" for e
      unfolding exit_reached_def victim_speaks_flight
      by (rule disjI2, rule exI [of _ "(e, packet_bytes (pk k))"]) (use p [OF that] wf k'(2) True in simp)
    ultimately show ?thesis using True by (simp add: audience_told_def)
  next
    case False
    have old: "audience_told A v M k'" using assms(1) k' by (simp add: word_spread_def)
    have "Broadcast sa port bs \<in> set (talks M k') \<Longrightarrow> Broadcast sa port bs \<in> set (talks ?M k')" for sa port bs
      using False by (cases "talks M k") auto
    with old kept show ?thesis unfolding audience_told_def reach_kept_def by blast
  qed
  moreover have "relays_told T N v (net ?M)"
    by (rule relays_told_kept [OF _ kept h ok']) (use assms(1) in \<open>simp add: word_spread_def\<close>)
  ultimately show ?thesis by (simp add: word_spread_def)
qed


lemma exit_get_keeps_reach:
  assumes "exits_ok P S" "crowd P" "p \<in> P" "copy_of p bs" "v \<in> hmac_sig ` P" "(e, bs) \<in># exit_flight S"
  shows "reach_kept v S (exit_get S e bs)"
proof -
  let ?S = "exit_get S e bs"
  have has: "exit_has v ?S f \<longleftrightarrow> exit_has v S f \<or> f = e \<and> v = hmac_sig p" for f
    using exits_ok_get [OF assms(1-4), of e] assms(5) by blast
  have fl: "exit_flight ?S = exit_flight S - {#(e, bs)#}" "relay_part ?S = relay_part S"
    by (simp_all add: exit_get_def split_beta)
  from assms(4) obtain q where "bs = packet_bytes q" "wf_packet q" "packet_core q = packet_core p"
    by (auto simp: copy_of_def)
  then have sig: "hmac_sig (packet_of (e, bs)) = hmac_sig p" using packet_core_eqs [of q p] by simp
  have "exit_reached v ?S f" if r: "exit_reached v S f" for f
  proof (cases "exit_has v ?S f")
    case False
    with r has obtain m where m: "m \<in># exit_flight S" "fst m = f" "hmac_sig (packet_of m) = v"
      by (auto simp: exit_reached_def)
    have "m \<noteq> (e, bs)"
    proof
      assume "m = (e, bs)"
      with m(2,3) sig have "f = e" "v = hmac_sig p" by simp_all
      with has [of f] False show False by blast
    qed
    with m(1) have "m \<in># exit_flight ?S" by (simp add: fl in_diff_count)
    with m(2,3) show ?thesis unfolding exit_reached_def by blast
  qed (simp add: exit_reached_def)
  then show ?thesis by (simp add: reach_kept_def relay_reached_def fl)
qed

lemma relay_get_keeps_reach:
  assumes "rescue_inv N K pk M" "crowd (pk ` K)" "rescue_within T A N" "v \<in> hmac_sig ` pk ` K"
    "(i, bs) \<in># in_flight (relay_part (net M))" "relays_told T N v (net M)"
  shows "reach_kept v (net M) (relay_get T (net M) i bs) \<and> relays_told T N v (relay_get T (net M) i bs)"
proof -
  let ?S = "net M" and ?V = "hmac_sig ` pk ` K"
  let ?S' = "relay_get T ?S i bs" and ?F = "flood_of v (relay_part (net M))"
  let ?F' = "flood_of v (relay_part ?S')"
  have inv: "traffic_inv ?V N (relay_part ?S)" using assms(1) by (simp add: rescue_inv_def)
  have w: "topology_within (relay_topology T) N" using assms(3) by (simp add: rescue_within_def)
  from inv assms(5) obtain q where q: "i \<in> N" "bs = packet_bytes q" "wf_packet q" unfolding traffic_inv_def by fastforce
  have n: "node_inv (mesh_nodes (relay_part ?S) i)" using inv by (simp add: traffic_inv_def mesh_inv_def)
  have told: "flood_ok N ?F" "flood_told (relay_topology T) N ?F" using assms(6) by (simp_all add: relays_told_def)
  have st: "?F' = ?F \<or> flood_step (relay_topology T) ?F True ?F'"
    using traffic_deliver [OF inv w crowd_fits [OF assms(2)] assms(5,4)] by simp
  have fl: "flood_ok N ?F' \<and> flood_told (relay_topology T) N ?F'"
    using st flood_keeps [OF _ told w] told by auto
  have rr: "relay_reached v ?S' j" if "relay_reached v ?S j" for j
    using st
  proof
    assume "?F' = ?F"
    with that show ?thesis by (simp only: relay_reached_def)
  next
    assume "flood_step (relay_topology T) ?F True ?F'"
    from flood_closed_step [OF this] that show ?thesis by (simp only: relay_reached_def)
  qed
  have ef: "exit_flight ?S' = exit_flight ?S + passed_on (holds (hmac_sig q) (relay_part ?S) i) q (neighbours (exit_view T) i)"
    using relay_gets(3) [OF n q(3), of T] q(2) by simp
  have er: "exit_reached v ?S e \<Longrightarrow> exit_reached v ?S' e" for e
    by (auto simp: exit_reached_def exit_has_def ef)
  have "exit_reached v ?S' e" if j: "j \<in> N" "holds v (relay_part ?S') j" "e \<in> set (neighbours (exit_view T) j)" for j e
  proof (cases "holds v (relay_part ?S) j")
    case True
    with j assms(6) er show ?thesis by (auto simp: relays_told_def)
  next
    case False
    have wf: "wf_buffer (node_cache (mesh_nodes (relay_part ?S) i))" "wf_sig (hmac_sig q)"
      using n q(3) by (simp_all add: node_inv_def)
    have rm: "room ?V (node_cache (mesh_nodes (relay_part ?S) i))" using inv q(1) by (simp add: traffic_inv_def)
    have qV: "hmac_sig q \<in> ?V" using inv assms(5) q(2,3) unfolding traffic_inv_def
      by (metis bytes_packet_bytes snd_conv)
    have "finite ?V" "card ?V \<le> HASHES" using crowd_fits [OF assms(2)] by (simp_all add: fits_def)
    from room_put [OF wf qV this rm] assms(4) False j(2) have ij: "j = i" "v = hmac_sig q"
      by (auto simp: holds_def relay_gets(1) [OF n q(3), of T] q(2) split: if_splits)
    have "packet_ttl q = packet_ttl (packet_of (i, bs))" using q(2,3) by simp
    then have "(i, packet_ttl q) \<in># copies_to ?F"
      unfolding copies_iff using assms(5) q(2,3) ij(2) by (intro exI [of _ bs]) simp
    with told(1) have "card N < packet_ttl q + card (reached ?F \<inter> N)" by (auto simp: flood_ok_def)
    moreover have "card (reached ?F \<inter> N) < card N"
      using False ij(1) q(1) w by (intro psubset_card_mono) (auto simp: flood_of_def topology_within_def)
    ultimately have "1 < packet_ttl q" by linarith
    then obtain q' where q': "hop_packet q = Some q'" using hop_packet_None [of q] by auto
    with hop_packet_Some [OF q'] q(3) have "wf_packet q'" "hmac_sig q' = v" using ij(2) by simp_all
    moreover have "(e, packet_bytes q') \<in># exit_flight ?S'"
      using j(3) False ij q' by (simp add: ef passed_on_def)
    ultimately show ?thesis by (auto simp: exit_reached_def intro!: exI [of _ "(e, packet_bytes q')"])
  qed
  with fl rr er show ?thesis by (auto simp: reach_kept_def relays_told_def)
qed

lemma spread_step:
  assumes "word_spread T A N K pk v M" "rescue_inv N K pk M" "crowd (pk ` K)" "rescue_within T A N"
    "\<forall>k \<in> K. card N < packet_ttl (pk k)" "v \<in> hmac_sig ` pk ` K" "rescue_step T A M a M'" "no_loss [a]"
  shows "word_spread T A N K pk v M'"
  using assms(7)
proof cases
  case (speaks k)
  with spread_speaks [OF assms(1-5)] show ?thesis by simp
next
  case (carries a S)
  have told: "relays_told T N v (net M)" using assms(1) by (simp add: word_spread_def)
  have next_state: "word_spread T A N K pk v M'" if "reach_kept v (net M) S" "relays_told T N v S"
    using that assms(1) audience_kept [of A v M _ M'] by (auto simp: word_spread_def carries(2))
  from carries(3) show ?thesis
  proof cases
    case victim
    with assms(2) show ?thesis by (simp add: rescue_inv_def)
  next
    case (relay i bs)
    with relay_get_keeps_reach [OF assms(2,3,4,6) _ told] next_state show ?thesis by blast
  next
    case (exit e bs)
    have ok: "exits_ok (pk ` K) (net M)" and c: "carried (pk ` K) (exit_flight (net M))"
      using assms(2) by (simp_all add: rescue_inv_def)
    from c exit(3) obtain p where p: "p \<in> pk ` K" "copy_of p bs" unfolding carried_def by fastforce
    have k: "reach_kept v (net M) S" using exit_get_keeps_reach [OF ok assms(3) p assms(6) exit(3)] exit(2) by simp
    have "relay_part S = relay_part (net M)" using exit(2) by (simp add: exit_get_def split_beta)
    with told have "relays_told T N v S" by (intro relays_told_kept [OF told k]) (simp_all add: relays_told_def)
    with k show ?thesis by (rule next_state)
  qed (use assms(8) carries(1) in \<open>auto simp: no_loss_def net_lossless_def\<close>)
qed

lemma spread_run:
  assumes "rescue_run T A M as M'" "no_loss as" "word_spread T A N K pk v M" "rescue_inv N K pk M" "crowd (pk ` K)"
    "rescue_within T A N" "\<forall>k \<in> K. card N < packet_ttl (pk k)" "v \<in> hmac_sig ` pk ` K"
  shows "word_spread T A N K pk v M'"
  using assms
proof (induction rule: rescue_run.induct)
  case (rescue_snoc M as M1 a M2)
  have l: "no_loss as" "no_loss [a]" using rescue_snoc.prems(1) by (auto simp: no_loss_def)
  have inv: "rescue_inv N K pk M1" by (rule rescue_run_inv [OF rescue_snoc.hyps(1) rescue_snoc.prems(3-5)])
  have "word_spread T A N K pk v M1" by (rule rescue_snoc.IH [OF l(1) rescue_snoc.prems(2-7)])
  then show ?case by (rule spread_step [OF _ inv rescue_snoc.prems(4-7) rescue_snoc.hyps(2) l(2)])
qed simp


text \<open>A simulation ends: the victims say less and less, the copies lose TTL, the exit nodes only receive.\<close>

definition rescue_order :: "nat set \<Rightarrow> rescue rel" where
  "rescue_order K = inv_image (less_than <*lex*> mult less_than <*lex*> less_than)
     (\<lambda>M. (\<Sum>k \<in> K. length (talks M k), image_mset hops_left (in_flight (relay_part (net M))), size (exit_flight (net M))))"

lemma wf_rescue_order: "wf (rescue_order K)"
  unfolding rescue_order_def by (intro wf_inv_image wf_lex_prod wf_less_than wf_mult)

lemma rescue_step_order:
  assumes "rescue_step T A M a M'" "rescue_inv N K pk M" "finite K" "\<forall>k. k \<notin> K \<longrightarrow> talks M k = []"
  shows "(M', M) \<in> rescue_order K"
  using assms(1)
proof cases
  case (speaks k)
  then have k: "k \<in> K" using assms(4) by blast
  have "(\<Sum>j \<in> K. length (talks M' j)) < (\<Sum>j \<in> K. length (talks M j))"
    by (rule sum_strict_mono_ex1 [OF assms(3)]) (use speaks k in \<open>auto intro!: bexI [of _ k]\<close>)
  then show ?thesis by (simp add: rescue_order_def)
next
  case (carries a S)
  have m: "mesh_inv (relay_part (net M))" using assms(2) by (simp add: rescue_inv_def traffic_inv_def)
  from carries(3) show ?thesis
  proof cases
    case victim
    with assms(2) show ?thesis by (simp add: rescue_inv_def)
  next
    case (relay i bs)
    from mesh_step_decreases [OF mesh_step.deliver [OF relay(3)] m] show ?thesis
      by (simp add: rescue_order_def carries(2) relay(2))
  next
    case (exit e bs)
    from size_Diff1_less [OF exit(3)] show ?thesis
      by (simp add: rescue_order_def carries(2) exit(2) exit_get_def split_beta)
  next
    case (relay_miss i bs)
    from mesh_step_decreases [OF mesh_step.lose [OF relay_miss(3)] m] show ?thesis
      by (simp add: rescue_order_def carries(2) relay_miss(2))
  next
    case (exit_miss e bs)
    from size_Diff1_less [OF exit_miss(3)] show ?thesis
      by (simp add: rescue_order_def carries(2) exit_miss(2))
  qed
qed

lemma rescue_goes_on:
  assumes "\<not> rescue_silent M" "victim_part (net M) = []"
  shows "\<exists>a M'. rescue_step T A M a M' \<and> no_loss [a]"
proof -
  from assms consider k where "talks M k \<noteq> []" | i bs where "(i, bs) \<in># in_flight (relay_part (net M))"
    | e bs where "(e, bs) \<in># exit_flight (net M)"
    unfolding rescue_silent_def net_silent_def by (metis multiset_nonemptyE surj_pair)
  then show ?thesis
  proof cases
    case 1
    from rescue_step.speaks [OF this, of T A] show ?thesis by (auto simp: no_loss_def)
  next
    case 2
    from rescue_step.carries [OF net_step.relay [OF this]] show ?thesis by (fastforce simp: no_loss_def net_lossless_def)
  next
    case 3
    from rescue_step.carries [OF net_step.exit [OF this]] show ?thesis by (fastforce simp: no_loss_def net_lossless_def)
  qed
qed

lemma rescue_run_Cons: "rescue_run T A M1 as M2 \<Longrightarrow> rescue_step T A M a M1 \<Longrightarrow> rescue_run T A M (a # as) M2"
proof (induction rule: rescue_run.induct)
  case (rescue_Nil M1)
  from rescue_run.rescue_snoc [OF rescue_run.rescue_Nil rescue_Nil] show ?case by simp
next
  case (rescue_snoc M1 as M2 b M3)
  from rescue_run.rescue_snoc [OF rescue_snoc.IH [OF rescue_snoc.prems] rescue_snoc.hyps(2)] show ?case by simp
qed

lemma rescue_step_quiet:
  "rescue_step T A M a M' \<Longrightarrow> \<forall>k. k \<notin> K \<longrightarrow> talks M k = [] \<Longrightarrow> \<forall>k. k \<notin> K \<longrightarrow> talks M' k = []"
  by (erule rescue_step.cases) auto

lemma rescue_completes:
  assumes "rescue_inv N K pk M" "crowd (pk ` K)" "rescue_within T A N" "finite K" "\<forall>k. k \<notin> K \<longrightarrow> talks M k = []"
  shows "\<exists>as M'. rescue_run T A M as M' \<and> no_loss as \<and> rescue_silent M'"
  using assms(1,5)
proof (induction M rule: wf_induct_rule [OF wf_rescue_order [of K]])
  case (1 M)
  show ?case
  proof (cases "rescue_silent M")
    case True
    then show ?thesis using rescue_run.rescue_Nil [of T A M] by (auto simp: no_loss_def intro!: exI [of _ "[]"])
  next
    case False
    have "victim_part (net M) = []" using 1(2) by (simp add: rescue_inv_def)
    from rescue_goes_on [OF False this] obtain a M1 where st: "rescue_step T A M a M1" "no_loss [a]" by blast
    note q = rescue_step_quiet [OF st(1) 1(3)]
    from 1(1) [OF rescue_step_order [OF st(1) 1(2) assms(4) 1(3)] rescue_inv_step [OF 1(2) assms(2,3) st(1)] q]
    obtain as M' where r: "rescue_run T A M1 as M'" "no_loss as" "rescue_silent M'" by blast
    from rescue_run_Cons [OF r(1) st(1)] r st(2) show ?thesis
      by (auto simp: no_loss_def intro!: exI [of _ "a # as"])
  qed
qed


section \<open>Two victims\<close>

text \<open>
  Two victims on the two relays of \<open>pair_net\<close>, one of them without GPS; the HMAC is replaced by
  a function that tells their packets apart.
\<close>

definition flag_mac :: hmac_fun where
  "flag_mac k m = replicate 32 (m ! 8 + 1)"

definition two_arguments :: "nat \<Rightarrow> arguments" where
  "two_arguments k = (if k = 0 then sample_arguments else sample_arguments\<lparr>argv2 := c_string ''0''\<rparr>)"

definition two_packets :: "nat \<Rightarrow> emergencyPacket" where
  "two_packets k = sim_victim_packet flag_mac (\<lambda>_. 5) (two_arguments k) 125"

definition two_audience :: audience where
  "two_audience k = ([k mod 2], [])"

definition two_rescue :: rescue where
  "two_rescue = \<lparr>net = pair_network\<lparr>victim_part := []\<rparr>,
     talks = \<lambda>k. if k < 2 then sim_victim_main flag_mac (\<lambda>_. 5) (two_arguments k) 125 else []\<rparr>"

lemma digest_ok_flag: "digest_ok flag_mac"
  by (simp add: digest_ok_def flag_mac_def)

lemma two_packets_sig: "hmac_sig (two_packets k) = replicate 8 (if k = 0 then 0x81 else 1)"
proof -
  have e: "strcmp_eq (c_string ''1'') (c_string ''1'')" "\<not> strcmp_eq (c_string ''0'') (c_string ''1'')" by code_simp+
  have f: "flags (sim_unsigned (\<lambda>_. 5) (two_arguments k) 125) = (if k = 0 then 0x80 else 0)" for k
    unfolding sim_unsigned_flags two_arguments_def sample_arguments_def using e
    by (cases "k = 0") (simp_all only: arguments.select_convs arguments.update_convs if_True if_False refl)
  show ?thesis
    by (simp add: two_packets_def sim_victim_signed digest_ok_flag) (simp add: flag_mac_def f)
qed

lemma two_crowd: "crowd (two_packets ` {0, 1})"
proof -
  have "card {two_packets 0, two_packets 1} \<le> Suc (Suc 0)" by (rule card_insert_le_m1) simp_all
  then have "card (two_packets ` {0, 1}) \<le> HASHES" by (simp add: HASHES_def)
  moreover have "wf_packet (two_packets k)" for k by (simp add: two_packets_def sim_victim_wf(1) digest_ok_flag)
  moreover have "inj_on hmac_sig (two_packets ` {0, 1})" by (auto simp: inj_on_def two_packets_sig)
  ultimately show ?thesis by (simp add: crowd_def)
qed


lemma two_victims_start: "rescue_start N {0, 1} two_packets two_rescue"
proof -
  have z: "hmac_sig (two_packets k) \<notin> set (buff zero_buffer)" for k
    by (auto simp: two_packets_sig zero_buffer_def CHARACTERS_def)
  have "k \<in> {0, 1} \<and> bs = packet_bytes (two_packets k)" if "Broadcast sa port bs \<in> set (talks two_rescue k)" for k sa port bs
    using that by (auto simp: two_rescue_def two_packets_def dest: sim_victim_start split: if_splits)
  with z show ?thesis
    by (auto simp: rescue_start_def two_rescue_def pair_network_def mesh_inv_def node_init_inv exit_init_inv holds_def)
      (simp_all add: node_init_def exit_init_def)
qed

lemma two_within: "rescue_within pair_net two_audience {0, 1}"
  using pair_within by (auto simp: rescue_within_def pair_net_def two_audience_def)

lemma two_rescue_completes:
  obtains as M' where "rescue_run pair_net two_audience two_rescue as M'" "no_loss as" "rescue_silent M'"
proof -
  have "\<forall>k. k \<notin> {0, 1} \<longrightarrow> talks two_rescue k = []" by (auto simp: two_rescue_def)
  from rescue_completes [OF rescue_start_inv [OF two_victims_start] two_crowd two_within _ this] that show thesis by auto
qed

section \<open>Properties\<close>

lemma delivered_rescue:
  "rescue_inv N K pk M \<Longrightarrow> k \<in> K \<Longrightarrow>
     delivered (hmac_sig (pk k)) (net M) e = (if exit_has (hmac_sig (pk k)) (net M) e then [packet_core (pk k)] else [])"
  by (simp add: rescue_inv_def exits_ok_def exit_ok_def exit_has_def delivered_def)

lemma victims_crowd:
  assumes "digest_ok mac" "finite K" "card (pk ` K) \<le> HASHES" "inj_on hmac_sig (pk ` K)"
    "\<forall>k \<in> K. pk k = sim_victim_packet mac coord (args k) (time k)"
  shows "crowd (pk ` K)"
  using assms(2-5) sim_victim_wf(1) [OF assms(1)] by (auto simp: crowd_def)

text \<open>
  Property C9. Several victims, at most 256 packets with different signatures: whatever is lost
  and in whatever order the broadcasts of all victims and the relayed copies arrive, an exit node
  has at every moment delivered each victim's packet at most once, as the victim made it with the
  TTL bits cleared.
\<close>

theorem rescue_delivers_at_most_once:
  assumes "digest_ok mac" "finite K" "card (pk ` K) \<le> HASHES" "inj_on hmac_sig (pk ` K)"
    "\<forall>k \<in> K. pk k = sim_victim_packet mac coord (args k) (time k)" "rescue_start N K pk M" "rescue_within T A N"
    "rescue_run T A M as M'" "k \<in> K"
  shows "delivered (hmac_sig (pk k)) (net M') e = [] \<or> delivered (hmac_sig (pk k)) (net M') e = [packet_core (pk k)]"
  using delivered_rescue [OF rescue_run_inv [OF assms(8) rescue_start_inv [OF assms(6)] victims_crowd [OF assms(1-5)] assms(7)] assms(9)]
  by simp

lemma two_are_crowd: "finite {0, 1 :: nat}" "card (two_packets ` {0, 1}) \<le> HASHES" "inj_on hmac_sig (two_packets ` {0, 1})"
  "\<forall>k \<in> {0, 1}. two_packets k = sim_victim_packet flag_mac (\<lambda>_. 5) (two_arguments k) 125"
  using two_crowd by (simp_all add: crowd_def two_packets_def)

theorem rescue_delivers_at_most_once_witness:
  "delivered (hmac_sig (two_packets 1)) (net two_rescue) 7 = [] \<or>
   delivered (hmac_sig (two_packets 1)) (net two_rescue) 7 = [packet_core (two_packets 1)]"
  by (rule rescue_delivers_at_most_once [OF digest_ok_flag two_are_crowd two_victims_start two_within rescue_run.rescue_Nil]) simp

text \<open>
  Property C4. If moreover no datagram is lost and there are fewer than 20 relays, a finished
  simulation has delivered every victim's packet exactly once at every exit node that hears the
  victim or a relay connected to it, whatever the other victims send meanwhile.
\<close>

theorem rescue_delivers_all:
  assumes "digest_ok mac" "finite K" "card (pk ` K) \<le> HASHES" "inj_on hmac_sig (pk ` K)"
    "\<forall>k \<in> K. pk k = sim_victim_packet mac coord (args k) (time k)" "rescue_start N K pk M" "rescue_within T A N"
    "\<forall>k \<in> K. talks M k = sim_victim_main mac coord (args k) (time k)" "card N < 20"
    "rescue_run T A M as M'" "no_loss as" "rescue_silent M'" "k \<in> K"
    "e \<in> set (snd (A k)) \<or> (\<exists>j. connected (relay_topology T) (set (fst (A k))) j \<and> e \<in> set (neighbours (exit_view T) j))"
  shows "delivered (hmac_sig (pk k)) (net M') e = [packet_core (pk k)]"
proof -
  let ?v = "hmac_sig (pk k)" and ?R = "relay_part (net M')"
  note inv = rescue_start_inv [OF assms(6)] and crowd = victims_crowd [OF assms(1-5)]
  have ttl: "\<forall>k \<in> K. card N < packet_ttl (pk k)" using assms(5,9) sim_victim_wf(2) [OF assms(1)] by simp
  have v: "?v \<in> hmac_sig ` pk ` K" using assms(13) by blast
  have "word_spread T A N K pk ?v M"
    using assms(6,8,13) by (auto simp: word_spread_def relays_told_def flood_ok_def flood_told_def flood_of_def
        rescue_start_def audience_told_def sim_victim_main_def broadcast_from_count)
  from spread_run [OF assms(10,11) this inv crowd assms(7) ttl v] assms(13)
  have told: "relays_told T N ?v (net M')" "audience_told A ?v M' k" by (simp_all add: word_spread_def)
  have closed: "relay_reached ?v (net M') j \<Longrightarrow> holds ?v ?R j" "exit_reached ?v (net M') e \<Longrightarrow> exit_has ?v (net M') e" for j e
    using assms(12) by (simp_all add: rescue_silent_def net_silent_def relay_reached_iff exit_reached_def)
  have first: "\<forall>j \<in> set (fst (A k)). relay_reached ?v (net M') j" "\<forall>e \<in> set (snd (A k)). exit_reached ?v (net M') e"
    using told(2) assms(12) by (simp_all add: audience_told_def rescue_silent_def)
  have "j \<in> N \<and> holds ?v ?R j" if "connected (relay_topology T) (set (fst (A k))) j" for j
    using that
  proof (induction rule: connected.induct)
    case (source i)
    then show ?case using first(1) closed(1) assms(7) by (auto simp: rescue_within_def)
  next
    case (hear i j)
    then have "i \<in> reached (flood_of ?v ?R) \<inter> N" by (simp add: flood_of_def)
    with hear(2) told(1) have "relay_reached ?v (net M') j" by (auto simp: relays_told_def flood_told_def relay_reached_def)
    with hear assms(7) show ?case using closed(1) by (auto simp: rescue_within_def topology_within_def)
  qed
  with assms(14) first(2) told(1) have "exit_reached ?v (net M') e" by (auto simp: relays_told_def)
  then have "exit_has ?v (net M') e" by (rule closed(2))
  with delivered_rescue [OF rescue_run_inv [OF assms(10) inv crowd assms(7)] assms(13)] show ?thesis by simp
qed

theorem rescue_delivers_all_witness:
  "\<exists>as M'. rescue_run pair_net two_audience two_rescue as M' \<and>
     delivered (hmac_sig (two_packets 0)) (net M') 7 @ delivered (hmac_sig (two_packets 1)) (net M') 7 =
       [packet_core (two_packets 0), packet_core (two_packets 1)]"
proof -
  obtain as M' where r: "rescue_run pair_net two_audience two_rescue as M'" "no_loss as" "rescue_silent M'"
    by (rule two_rescue_completes)
  have t: "\<forall>k \<in> {0, 1}. talks two_rescue k = sim_victim_main flag_mac (\<lambda>_. 5) (two_arguments k) 125"
    by (simp add: two_rescue_def)
  have n: "card {0, 1 :: nat} < 20" by simp
  have h: "7 \<in> set (snd (two_audience k)) \<or>
      (\<exists>j. connected (relay_topology pair_net) (set (fst (two_audience k))) j \<and> 7 \<in> set (neighbours (exit_view pair_net) j))" for k
    by (rule disjI2, rule exI [of _ "k mod 2"]) (simp add: pair_net_neighbours two_audience_def connected.source)
  have "delivered (hmac_sig (two_packets k)) (net M') 7 = [packet_core (two_packets k)]" if "k \<in> {0, 1}" for k
    by (rule rescue_delivers_all [OF digest_ok_flag two_are_crowd two_victims_start two_within t n r that h])
  with r(1) show ?thesis by (intro exI [of _ as] exI [of _ M']) simp
qed

end
