(* ===== verification/Sockets.thy ===== *)
theory Sockets
  imports SimExit SimVictim
begin

text \<open>
  The socket set-up of the simulator's processes, as the system calls each main function makes
  before its loop. The descriptors the calls return are parameters; like the code, the model does
  not look at whether a call succeeds. Addresses and ports are kept in network byte order, as in
  the structures that are passed to the kernel.
\<close>

section \<open>Addresses\<close>

record sockaddr_in =
  sin_family :: u16
  sin_port :: u16
  sin_addr :: u32

definition INADDR_ANY :: u32 where
  "INADDR_ANY = 0"

definition htons :: "u16 \<Rightarrow> u16" where
  "htons w = le_word (rev (le_bytes 2 w))"

lemma htons_htons [simp]: "htons (htons w) = w"
proof -
  have "le_bytes 2 (htons w) = rev (le_bytes 2 w)"
    unfolding htons_def by (rule le_bytes_le_word_n) simp_all
  then show ?thesis unfolding htons_def [of "htons w"] by simp
qed

lemma htons_inject: "htons v = htons w \<longleftrightarrow> v = w"
  by (metis htons_htons)

section \<open>System calls\<close>

datatype syscall =
    Socket int
  | SetReusePort int
  | SetBroadcast int
  | Bind int sockaddr_in

text \<open>node.cpp, up to its loop.\<close>

definition node_sockets :: "int \<Rightarrow> int \<Rightarrow> syscall list" where
  "node_sockets listenFd sendFd =
     (let senders = \<lparr>sin_family = AF_INET, sin_port = htons SERVERPORT, sin_addr = INADDR_ANY\<rparr>
      in [Socket listenFd, SetReusePort listenFd, Bind listenFd senders, Socket sendFd, SetBroadcast sendFd])"

text \<open>exit.cpp, up to its loop.\<close>

definition exit_sockets :: "int \<Rightarrow> syscall list" where
  "exit_sockets listenFd =
     (let senders = \<lparr>sin_family = AF_INET, sin_port = htons SERVERPORT, sin_addr = INADDR_ANY\<rparr>
      in [Socket listenFd, SetReusePort listenFd, Bind listenFd senders])"

text \<open>victim.cpp: its socket, and the address it sends to.\<close>

definition victim_sockets :: "int \<Rightarrow> syscall list" where
  "victim_sockets sockfd = [Socket sockfd, SetBroadcast sockfd]"

definition victim_address :: sockaddr_in where
  "victim_address = \<lparr>sin_family = AF_INET, sin_port = htons SERVERPORT, sin_addr = INADDR_BROADCAST\<rparr>"

text \<open>A process with a socket bound to all its addresses gets the datagrams to the bound port.\<close>

definition listens_on :: "syscall list \<Rightarrow> u16 \<Rightarrow> bool" where
  "listens_on calls port \<longleftrightarrow> list_ex (\<lambda>c. case c of
     Bind fd a \<Rightarrow> sin_family a = AF_INET \<and> sin_addr a = INADDR_ANY \<and> sin_port a = htons port | _ \<Rightarrow> False) calls"

text \<open>A broadcast needs the permission on the socket it leaves through.\<close>

definition may_broadcast :: "syscall list \<Rightarrow> int \<Rightarrow> bool" where
  "may_broadcast calls fd \<longleftrightarrow> list_ex (\<lambda>c. c = SetBroadcast fd) calls"

lemma listens_node: "listens_on (node_sockets l f) port \<longleftrightarrow> port = SERVERPORT"
  by (auto simp: listens_on_def node_sockets_def Let_def htons_inject)

lemma listens_exit: "listens_on (exit_sockets l) port \<longleftrightarrow> port = SERVERPORT"
  by (auto simp: listens_on_def exit_sockets_def Let_def htons_inject)

lemma may_broadcast_sockets: "may_broadcast (victim_sockets f) f" "may_broadcast (node_sockets l f) f"
  by (simp_all add: may_broadcast_def victim_sockets_def node_sockets_def Let_def)

lemma broadcast_all_port: "SendTo sa port bs \<in> set (broadcast_all l bs') \<Longrightarrow> port = SERVERPORT"
  by (induction l bs' rule: broadcast_all.induct) (auto split: option.splits if_splits)

lemma node_step_port: "SendTo sa port bs \<in> set (snd (node_step ifs s d)) \<Longrightarrow> port = SERVERPORT"
  by (auto simp: node_step_def Let_def split: if_splits hop.splits option.splits dest: broadcast_all_port)

text \<open>
  Where a datagram goes: address and port of each sendto of an iteration, in order. A relay should
  reach every network it is attached to: the IPv4 interfaces with a broadcast address, other than
  the loopback.
\<close>

definition destinations :: "node_event list \<Rightarrow> (u32 \<times> u16) list" where
  "destinations evs = [(sa, port). SendTo sa port bs \<leftarrow> evs]"

definition broadcast_domains :: "ifaddr list option \<Rightarrow> u32 list" where
  "broadcast_domains ifs = (case ifs of None \<Rightarrow> [] | Some l \<Rightarrow>
     [the (ifa_broadaddr it). it \<leftarrow> l, ifa_family it = Some 2 \<and> ifa_name it \<noteq> ''lo'' \<and> ifa_broadaddr it \<noteq> None])"

lemma destinations_simps [simp]:
  "destinations [] = []" "destinations (SendTo sa port bs # evs) = (sa, port) # destinations evs"
  "destinations (Received n # evs) = destinations evs" "destinations (Forwarding name sa # evs) = destinations evs"
  "destinations (TtlExpired # evs) = destinations evs" "destinations (AlreadyProcessed location # evs) = destinations evs"
  by (simp_all add: destinations_def)

lemma destinations_broadcast:
  "destinations (broadcast_all l bs) = map (\<lambda>sa. (sa, SERVERPORT)) (broadcast_domains (Some l))"
  by (induction l bs rule: broadcast_all.induct) (auto simp: broadcast_domains_def AF_INET_def split: option.splits)

lemma node_step_destinations:
  "destinations (snd (node_step ifs s d)) =
     (if containsBuff (node_cache s) (seen_sig s d) = -1 \<and> 1 < packet_ttl (recv_into (node_packet s) d)
      then map (\<lambda>sa. (sa, SERVERPORT)) (broadcast_domains ifs) else [])"
proof (cases "recv_into (node_packet s) d" rule: ttl_hop_cases)
  case (Forward q)
  then show ?thesis
    by (simp add: node_step_def seen_sig_def Let_def destinations_broadcast split: option.split)
      (simp add: broadcast_domains_def)
qed (simp_all add: node_step_def seen_sig_def Let_def)

section \<open>Properties\<close>

text \<open>
  Property C30. What the simulator's processes send arrives where the others listen. The victim
  sends its packet thirty times to the limited broadcast address, at the port that every relay and
  exit node has bound on all its addresses; none of them has bound another port. A relay that takes
  a packet up (unknown signature, TTL above one) sends one datagram to each of its networks, at the
  broadcast address of the interface and the same bound port, and otherwise it sends nothing. Both
  send through a socket that may broadcast.
\<close>

theorem simulator_ports_agree:
  "sim_victim_main mac coord a t = concat (replicate 30
     [Broadcast (sin_addr victim_address) (htons (sin_port victim_address))
        (packet_bytes (sim_victim_packet mac coord a t)), Sleep 5]) \<and>
   sin_addr victim_address = 0xFFFFFFFF \<and>
   (\<forall>port. listens_on (node_sockets l f) port \<longleftrightarrow> port = htons (sin_port victim_address)) \<and>
   (\<forall>port. listens_on (exit_sockets l) port \<longleftrightarrow> port = htons (sin_port victim_address)) \<and>
   destinations (snd (node_step ifs s d)) =
     (if containsBuff (node_cache s) (seen_sig s d) = -1 \<and> 1 < packet_ttl (recv_into (node_packet s) d)
      then map (\<lambda>sa. (sa, htons (sin_port victim_address))) (broadcast_domains ifs) else []) \<and>
   may_broadcast (victim_sockets f) f \<and> may_broadcast (node_sockets l f) f"
  by (auto simp: sim_victim_main_def broadcast_from_count victim_address_def INADDR_BROADCAST_def BRD_DELAY_def
      SERVERPORT_def [symmetric] listens_node listens_exit may_broadcast_sockets node_step_destinations)

theorem simulator_ports_agree_witness:
  "listens_on (node_sockets 3 4) 4950 \<and> \<not> listens_on (exit_sockets 3) 8080 \<and> may_broadcast (node_sockets 3 4) 4 \<and>
   destinations (snd (node_step (Some sample_ifs) node_init (Some (packet_bytes sample_packet)))) = [(0xAC12FFFF, 4950)]"
proof -
  note * = simulator_ports_agree [of toy_mac "\<lambda>_. 5" sample_arguments 125 3 4 "Some sample_ifs" node_init "Some (packet_bytes sample_packet)"]
  have port: "htons (sin_port victim_address) = 4950" by (simp add: victim_address_def SERVERPORT_def)
  have p: "recv_into (node_packet node_init) (Some (packet_bytes sample_packet)) = sample_packet"
    using node_init_inv by (intro recv_packet) (simp_all add: node_inv_def)
  have new: "containsBuff (node_cache node_init) (hmac_sig sample_packet) = -1"
    using sample_sig_new wf_zero_buffer by (simp add: node_init_def containsBuff_miss)
  have dom: "broadcast_domains (Some sample_ifs) = [0xAC12FFFF]"
    by (simp add: broadcast_domains_def sample_ifs_def)
  from * have "listens_on (node_sockets 3 4) 4950" "\<not> listens_on (exit_sockets 3) 8080" unfolding port by simp_all
  with * show ?thesis by (simp add: port dom p new seen_sig_def)
qed

end
