(* ===== verification/Listener.thy ===== *)
theory Listener
  imports SimVictim
begin

text \<open>
  The debugging listener of the simulator, listener.cpp: it binds the first usable address,
  receives one datagram, copies it over a zeroed packet and prints the fields in host order. The
  copy is as long as the datagram, so a long one writes behind the packet; this is the error
  \<open>OutOfBounds\<close> of the model.
\<close>

section \<open>Model\<close>

datatype location =
    Gps int int
  | NoGps int

record report =
  rep_phone :: u32
  rep_timestamp :: int
  rep_flags :: u8
  rep_location :: location

datatype listener_error =
    ExitStatus int
  | OutOfBounds

definition MAXBUFLEN :: nat where
  "MAXBUFLEN = 100"

text \<open>
  The loop over the results of getaddrinfo: for each, whether socket and bind succeed. The
  result is the index of the address that is bound, None if there is none.
\<close>

fun bind_first :: "(bool \<times> bool) list \<Rightarrow> nat \<Rightarrow> nat option" where
  "bind_first [] i = None"
| "bind_first ((socket_ok, bind_ok) # rest) i =
     (if \<not> socket_ok then bind_first rest (Suc i)
      else if \<not> bind_ok then bind_first rest (Suc i)
      else Some i)"

definition print_packet :: "emergencyPacket \<Rightarrow> report" where
  "print_packet p =
     (let p = p\<lparr>phone := ntohl (phone p)\<rparr>;
          p = p\<lparr>timestamp := ntohl (timestamp p)\<rparr>;
          loc = (if flags p AND push_bit 7 1 = push_bit 7 1
                 then (let p = p\<lparr>payload := set_latitude (ntohl (gps_latitude (payload p))) (payload p)\<rparr>;
                           p = p\<lparr>payload := set_longitude (ntohl (gps_longitude (payload p))) (payload p)\<rparr>
                       in Gps (sint (gps_latitude (payload p))) (sint (gps_longitude (payload p))))
                 else (let p = p\<lparr>payload := be64toh (payload p)\<rparr>
                       in NoGps (sint (payload p))))
      in \<lparr>rep_phone = phone p, rep_timestamp = sint (timestamp p), rep_flags = flags p, rep_location = loc\<rparr>)"

text \<open>\<open>rv\<close> is the result of getaddrinfo, \<open>d\<close> the datagram, None for a failed recvfrom.\<close>

definition listener_main :: "int \<Rightarrow> (bool \<times> bool) list \<Rightarrow> u8 list option \<Rightarrow> listener_error + report" where
  "listener_main rv servinfo d =
     (if rv \<noteq> 0 then Inl (ExitStatus 1)
      else if bind_first servinfo 0 = None then Inl (ExitStatus 2)
      else (case d of
              None \<Rightarrow> Inl (ExitStatus 1)
            | Some bs \<Rightarrow>
                (let buf = take (MAXBUFLEN - 1) bs;
                     numbytes = length buf
                 in if numbytes \<le> PACKET_SIZE
                    then Inr (print_packet (bytes_packet (memcpy (packet_bytes zero_packet) buf numbytes)))
                    else Inl OutOfBounds)))"

section \<open>Lemmas\<close>

lemma bind_first_None: "bind_first rs i = None \<longleftrightarrow> (True, True) \<notin> set rs"
  by (induction rs i rule: bind_first.induct) auto

lemma gps_bit: "f AND 128 = 128 \<longleftrightarrow> bit (flag_core f) 7"
proof -
  have "bit (128 :: u8) n \<longleftrightarrow> n = 7" if "n < 8" for n
    using that bit_exp_iff [where 'a = "8 word", of 7 n] by simp
  then have b: "n < 8 \<Longrightarrow> bit (f AND 128) n \<longleftrightarrow> n = 7 \<and> bit f 7" "n < 8 \<Longrightarrow> bit (128 :: u8) n \<longleftrightarrow> n = 7" for n
    by (auto simp: bit_simps)
  have "bit f 7" if "f AND 128 = 128"
    using arg_cong [OF that, of "\<lambda>w. bit w 7"] b [of 7] by simp
  moreover have "f AND 128 = 128" if "bit f 7"
    by (rule bit_word_eqI) (use that b in simp)
  ultimately have "f AND 128 = 128 \<longleftrightarrow> bit f 7" by blast
  then show ?thesis by (simp add: flag_core_def bit_simps)
qed

lemma argument_digits:
  "take (strlen (c_string ''1'')) (c_string ''1'') = [49]"
  "take (strlen (c_string ''0'')) (c_string ''0'') = [48]"
  by code_simp+

lemma sim_payload_gps:
  assumes "strcmp_eq (argv2 a) (c_string ''1'')"
  shows "gps_latitude (payload (sim_unsigned coord a t)) = htonl (coord (argv3 a))"
    "gps_longitude (payload (sim_unsigned coord a t)) = htonl (coord (argv4 a))"
proof -
  have "\<not> strcmp_eq (argv2 a) (c_string ''0'')"
    using assms by (auto simp: strcmp_eq_def argument_digits)
  with assms show "gps_latitude (payload (sim_unsigned coord a t)) = htonl (coord (argv3 a))"
    "gps_longitude (payload (sim_unsigned coord a t)) = htonl (coord (argv4 a))"
    by (simp_all add: sim_unsigned_def sim_network_order_def sim_fields_def Let_def)
qed

lemma sim_payload_nonce:
  assumes "\<not> strcmp_eq (argv2 a) (c_string ''1'')"
  shows "payload (sim_unsigned coord a t) = 0"
  using assms
  by (auto simp: sim_unsigned_def sim_network_order_def sim_fields_def Let_def intro!: gps_eqI)
    (simp_all add: gps_latitude_def gps_longitude_def)

section \<open>Properties\<close>

text \<open>
  How the listener ends: status 1 when getaddrinfo or recvfrom fails, status 2 when
  no address can be bound, and a write behind the packet exactly when it receives more than 25
  bytes; in all other cases it prints a report.
\<close>

theorem listener_outcomes:
  "(listener_main rv rs d = Inl (ExitStatus 1) \<longleftrightarrow> rv \<noteq> 0 \<or> (True, True) \<in> set rs \<and> d = None) \<and>
   (listener_main rv rs d = Inl (ExitStatus 2) \<longleftrightarrow> rv = 0 \<and> (True, True) \<notin> set rs) \<and>
   (listener_main rv rs d = Inl OutOfBounds \<longleftrightarrow>
      rv = 0 \<and> (True, True) \<in> set rs \<and> (\<exists>bs. d = Some bs \<and> 25 < length bs)) \<and>
   ((\<exists>r. listener_main rv rs d = Inr r) \<longleftrightarrow>
      rv = 0 \<and> (True, True) \<in> set rs \<and> (\<exists>bs. d = Some bs \<and> length bs \<le> 25))"
  by (cases d) (auto simp: listener_main_def bind_first_None Let_def PACKET_SIZE_def MAXBUFLEN_def)

theorem listener_outcomes_witness:
  "listener_main 0 [(False, True), (True, True)] (Some (replicate 26 7)) = Inl OutOfBounds \<and>
   listener_main 0 [(True, False)] None = Inl (ExitStatus 2) \<and>
   listener_main 0 [(True, True)] None = Inl (ExitStatus 1) \<and>
   (\<exists>r. listener_main 0 [(True, True)] (Some [1, 2, 3]) = Inr r)"
proof (intro conjI)
  show "listener_main 0 [(False, True), (True, True)] (Some (replicate 26 7)) = Inl OutOfBounds"
    using listener_outcomes [of 0 "[(False, True), (True, True)]" "Some (replicate 26 7)"] by simp
qed (simp_all add: listener_outcomes)

text \<open>
  Property C31. What the victim of the simulator was told is what the listener prints: after any
  number \<open>k\<close> of relays the listener reads back the hash of the phone number, the minute of
  the send and the two coordinates (or the nonce 0), in host order, and the TTL is 20 less \<open>k\<close>.
\<close>

theorem listener_reads_victim:
  assumes "digest_ok mac" "relay_chain hop_packet k (sim_victim_packet mac coord a t) = Some q"
    "(True, True) \<in> set rs"
  shows "listener_main 0 rs (Some (packet_bytes q)) = Inr
      \<lparr>rep_phone = MurmurHash3_x86_32 (argv1 a) (strlen (argv1 a)) MURMUR_SEED,
       rep_timestamp = sint (of_int (t sdiv 60) :: u32), rep_flags = flags q,
       rep_location = (if strcmp_eq (argv2 a) (c_string ''1'')
         then Gps (sint (coord (argv3 a))) (sint (coord (argv4 a))) else NoGps 0)\<rparr> \<and>
    packet_ttl q + k = 20"
proof -
  let ?p = "sim_victim_packet mac coord a t"
  have core: "packet_core q = packet_core ?p" and hops: "packet_ttl q + k = 20"
    using ttl.chain_core [OF assms(2)] ttl.chain_hops [OF assms(2)] sim_victim_wf(2) [OF assms(1)] by simp_all
  have wf: "wf_packet q" using verify_core(1) [OF core] sim_victim_wf(1) [OF assms(1)] by simp
  note f = packet_core_eqs [OF core]
  have p: "phone ?p = htonl (MurmurHash3_x86_32 (argv1 a) (strlen (argv1 a)) MURMUR_SEED)"
    "timestamp ?p = htonl (of_int (t sdiv 60))" "payload ?p = payload (sim_unsigned coord a t)"
    "flag_core (flags ?p) = (if strcmp_eq (argv2 a) (c_string ''1'') then 0x80 else 0)"
    using arg_cong [OF sim_victim_core [OF assms(1), of coord a t], of phone]
      arg_cong [OF sim_victim_core [OF assms(1), of coord a t], of timestamp]
      arg_cong [OF sim_victim_core [OF assms(1), of coord a t], of payload]
      arg_cong [OF sim_victim_core [OF assms(1), of coord a t], of flags]
    by (simp_all add: packet_core_def sim_unsigned_flags)
      (simp_all add: sim_unsigned_def sim_fields_def Let_def)
  have "print_packet q =
      \<lparr>rep_phone = MurmurHash3_x86_32 (argv1 a) (strlen (argv1 a)) MURMUR_SEED,
       rep_timestamp = sint (of_int (t sdiv 60) :: u32), rep_flags = flags q,
       rep_location = (if strcmp_eq (argv2 a) (c_string ''1'')
         then Gps (sint (coord (argv3 a))) (sint (coord (argv4 a))) else NoGps 0)\<rparr>"
    using sim_payload_gps [of a coord t] sim_payload_nonce [of a coord t]
    using be64toh_htobe64 [of 0]
    by (simp add: print_packet_def Let_def gps_bit f p del: be64toh_htobe64)
  with hops wf assms(3) show ?thesis
    by (simp add: listener_main_def bind_first_None Let_def MAXBUFLEN_def PACKET_SIZE_def)
qed

theorem listener_reads_victim_witness:
  "\<exists>q. listener_main 0 [(True, True)] (Some (packet_bytes q)) = Inr
      \<lparr>rep_phone = MurmurHash3_x86_32 (c_string ''+40712345678'') 12 112, rep_timestamp = 2,
       rep_flags = flags q, rep_location = Gps 5 5\<rparr> \<and> packet_ttl q = 17"
proof -
  let ?p = "sim_victim_packet toy_mac (\<lambda>_. 5) sample_arguments 125"
  obtain q where q: "relay_chain hop_packet 3 ?p = Some q"
    using ttl.chain_defined [of 3 ?p] by (auto simp: sim_victim_wf(2))
  have "strlen (c_string ''+40712345678'') = 12" by code_simp
  with listener_reads_victim [OF digest_ok_toy q, of "[(True, True)]"] show ?thesis
    by (intro exI [of _ q])
      (simp add: sample_arguments_def strcmp_eq_def MURMUR_SEED_def signed_divide_int_def)
qed

end
