(* ===== verification/ListenerConsole.thy ===== *)
theory ListenerConsole
  imports Listener SimNode
begin

text \<open>
  What the listener writes on its way, to the terminal and to stderr, up to the line it ends with:
  the addresses it could not use, the sender of the datagram, the datagram as text, and the report.
  \<open>inet\_ntop\<close> is a library call, the parameter \<open>ntop\<close>; it gets the family and the bytes it reads at
  the address, 4 of an IPv4 address and 16 otherwise.
\<close>

section \<open>Model\<close>

datatype console_line =
    AddrInfoFailed int
  | SocketFailed
  | BindFailed
  | NoneBound
  | Waiting
  | ReceiveFailed
  | PacketFrom string
  | PacketLength nat
  | PacketText "u8 list"
  | PhoneHash u32
  | MinuteIs int
  | FlagsAre u8
  | LatitudeIs int
  | LongitudeIs int
  | NoGpsNonce int

text \<open>
  The sender's sockaddr\_storage is its bytes, the family first; sin\_addr is at offset 4 of a
  sockaddr\_in, sin6\_addr at offset 8 of a sockaddr\_in6.
\<close>

definition sa_family :: "u8 list \<Rightarrow> u16" where
  "sa_family sa = le_word (take 2 sa)"

definition get_in_addr :: "u8 list \<Rightarrow> nat" where
  "get_in_addr sa = (if sa_family sa = AF_INET then 4 else 8)"

fun bind_lines :: "(bool \<times> bool) list \<Rightarrow> console_line list" where
  "bind_lines [] = [NoneBound]"
| "bind_lines ((socket_ok, bind_ok) # rest) =
     (if \<not> socket_ok then SocketFailed # bind_lines rest
      else if \<not> bind_ok then BindFailed # bind_lines rest
      else [])"

definition report_lines :: "report \<Rightarrow> console_line list" where
  "report_lines r = [PhoneHash (rep_phone r), MinuteIs (rep_timestamp r), FlagsAre (rep_flags r)] @
     (case rep_location r of Gps lat lon \<Rightarrow> [LatitudeIs lat, LongitudeIs lon] | NoGps n \<Rightarrow> [NoGpsNonce n])"

definition addr_size :: "u8 list \<Rightarrow> nat" where
  "addr_size sa = (if sa_family sa = AF_INET then 4 else 16)"

text \<open>\<open>%s\<close> prints the buffer up to its first zero byte; one is stored behind the datagram.\<close>

definition listener_console :: "(u16 \<Rightarrow> u8 list \<Rightarrow> string) \<Rightarrow> int \<Rightarrow> (bool \<times> bool) list \<Rightarrow> (u8 list \<times> u8 list) option \<Rightarrow>
    console_line list \<times> (listener_error + report)" where
  "listener_console ntop rv servinfo d =
     (if rv \<noteq> 0 then ([AddrInfoFailed rv], Inl (ExitStatus 1))
      else if bind_first servinfo 0 = None then (bind_lines servinfo, Inl (ExitStatus 2))
      else (case d of
              None \<Rightarrow> (bind_lines servinfo @ [Waiting, ReceiveFailed], Inl (ExitStatus 1))
            | Some (their_addr, bs) \<Rightarrow>
                (let buf = take (MAXBUFLEN - 1) bs;
                     numbytes = length buf;
                     start = bind_lines servinfo @
                       [Waiting, PacketFrom (ntop (sa_family their_addr) (take (addr_size their_addr) (drop (get_in_addr their_addr) their_addr))),
                        PacketLength numbytes, PacketText (takeWhile (\<lambda>b. b \<noteq> 0) (buf @ [0]))]
                 in if numbytes \<le> PACKET_SIZE
                    then (let r = print_packet (bytes_packet (memcpy (packet_bytes zero_packet) buf numbytes))
                          in (start @ report_lines r, Inr r))
                    else (start, Inl OutOfBounds))))"

section \<open>Senders\<close>

text \<open>
  The socket addresses of the two families as the kernel lays them out in a sockaddr\_storage of
  128 bytes: family, port and address; family, port, flow information, address and scope.
\<close>

datatype sender =
    Inet4 "u8 list" "u8 list"
  | Inet6 "u8 list" "u8 list" "u8 list" "u8 list"

definition AF_INET6 :: u16 where
  "AF_INET6 = 10"

fun sockaddr_storage :: "sender \<Rightarrow> u8 list" where
  "sockaddr_storage (Inet4 port addr) = le_bytes 2 AF_INET @ port @ addr @ replicate 120 0"
| "sockaddr_storage (Inet6 port flow addr scope) = le_bytes 2 AF_INET6 @ port @ flow @ addr @ scope @ replicate 100 0"

fun wf_sender :: "sender \<Rightarrow> bool" where
  "wf_sender (Inet4 port addr) \<longleftrightarrow> length port = 2 \<and> length addr = 4"
| "wf_sender (Inet6 port flow addr scope) \<longleftrightarrow> length port = 2 \<and> length flow = 4 \<and> length addr = 16 \<and> length scope = 4"

fun sender_text :: "(u16 \<Rightarrow> u8 list \<Rightarrow> string) \<Rightarrow> sender \<Rightarrow> string" where
  "sender_text ntop (Inet4 port addr) = ntop 2 addr"
| "sender_text ntop (Inet6 port flow addr scope) = ntop 10 addr"

lemma sender_address:
  assumes "wf_sender from"
  shows "ntop (sa_family (sockaddr_storage from))
      (take (addr_size (sockaddr_storage from)) (drop (get_in_addr (sockaddr_storage from)) (sockaddr_storage from))) =
    sender_text ntop from"
proof -
  have f: "sa_family (sockaddr_storage from) = (case from of Inet4 port addr \<Rightarrow> 2 | Inet6 port flow addr scope \<Rightarrow> 10)"
    by (cases "from") (simp_all add: sa_family_def AF_INET_def AF_INET6_def)
  show ?thesis
    using assms unfolding addr_size_def get_in_addr_def f by (cases "from") (simp_all add: AF_INET_def)
qed

section \<open>Properties\<close>

text \<open>The complaint about an address that cannot be used.\<close>

definition complaint :: "bool \<times> bool \<Rightarrow> console_line" where
  "complaint r = (if fst r then BindFailed else SocketFailed)"

lemma bind_lines_complaints:
  "bind_lines rs = map complaint (takeWhile (\<lambda>r. r \<noteq> (True, True)) rs) @ (if (True, True) \<in> set rs then [] else [NoneBound])"
  by (induction rs rule: bind_lines.induct) (auto simp: complaint_def)

lemma zero_packet_bytes: "packet_bytes zero_packet = replicate 25 0"
  by (simp add: packet_bytes_def zero_packet_def le_bytes_def upt_rec SIG_LEN_def numeral_eq_Suc)

lemma padded_copy: "length bs \<le> 25 \<Longrightarrow> memcpy (packet_bytes zero_packet) bs (length bs) = bs @ replicate (25 - length bs) 0"
  by (simp add: memcpy_def zero_packet_bytes)

lemma takeWhile_zero: "takeWhile (\<lambda>b. b \<noteq> 0) (bs @ [0 :: u8]) = takeWhile (\<lambda>b. b \<noteq> 0) bs"
  by (induction bs) auto

text \<open>
  Property C37. How the listener ends, and all that it has written by then. Status 1 when
  getaddrinfo fails, which is all it says then, or recvfrom; status 2 when no address can be bound;
  a write behind the packet exactly when it receives more than 25 bytes; in all other cases a
  report on the datagram, padded with zero bytes to a packet. It complains about every address
  before the one it uses, in order and by the call that failed, or about all and that there is
  none; then it says that it waits, and that receiving failed, or the text of the sender's IPv4 or
  IPv6 address, the length of the datagram (at most 99 bytes of it) and its bytes up to the first
  zero; the report comes last.
\<close>

theorem listener_console_outcomes:
  fixes ntop rv rs and d :: "(sender \<times> u8 list) option"
  defines "C \<equiv> listener_console ntop rv rs (map_option (\<lambda>(from, bs). (sockaddr_storage from, bs)) d)"
  assumes "case d of None \<Rightarrow> True | Some (from, bs) \<Rightarrow> wf_sender from"
  shows "snd C = listener_main rv rs (map_option snd d) \<and>
   (snd C = Inl (ExitStatus 1) \<longleftrightarrow> rv \<noteq> 0 \<or> (True, True) \<in> set rs \<and> d = None) \<and>
   (snd C = Inl (ExitStatus 2) \<longleftrightarrow> rv = 0 \<and> (True, True) \<notin> set rs) \<and>
   (snd C = Inl OutOfBounds \<longleftrightarrow> rv = 0 \<and> (True, True) \<in> set rs \<and> (\<exists>from bs. d = Some (from, bs) \<and> 25 < length bs)) \<and>
   (\<forall>r. snd C = Inr r \<longleftrightarrow> rv = 0 \<and> (True, True) \<in> set rs \<and> (\<exists>from bs. d = Some (from, bs) \<and> length bs \<le> 25 \<and>
      r = print_packet (bytes_packet (bs @ replicate (25 - length bs) 0)))) \<and>
   fst C = (if rv \<noteq> 0 then [AddrInfoFailed rv]
     else map complaint (takeWhile (\<lambda>r. r \<noteq> (True, True)) rs) @
       (if (True, True) \<notin> set rs then [NoneBound]
        else Waiting # (case d of
            None \<Rightarrow> [ReceiveFailed]
          | Some (from, bs) \<Rightarrow>
              [PacketFrom (sender_text ntop from), PacketLength (min 99 (length bs)), PacketText (takeWhile (\<lambda>b. b \<noteq> 0) (take 99 bs))] @
              (case snd C of Inl _ \<Rightarrow> [] | Inr r \<Rightarrow> report_lines r))))"
proof -
  let ?d = "map_option (\<lambda>(from, bs). (sockaddr_storage from, bs)) d"
  have main: "snd C = listener_main rv rs (map_option snd d)"
    by (cases d) (simp_all add: C_def listener_console_def listener_main_def Let_def split_beta)
  have lines: "fst C = (if rv \<noteq> 0 then [AddrInfoFailed rv]
     else map complaint (takeWhile (\<lambda>r. r \<noteq> (True, True)) rs) @
       (if (True, True) \<notin> set rs then [NoneBound]
        else Waiting # (case d of
            None \<Rightarrow> [ReceiveFailed]
          | Some (from, bs) \<Rightarrow>
              [PacketFrom (sender_text ntop from), PacketLength (min 99 (length bs)), PacketText (takeWhile (\<lambda>b. b \<noteq> 0) (take 99 bs))] @
              (case snd C of Inl _ \<Rightarrow> [] | Inr r \<Rightarrow> report_lines r))))"
  proof (cases d)
    case None
    then show ?thesis by (simp add: C_def listener_console_def bind_first_None bind_lines_complaints)
  next
    case (Some x)
    then obtain "from" bs where d: "d = Some (from, bs)" by (cases x) auto
    have "wf_sender from" using assms(2) d by simp
    from sender_address [OF this, of ntop] show ?thesis
      by (simp add: d C_def listener_console_def bind_first_None bind_lines_complaints Let_def takeWhile_zero MAXBUFLEN_def min.commute)
  qed
  have "(\<forall>r. snd C = Inr r \<longleftrightarrow> rv = 0 \<and> (True, True) \<in> set rs \<and> (\<exists>from bs. d = Some (from, bs) \<and> length bs \<le> 25 \<and>
      r = print_packet (bytes_packet (bs @ replicate (25 - length bs) 0))))"
    unfolding main by (cases d) (auto simp: listener_main_def bind_first_None Let_def PACKET_SIZE_def MAXBUFLEN_def padded_copy)
  moreover have "(snd C = Inl (ExitStatus 1) \<longleftrightarrow> rv \<noteq> 0 \<or> (True, True) \<in> set rs \<and> d = None) \<and>
   (snd C = Inl (ExitStatus 2) \<longleftrightarrow> rv = 0 \<and> (True, True) \<notin> set rs) \<and>
   (snd C = Inl OutOfBounds \<longleftrightarrow> rv = 0 \<and> (True, True) \<in> set rs \<and> (\<exists>from bs. d = Some (from, bs) \<and> 25 < length bs))"
    unfolding main by (cases d) (auto simp: listener_main_def bind_first_None Let_def PACKET_SIZE_def MAXBUFLEN_def)
  ultimately show ?thesis using main lines by (simp only: simp_thms)
qed

text \<open>A datagram of 26 bytes from an IPv6 sender, after one address that could not be used.\<close>

definition sample_sender :: sender where
  "sample_sender = Inet6 [0, 80] (replicate 4 0) (replicate 15 0 @ [1]) (replicate 4 0)"

theorem listener_console_outcomes_witness:
  "listener_console (\<lambda>fam addr. if fam = 10 \<and> last addr = 1 then ''::1'' else ''?'') 0 [(False, True), (True, True)]
     (map_option (\<lambda>(from, bs). (sockaddr_storage from, bs)) (Some (sample_sender, 7 # 7 # replicate 24 0))) =
   ([SocketFailed, Waiting, PacketFrom ''::1'', PacketLength 26, PacketText [7, 7]], Inl OutOfBounds)"
proof -
  have "case Some (sample_sender, 7 # 7 # replicate 24 (0 :: u8)) of None \<Rightarrow> True | Some (from, bs) \<Rightarrow> wf_sender from"
    by (simp add: sample_sender_def)
  note o = listener_console_outcomes [OF this, where ntop = "\<lambda>fam addr. if fam = 10 \<and> last addr = 1 then ''::1'' else ''?''"
      and rv = 0 and rs = "[(False, True), (True, True)]"]
  let ?C = "listener_console (\<lambda>fam addr. if fam = 10 \<and> last addr = 1 then ''::1'' else ''?'') 0 [(False, True), (True, True)]
     (map_option (\<lambda>(from, bs). (sockaddr_storage from, bs)) (Some (sample_sender, 7 # 7 # replicate 24 0)))"
  have s: "snd ?C = Inl OutOfBounds" using o [THEN conjunct2, THEN conjunct2, THEN conjunct2, THEN conjunct1] by simp
  have "fst ?C = [SocketFailed, Waiting, PacketFrom ''::1'', PacketLength 26, PacketText [7, 7]]"
    using o [THEN conjunct2, THEN conjunct2, THEN conjunct2, THEN conjunct2, THEN conjunct2, unfolded s]
    by (simp add: complaint_def sample_sender_def)
  with s show ?thesis by (metis prod.collapse)
qed

end
