(* ===== verification/SimStart.thy ===== *)
theory SimStart
  imports SimVictim
begin

text \<open>
  How the programs of the simulator are started: victim.cpp reads its arguments without looking at
  argc, so a missing one is a null pointer; tester.sh and the compose file pass the ones it needs.
\<close>

section \<open>The arguments of the victim\<close>

text \<open>\<open>argv[n]\<close>: a C string, or the number of the argument that is not there.\<close>

definition c_argument :: "u8 list list \<Rightarrow> nat \<Rightarrow> nat + u8 list" where
  "c_argument argv n = (if n < length argv then Inr (argv ! n) else Inl n)"

definition victim_process :: "hmac_fun \<Rightarrow> (u8 list \<Rightarrow> u32) \<Rightarrow> u8 list list \<Rightarrow> int \<Rightarrow> nat + sim_event list" where
  "victim_process mac coord argv now =
     (case c_argument argv 1 of
        Inl n \<Rightarrow> Inl n
      | Inr a1 \<Rightarrow>
          (case c_argument argv 2 of
             Inl n \<Rightarrow> Inl n
           | Inr a2 \<Rightarrow>
               if strcmp_eq a2 (c_string ''1'')
               then (case c_argument argv 3 of
                       Inl n \<Rightarrow> Inl n
                     | Inr a3 \<Rightarrow>
                         (case c_argument argv 4 of
                            Inl n \<Rightarrow> Inl n
                          | Inr a4 \<Rightarrow> Inr (sim_victim_main mac coord \<lparr>argv1 = a1, argv2 = a2, argv3 = a3, argv4 = a4\<rparr> now)))
               else Inr (sim_victim_main mac coord \<lparr>argv1 = a1, argv2 = a2, argv3 = [], argv4 = []\<rparr> now)))"

section \<open>tester.sh and the compose file\<close>

datatype started =
    StartNode
  | StartVictim "string list"
  | ShowUsage
  | InvalidScenario

text \<open>The argument of tester.sh, None when there is none; with both texts the script exits with status 1.\<close>

definition tester :: "string option \<Rightarrow> started" where
  "tester arg =
     (case arg of
        None \<Rightarrow> ShowUsage
      | Some a \<Rightarrow>
          if a = '''' then ShowUsage
          else if a = ''1'' then StartNode
          else if a = ''2'' then StartVictim [''./victim'', ''+40711111111'', ''0'']
          else if a = ''3'' then StartVictim [''./victim'', ''+40722222222'', ''1'', ''44.4398'', ''26.0428'']
          else InvalidScenario)"

definition compose_victim :: "string list" where
  "compose_victim = [''./victim'', ''+40722222222'', ''1'', ''44.4398'', ''26.0428'']"

section \<open>Properties\<close>

lemma argument_one: "strcmp_eq (c_string ''1'') (c_string ''1'')" "\<not> strcmp_eq (c_string ''0'') (c_string ''1'')"
  by code_simp+

lemma no_gps_arguments:
  "\<not> strcmp_eq (argv2 a) (c_string ''1'') \<Longrightarrow>
     sim_victim_main mac coord (a\<lparr>argv3 := x, argv4 := y\<rparr>) now = sim_victim_main mac coord a now"
  by (simp add: sim_victim_main_def sim_victim_packet_def sim_fields_def sim_network_order_def Let_def)

definition lacks_argument :: "u8 list list \<Rightarrow> bool" where
  "lacks_argument argv \<longleftrightarrow> length argv < 3 \<or> strcmp_eq (argv ! 2) (c_string ''1'') \<and> length argv < 5"

lemma victim_process_runs:
  assumes "\<not> lacks_argument argv" "argv ! 1 = argv1 a" "argv ! 2 = argv2 a"
    "strcmp_eq (argv2 a) (c_string ''1'') \<Longrightarrow> argv ! 3 = argv3 a \<and> argv ! 4 = argv4 a"
  shows "victim_process mac coord argv now = Inr (sim_victim_main mac coord a now)"
proof (cases "strcmp_eq (argv2 a) (c_string ''1'')")
  case True
  with assms have "2 < length argv" "4 < length argv" "argv ! 3 = argv3 a" "argv ! 4 = argv4 a" by (auto simp: lacks_argument_def)
  with True assms(2,3) show ?thesis by (cases a) (simp add: victim_process_def c_argument_def)
next
  case False
  with assms(1) have "2 < length argv" by (simp add: lacks_argument_def)
  with False assms(2,3) no_gps_arguments [OF False, of mac coord "[]" "[]" now] show ?thesis
    by (cases a) (simp add: victim_process_def c_argument_def)
qed

lemma tester_victim:
  "tester s = StartVictim args \<Longrightarrow> args = [''./victim'', ''+40711111111'', ''0''] \<or> args = compose_victim"
  by (auto simp: tester_def compose_victim_def split: option.splits if_splits)

lemma started_arguments:
  "\<not> lacks_argument (map c_string [''./victim'', ''+40711111111'', ''0''])" "\<not> lacks_argument (map c_string compose_victim)"
  using argument_one(2) by (simp_all add: lacks_argument_def compose_victim_def)

text \<open>
  Property C27. The victim needs a phone number and a GPS flag, and with the flag 1 two coordinates:
  it stops at the first argument that is missing, a null pointer that the code does not test for,
  exactly if one is, and otherwise it sends its thirty broadcasts. Every way in which tester.sh
  and the compose file start a victim gives it all it needs.
\<close>

theorem victim_needs_arguments:
  "(lacks_argument argv \<longrightarrow> (\<exists>n. victim_process mac coord argv now = Inl n \<and> length argv \<le> n \<and> n \<le> 4 \<and>
      (\<forall>k. 1 \<le> k \<and> k < n \<longrightarrow> k < length argv))) \<and>
   (\<not> lacks_argument argv \<longrightarrow> (\<exists>a. argv1 a = argv ! 1 \<and> argv2 a = argv ! 2 \<and>
      victim_process mac coord argv now = Inr (sim_victim_main mac coord a now))) \<and>
   ((\<exists>s. tester s = StartVictim args) \<or> args = compose_victim \<longrightarrow> \<not> lacks_argument (map c_string args))"
proof (intro conjI impI)
  assume l: "lacks_argument argv"
  show "\<exists>n. victim_process mac coord argv now = Inl n \<and> length argv \<le> n \<and> n \<le> 4 \<and> (\<forall>k. 1 \<le> k \<and> k < n \<longrightarrow> k < length argv)"
  proof (cases "length argv < 3")
    case True
    then show ?thesis by (cases "length argv < 2") (auto simp: victim_process_def c_argument_def)
  next
    case False
    with l show ?thesis
      by (cases "length argv < 4") (auto simp: victim_process_def c_argument_def lacks_argument_def)
  qed
next
  assume "\<not> lacks_argument argv"
  then have "victim_process mac coord argv now =
      Inr (sim_victim_main mac coord \<lparr>argv1 = argv ! 1, argv2 = argv ! 2, argv3 = argv ! 3, argv4 = argv ! 4\<rparr> now)"
    by (rule victim_process_runs) simp_all
  then show "\<exists>a. argv1 a = argv ! 1 \<and> argv2 a = argv ! 2 \<and> victim_process mac coord argv now = Inr (sim_victim_main mac coord a now)"
    by (intro exI [of _ "\<lparr>argv1 = argv ! 1, argv2 = argv ! 2, argv3 = argv ! 3, argv4 = argv ! 4\<rparr>"]) simp
next
  assume "(\<exists>s. tester s = StartVictim args) \<or> args = compose_victim"
  then show "\<not> lacks_argument (map c_string args)"
    using tester_victim [of _ args] started_arguments by metis
qed

text \<open>The victim without GPS of tester.sh, and one that was promised a position but got none.\<close>

theorem victim_needs_arguments_witness:
  "(\<exists>a. victim_process toy_mac (\<lambda>_. 5) (map c_string [''./victim'', ''+40711111111'', ''0'']) 125 = Inr (sim_victim_main toy_mac (\<lambda>_. 5) a 125)) \<and>
   victim_process toy_mac (\<lambda>_. 5) (map c_string [''./victim'', ''+40711111111'', ''1'']) 125 = Inl 3"
proof
  have "tester (Some ''2'') = StartVictim [''./victim'', ''+40711111111'', ''0'']" by (simp add: tester_def)
  then show "\<exists>a. victim_process toy_mac (\<lambda>_. 5) (map c_string [''./victim'', ''+40711111111'', ''0'']) 125 = Inr (sim_victim_main toy_mac (\<lambda>_. 5) a 125)"
    using victim_needs_arguments [of "map c_string [''./victim'', ''+40711111111'', ''0'']" toy_mac "\<lambda>_. 5" 125
        "[''./victim'', ''+40711111111'', ''0'']"] by blast
next
  show "victim_process toy_mac (\<lambda>_. 5) (map c_string [''./victim'', ''+40711111111'', ''1'']) 125 = Inl 3"
    using argument_one by (simp add: victim_process_def c_argument_def)
qed

end
