(* ===== verification/Murmur128.thy ===== *)
theory Murmur128
  imports Murmur
begin

text \<open>
  The two 128-bit variants of MurmurHash3.cpp: MurmurHash3\_x86\_128 over four 32-bit lanes and
  MurmurHash3\_x64\_128 over two 64-bit lanes. The lanes are tuples; the statements of the code
  are kept in order as a chain of \<open>let\<close>s, the labels of the switches as \<open>fall\<close>. Both variants
  interpret \<open>block_hash\<close>.
\<close>

section \<open>Four lanes of 32 bits\<close>

type_synonym lanes86 = "u32 \<times> u32 \<times> u32 \<times> u32"

definition scramble86 :: "u32 \<Rightarrow> nat \<Rightarrow> u32 \<Rightarrow> u32 \<Rightarrow> u32" where
  "scramble86 c r d k = rotl32 (k * c) r * d"

definition k1_86 :: "u32 \<Rightarrow> u32" where
  "k1_86 = scramble86 0x239b961b 15 0xab0e9789"

definition k2_86 :: "u32 \<Rightarrow> u32" where
  "k2_86 = scramble86 0xab0e9789 16 0x38b34ae5"

definition k3_86 :: "u32 \<Rightarrow> u32" where
  "k3_86 = scramble86 0x38b34ae5 17 0xa1e38b93"

definition k4_86 :: "u32 \<Rightarrow> u32" where
  "k4_86 = scramble86 0xa1e38b93 18 0x239b961b"

definition body86 :: "lanes86 \<Rightarrow> lanes86 \<Rightarrow> lanes86" where
  "body86 h k =
     (let (h1, h2, h3, h4) = h; (k1, k2, k3, k4) = k;
          h1 = h1 XOR k1_86 k1;
          h1 = rotl32 h1 19; h1 = h1 + h2; h1 = h1 * 5 + 0x561ccd1b;
          h2 = h2 XOR k2_86 k2;
          h2 = rotl32 h2 17; h2 = h2 + h3; h2 = h2 * 5 + 0x0bcaa747;
          h3 = h3 XOR k3_86 k3;
          h3 = rotl32 h3 15; h3 = h3 + h4; h3 = h3 * 5 + 0x96cd1c35;
          h4 = h4 XOR k4_86 k4;
          h4 = rotl32 h4 13; h4 = h4 + h1; h4 = h4 * 5 + 0x32ac3b17
      in (h1, h2, h3, h4))"

definition tail86 :: "u8 list \<Rightarrow> nat \<Rightarrow> nat \<Rightarrow> lanes86 \<Rightarrow> lanes86" where
  "tail86 data base len h =
     (let (h1, h2, h3, h4) = h;
          tail = (\<lambda>j. ucast (data ! (base + j)) :: u32);
          n = len mod 16;
          k4 = fall n 15 (push_bit 16 (tail 14)) 0;
          k4 = fall n 14 (push_bit 8 (tail 13)) k4;
          k4 = fall n 13 (tail 12) k4;
          h4 = (if 13 \<le> n then h4 XOR k4_86 k4 else h4);
          k3 = fall n 12 (push_bit 24 (tail 11)) 0;
          k3 = fall n 11 (push_bit 16 (tail 10)) k3;
          k3 = fall n 10 (push_bit 8 (tail 9)) k3;
          k3 = fall n 9 (tail 8) k3;
          h3 = (if 9 \<le> n then h3 XOR k3_86 k3 else h3);
          k2 = fall n 8 (push_bit 24 (tail 7)) 0;
          k2 = fall n 7 (push_bit 16 (tail 6)) k2;
          k2 = fall n 6 (push_bit 8 (tail 5)) k2;
          k2 = fall n 5 (tail 4) k2;
          h2 = (if 5 \<le> n then h2 XOR k2_86 k2 else h2);
          k1 = fall n 4 (push_bit 24 (tail 3)) 0;
          k1 = fall n 3 (push_bit 16 (tail 2)) k1;
          k1 = fall n 2 (push_bit 8 (tail 1)) k1;
          k1 = fall n 1 (tail 0) k1;
          h1 = (if 1 \<le> n then h1 XOR k1_86 k1 else h1)
      in (h1, h2, h3, h4))"

text \<open>The four additions that end with every lane, done before and after the mixing of the lanes.\<close>

definition spread86 :: "lanes86 \<Rightarrow> lanes86" where
  "spread86 h =
     (let (h1, h2, h3, h4) = h;
          h1 = h1 + h2; h1 = h1 + h3; h1 = h1 + h4;
          h2 = h2 + h1; h3 = h3 + h1; h4 = h4 + h1
      in (h1, h2, h3, h4))"

definition final86 :: "nat \<Rightarrow> lanes86 \<Rightarrow> lanes86" where
  "final86 len h =
     (let (h1, h2, h3, h4) = h;
          h1 = h1 XOR of_nat len; h2 = h2 XOR of_nat len; h3 = h3 XOR of_nat len; h4 = h4 XOR of_nat len;
          (h1, h2, h3, h4) = spread86 (h1, h2, h3, h4);
          h1 = fmix32 h1; h2 = fmix32 h2; h3 = fmix32 h3; h4 = fmix32 h4
      in spread86 (h1, h2, h3, h4))"

definition MurmurHash3_x86_128 :: "u8 list \<Rightarrow> nat \<Rightarrow> u32 \<Rightarrow> lanes86" where
  "MurmurHash3_x86_128 key len seed =
     (let nblocks = len div 16;
          blocks = getblock32 key (nblocks * 16);
          h = foldl (\<lambda>h i. body86 h (blocks (i * 4 + 0), blocks (i * 4 + 1), blocks (i * 4 + 2), blocks (i * 4 + 3)))
                (seed, seed, seed, seed) [- int nblocks..-1];
          h = tail86 key (nblocks * 16) len h
      in final86 len h)"

section \<open>Two lanes of 64 bits\<close>

type_synonym lanes64 = "u64 \<times> u64"

definition k1_64 :: "u64 \<Rightarrow> u64" where
  "k1_64 k = rotl64 (k * 0x87c37b91114253d5) 31 * 0x4cf5ad432745937f"

definition k2_64 :: "u64 \<Rightarrow> u64" where
  "k2_64 k = rotl64 (k * 0x4cf5ad432745937f) 33 * 0x87c37b91114253d5"

definition body64 :: "lanes64 \<Rightarrow> lanes64 \<Rightarrow> lanes64" where
  "body64 h k =
     (let (h1, h2) = h; (k1, k2) = k;
          h1 = h1 XOR k1_64 k1;
          h1 = rotl64 h1 27; h1 = h1 + h2; h1 = h1 * 5 + 0x52dce729;
          h2 = h2 XOR k2_64 k2;
          h2 = rotl64 h2 31; h2 = h2 + h1; h2 = h2 * 5 + 0x38495ab5
      in (h1, h2))"

definition tail64 :: "u8 list \<Rightarrow> nat \<Rightarrow> nat \<Rightarrow> lanes64 \<Rightarrow> lanes64" where
  "tail64 data base len h =
     (let (h1, h2) = h;
          tail = (\<lambda>j. ucast (data ! (base + j)) :: u64);
          n = len mod 16;
          k2 = fall n 15 (push_bit 48 (tail 14)) 0;
          k2 = fall n 14 (push_bit 40 (tail 13)) k2;
          k2 = fall n 13 (push_bit 32 (tail 12)) k2;
          k2 = fall n 12 (push_bit 24 (tail 11)) k2;
          k2 = fall n 11 (push_bit 16 (tail 10)) k2;
          k2 = fall n 10 (push_bit 8 (tail 9)) k2;
          k2 = fall n 9 (tail 8) k2;
          h2 = (if 9 \<le> n then h2 XOR k2_64 k2 else h2);
          k1 = fall n 8 (push_bit 56 (tail 7)) 0;
          k1 = fall n 7 (push_bit 48 (tail 6)) k1;
          k1 = fall n 6 (push_bit 40 (tail 5)) k1;
          k1 = fall n 5 (push_bit 32 (tail 4)) k1;
          k1 = fall n 4 (push_bit 24 (tail 3)) k1;
          k1 = fall n 3 (push_bit 16 (tail 2)) k1;
          k1 = fall n 2 (push_bit 8 (tail 1)) k1;
          k1 = fall n 1 (tail 0) k1;
          h1 = (if 1 \<le> n then h1 XOR k1_64 k1 else h1)
      in (h1, h2))"

definition spread64 :: "lanes64 \<Rightarrow> lanes64" where
  "spread64 h =
     (let (h1, h2) = h;
          h1 = h1 + h2; h2 = h2 + h1
      in (h1, h2))"

definition final64 :: "nat \<Rightarrow> lanes64 \<Rightarrow> lanes64" where
  "final64 len h =
     (let (h1, h2) = h;
          h1 = h1 XOR of_nat len; h2 = h2 XOR of_nat len;
          (h1, h2) = spread64 (h1, h2);
          h1 = fmix64 h1; h2 = fmix64 h2
      in spread64 (h1, h2))"

definition MurmurHash3_x64_128 :: "u8 list \<Rightarrow> nat \<Rightarrow> u32 \<Rightarrow> lanes64" where
  "MurmurHash3_x64_128 key len seed =
     (let nblocks = len div 16;
          blocks = getblock64 key 0;
          h = foldl (\<lambda>h i. body64 h (blocks (int i * 2 + 0), blocks (int i * 2 + 1)))
                (ucast seed, ucast seed) [0..<nblocks];
          h = tail64 key (nblocks * 16) len h
      in final64 len h)"

lemma murmur128_test_vectors:
  "MurmurHash3_x86_128 [] 0 1 = (0x88c4adec, 0x54d201b9, 0x54d201b9, 0x54d201b9)"
  "MurmurHash3_x64_128 [] 0 1 = (0x4610abe56eff5cb5, 0x51622daa78f83583)"
  by code_simp+

text \<open>The 43 bytes of a published test string: two blocks and a tail of eleven bytes.\<close>

definition pangram :: "u8 list" where
  "pangram =
     [84, 104, 101, 32, 113, 117, 105, 99, 107, 32, 98, 114, 111, 119, 110, 32, 102, 111, 120, 32,
     106, 117, 109, 112, 115, 32, 111, 118, 101, 114, 32, 116, 104, 101, 32, 108, 97, 122, 121, 32,
     100, 111, 103]"

lemma murmur128_pangram:
  "MurmurHash3_x86_128 pangram 43 0 = (0x2f1583c3, 0xecee2c67, 0x5d7bf66c, 0xe5e91d2c)"
  "MurmurHash3_x64_128 pangram 43 0 = (0xe34bbc7bbc071b6c, 0x7a433ca9c49a9347)"
  by code_simp+

section \<open>Permutations\<close>

lemma rotl64_inject:
  assumes "0 < r" "r < 64"
  shows "rotl64 x r = rotl64 y r \<longleftrightarrow> x = y"
proof
  assume eq: "rotl64 x r = rotl64 y r"
  show "x = y"
  proof (rule bit_word_eqI)
    fix k :: nat assume k: "k < LENGTH(64)"
    let ?j = "if k + r < 64 then k + r else k + r - 64"
    have "bit (rotl64 w r) ?j \<longleftrightarrow> bit w k" for w
      using k assms by (auto simp: rotl64_def bit_simps dest: bit_imp_le_length)
    with eq show "bit x k \<longleftrightarrow> bit y k" by metis
  qed
qed simp

lemma fmix64_inject: "fmix64 x = fmix64 y \<longleftrightarrow> x = y"
proof -
  have u: "(0xff51afd7ed558ccd :: u64) * 0x4f74430c22a54005 = 1" "(0xc4ceb9fe1a85ec53 :: u64) * 0x9cb4b2f8129337db = 1"
    by simp_all
  show ?thesis
    by (auto simp: fmix64_def Let_def mult_unit_inject [OF u(1)] mult_unit_inject [OF u(2)]
        dest!: shift_xor_inject [rotated])
qed

lemma times5_inject [simp]:
  "x * 5 = y * 5 \<longleftrightarrow> x = (y :: u32)" "v * 5 = w * 5 \<longleftrightarrow> v = (w :: u64)"
  by (simp_all add: mult_unit_inject [of _ "0xcccccccd"] mult_unit_inject [of _ "0xcccccccccccccccd"])

lemma scramble86_inject:
  assumes "c * c' = 1" "d * d' = 1" "0 < r" "r < 32"
  shows "scramble86 c r d x = scramble86 c r d y \<longleftrightarrow> x = y"
  using assms by (simp add: scramble86_def mult_unit_inject [OF assms(1)] mult_unit_inject [OF assms(2)] rotl32_inject)

lemma lane_scramble86_inject:
  "k1_86 x = k1_86 y \<longleftrightarrow> x = y" "k2_86 x = k2_86 y \<longleftrightarrow> x = y"
  "k3_86 x = k3_86 y \<longleftrightarrow> x = y" "k4_86 x = k4_86 y \<longleftrightarrow> x = y"
proof -
  have u: "(0x239b961b :: u32) * 0x89c95413 = 1" "(0xab0e9789 :: u32) * 0xdf130eb9 = 1"
    "(0x38b34ae5 :: u32) * 0x747862ed = 1" "(0xa1e38b93 :: u32) * 0x58d64a9b = 1" by simp_all
  show "k1_86 x = k1_86 y \<longleftrightarrow> x = y" "k2_86 x = k2_86 y \<longleftrightarrow> x = y"
    "k3_86 x = k3_86 y \<longleftrightarrow> x = y" "k4_86 x = k4_86 y \<longleftrightarrow> x = y"
    by (simp_all add: k1_86_def k2_86_def k3_86_def k4_86_def scramble86_inject [OF u(1,2)]
        scramble86_inject [OF u(2,3)] scramble86_inject [OF u(3,4)] scramble86_inject [OF u(4,1)])
qed

lemma lane_scramble64_inject: "k1_64 v = k1_64 w \<longleftrightarrow> v = w" "k2_64 v = k2_64 w \<longleftrightarrow> v = w"
proof -
  have u: "(0x87c37b91114253d5 :: u64) * 0xa98409e882ce4d7d = 1" "(0x4cf5ad432745937f :: u64) * 0xa81e14edd9de2c7f = 1"
    by simp_all
  show "k1_64 v = k1_64 w \<longleftrightarrow> v = w" "k2_64 v = k2_64 w \<longleftrightarrow> v = w"
    by (simp_all add: k1_64_def k2_64_def mult_unit_inject [OF u(1)] mult_unit_inject [OF u(2)] rotl64_inject)
qed

lemma scramble_0 [simp]: "k1_86 0 = 0" "k2_86 0 = 0" "k3_86 0 = 0" "k4_86 0 = 0" "k1_64 0 = 0" "k2_64 0 = 0"
  by (simp_all add: k1_86_def k2_86_def k3_86_def k4_86_def k1_64_def k2_64_def scramble86_def rotl32_def rotl64_def)

lemma body86_state: "body86 h k = body86 h' k \<Longrightarrow> h = h'"
  by (cases h; cases h'; cases k) (auto simp: body86_def Let_def rotl32_inject simp del: distrib_right_numeral distrib_left_numeral)

lemma body86_block: "body86 h k = body86 h k' \<Longrightarrow> k = k'"
  by (cases h; cases k; cases k') (auto simp: body86_def Let_def rotl32_inject lane_scramble86_inject)

lemma body64_state: "body64 h k = body64 h' k \<Longrightarrow> h = h'"
  by (cases h; cases h'; cases k) (auto simp: body64_def Let_def rotl64_inject simp del: distrib_right_numeral distrib_left_numeral)

lemma body64_block: "body64 h k = body64 h k' \<Longrightarrow> k = k'"
  by (cases h; cases k; cases k') (auto simp: body64_def Let_def rotl64_inject lane_scramble64_inject)

lemma spread86_inject: "spread86 h = spread86 h' \<Longrightarrow> h = h'"
proof (cases h; cases h')
  fix a b c d a' b' c' d'
  assume h: "h = (a, b, c, d)" "h' = (a', b', c', d')" and eq: "spread86 h = spread86 h'"
  define s where "s = a + b + c + d"
  from eq have "s = a' + b' + c' + d'" "b + s = b' + (a' + b' + c' + d')" "c + s = c' + (a' + b' + c' + d')"
    "d + s = d' + (a' + b' + c' + d')"
    unfolding s_def h spread86_def Let_def prod.case prod.inject by blast+
  then have "b = b'" "c = c'" "d = d'" "s = a' + b' + c' + d'" by (simp_all only: add_right_cancel)
  with h show ?thesis by (simp add: s_def)
qed

lemma spread64_inject: "spread64 h = spread64 h' \<Longrightarrow> h = h'"
proof (cases h; cases h')
  fix a b a' b'
  assume h: "h = (a, b)" "h' = (a', b')" and eq: "spread64 h = spread64 h'"
  define s where "s = a + b"
  from eq have "s = a' + b'" "b + s = b' + (a' + b')"
    unfolding s_def h spread64_def Let_def prod.case prod.inject by blast+
  then have "b = b'" "s = a' + b'" by (simp_all only: add_right_cancel)
  with h show ?thesis by (simp add: s_def)
qed

lemma final86_inject: "final86 n h = final86 n h' \<Longrightarrow> h = h'"
proof (cases h; cases h')
  fix a b c d a' b' c' d'
  assume h: "h = (a, b, c, d)" "h' = (a', b', c', d')" and eq: "final86 n h = final86 n h'"
  let ?x = "\<lambda>a b c d. spread86 (a XOR of_nat n, b XOR of_nat n, c XOR of_nat n, d XOR of_nat n)"
  obtain p q r s where p: "?x a b c d = (p, q, r, s)" by (metis prod_cases4)
  obtain p' q' r' s' where p': "?x a' b' c' d' = (p', q', r', s')" by (metis prod_cases4)
  from eq have "spread86 (fmix32 p, fmix32 q, fmix32 r, fmix32 s) = spread86 (fmix32 p', fmix32 q', fmix32 r', fmix32 s')"
    by (simp add: h final86_def Let_def p p')
  from spread86_inject [OF this] have "?x a b c d = ?x a' b' c' d'" by (simp add: p p' fmix32_inject)
  from spread86_inject [OF this] show ?thesis by (simp add: h)
qed

lemma final64_inject: "final64 n h = final64 n h' \<Longrightarrow> h = h'"
proof (cases h; cases h')
  fix a b a' b'
  assume h: "h = (a, b)" "h' = (a', b')" and eq: "final64 n h = final64 n h'"
  let ?x = "\<lambda>a b. spread64 (a XOR of_nat n, b XOR of_nat n)"
  obtain p q where p: "?x a b = (p, q)" by (metis prod.exhaust)
  obtain p' q' where p': "?x a' b' = (p', q')" by (metis prod.exhaust)
  from eq have "spread64 (fmix64 p, fmix64 q) = spread64 (fmix64 p', fmix64 q')"
    by (simp add: h final64_def Let_def p p')
  from spread64_inject [OF this] have "?x a b = ?x a' b'" by (simp add: p p' fmix64_inject)
  from spread64_inject [OF this] show ?thesis by (simp add: h)
qed

section \<open>Blocks and tails\<close>

definition quad :: "u8 list \<Rightarrow> lanes86" where
  "quad b = (le_word (take 4 b), le_word (take 4 (drop 4 b)), le_word (take 4 (drop 8 b)), le_word (take 4 (drop 12 b)))"

definition pair :: "u8 list \<Rightarrow> lanes64" where
  "pair b = (le_word (take 8 b), le_word (take 8 (drop 8 b)))"

definition mix86 :: "lanes86 \<Rightarrow> u8 list \<Rightarrow> lanes86" where
  "mix86 h b = body86 h (quad b)"

definition mix64 :: "lanes64 \<Rightarrow> u8 list \<Rightarrow> lanes64" where
  "mix64 h b = body64 h (pair b)"

definition rest86 :: "lanes86 \<Rightarrow> u8 list \<Rightarrow> lanes86" where
  "rest86 h b = (case (h, quad b) of ((h1, h2, h3, h4), (k1, k2, k3, k4)) \<Rightarrow>
     (h1 XOR k1_86 k1, h2 XOR k2_86 k2, h3 XOR k3_86 k3, h4 XOR k4_86 k4))"

definition rest64 :: "lanes64 \<Rightarrow> u8 list \<Rightarrow> lanes64" where
  "rest64 h b = (case (h, pair b) of ((h1, h2), (k1, k2)) \<Rightarrow> (h1 XOR k1_64 k1, h2 XOR k2_64 k2))"

lemma word_chunk_eq:
  assumes "(le_word (take m (drop j b)) :: 'a::len word) = le_word (take m (drop j b'))" "length b = length b'" "8 * m \<le> LENGTH('a)"
  shows "take m (drop j b) = take m (drop j b')"
proof -
  have "length (take m (drop j b)) = length (take m (drop j b'))" "8 * length (take m (drop j b)) \<le> LENGTH('a)"
    using assms(2,3) by simp_all
  from le_word_inject [OF this] assms(1) show ?thesis by blast
qed

lemma take_drop_join: "take m (drop j b) = take m (drop j b') \<Longrightarrow> drop (j + m) b = drop (j + m) b' \<Longrightarrow> drop j b = drop j b'"
  by (metis append_take_drop_id drop_drop add.commute)

lemma quad_inject:
  assumes "quad b = quad b'" "length b = length b'" "length b \<le> 16"
  shows "b = b'"
proof -
  from assms(1) have w: "(le_word (take 4 (drop 0 b)) :: u32) = le_word (take 4 (drop 0 b'))"
    "(le_word (take 4 (drop 4 b)) :: u32) = le_word (take 4 (drop 4 b'))"
    "(le_word (take 4 (drop 8 b)) :: u32) = le_word (take 4 (drop 8 b'))"
    "(le_word (take 4 (drop 12 b)) :: u32) = le_word (take 4 (drop 12 b'))"
    by (simp_all add: quad_def)
  have "drop 16 b = drop 16 b'" using assms(2,3) by simp
  with word_chunk_eq [OF w(4) assms(2)] take_drop_join [of 4 12 b b'] have "drop 12 b = drop 12 b'" by simp
  with word_chunk_eq [OF w(3) assms(2)] take_drop_join [of 4 8 b b'] have "drop 8 b = drop 8 b'" by simp
  with word_chunk_eq [OF w(2) assms(2)] take_drop_join [of 4 4 b b'] have "drop 4 b = drop 4 b'" by simp
  with word_chunk_eq [OF w(1) assms(2)] take_drop_join [of 4 0 b b'] show ?thesis by simp
qed

lemma pair_inject:
  assumes "pair b = pair b'" "length b = length b'" "length b \<le> 16"
  shows "b = b'"
proof -
  from assms(1) have w: "(le_word (take 8 (drop 0 b)) :: u64) = le_word (take 8 (drop 0 b'))"
    "(le_word (take 8 (drop 8 b)) :: u64) = le_word (take 8 (drop 8 b'))"
    by (simp_all add: pair_def)
  have "drop 16 b = drop 16 b'" using assms(2,3) by simp
  with word_chunk_eq [OF w(2) assms(2)] take_drop_join [of 8 8 b b'] have "drop 8 b = drop 8 b'" by simp
  with word_chunk_eq [OF w(1) assms(2)] take_drop_join [of 8 0 b b'] show ?thesis by simp
qed

lemma rest86_inject: "rest86 h b = rest86 h b' \<Longrightarrow> quad b = quad b'" "rest86 h b = rest86 h' b \<Longrightarrow> h = h'"
  by (auto simp: rest86_def lane_scramble86_inject split: prod.splits)

lemma rest64_inject: "rest64 h b = rest64 h b' \<Longrightarrow> pair b = pair b'" "rest64 h b = rest64 h' b \<Longrightarrow> h = h'"
  by (auto simp: rest64_def lane_scramble64_inject split: prod.splits)

interpretation m86: block_hash mix86 rest86 16
proof unfold_locales
  fix b b' :: "u8 list" and s
  show "b = b'" if "length b = 16" "length b' = 16" "mix86 s b = mix86 s b'"
    by (rule quad_inject) (use that in \<open>auto simp: mix86_def dest: body86_block\<close>)
  show "b = b'" if "length b < 16" "length b' = length b" "rest86 s b = rest86 s b'"
    by (rule quad_inject) (use that in \<open>auto dest: rest86_inject\<close>)
qed (auto simp: mix86_def dest: body86_state rest86_inject)

interpretation m64: block_hash mix64 rest64 16
proof unfold_locales
  fix b b' :: "u8 list" and s
  show "b = b'" if "length b = 16" "length b' = 16" "mix64 s b = mix64 s b'"
    by (rule pair_inject) (use that in \<open>auto simp: mix64_def dest: body64_block\<close>)
  show "b = b'" if "length b < 16" "length b' = length b" "rest64 s b = rest64 s b'"
    by (rule pair_inject) (use that in \<open>auto dest: rest64_inject\<close>)
qed (auto simp: mix64_def dest: body64_state rest64_inject)

section \<open>The loops and switches\<close>

lemma getblock32_chunk:
  assumes "c < 4"
  shows "getblock32 key (n * 16) ((int j - int n) * 4 + int c) = le_word (take 4 (drop (4 * c) (take 16 (drop (16 * j) key))))"
proof -
  have "nat (int (n * 16) + 4 * ((int j - int n) * 4 + int c)) = 16 * j + 4 * c" by simp
  moreover have "min 4 (16 - 4 * c) = 4" using assms by simp
  ultimately show ?thesis by (simp add: getblock32_def drop_take add.commute)
qed

lemma getblock64_chunk:
  assumes "c < 2"
  shows "getblock64 key 0 (int j * 2 + int c) = le_word (take 8 (drop (8 * c) (take 16 (drop (16 * j) key))))"
proof -
  have "nat (int 0 + 8 * (int j * 2 + int c)) = 16 * j + 8 * c" by simp
  moreover have "min 8 (16 - 8 * c) = 8" using assms by simp
  ultimately show ?thesis by (simp add: getblock64_def drop_take add.commute)
qed

lemma loop86:
  "foldl (\<lambda>h i. body86 h (getblock32 key (n * 16) (i * 4 + 0), getblock32 key (n * 16) (i * 4 + 1),
      getblock32 key (n * 16) (i * 4 + 2), getblock32 key (n * 16) (i * 4 + 3))) h [- int n..-1] =
    foldl mix86 h (chunks 16 key n)"
  using getblock32_chunk [of 0 key n] getblock32_chunk [of 1 key n] getblock32_chunk [of 2 key n] getblock32_chunk [of 3 key n]
  by (intro foldl_negative) (simp add: mix86_def quad_def)

lemma loop64:
  "foldl (\<lambda>h i. body64 h (getblock64 key 0 (int i * 2 + 0), getblock64 key 0 (int i * 2 + 1))) h [0..<n] =
    foldl mix64 h (chunks 16 key n)"
  using getblock64_chunk [of 0 key] getblock64_chunk [of 1 key]
  unfolding chunks_def foldl_map by (intro foldl_cong) (simp_all add: mix64_def pair_def)

lemma lane_label:
  assumes "length bs = n" "f 0 = (0 :: 'a::len word)"
  shows "(if Suc j \<le> n then h XOR f (le_word (take m (drop j bs))) else h) = h XOR f (le_word (take m (drop j bs)))"
  using assms by auto

lemma tail86_rest:
  assumes "base + len mod 16 \<le> length key"
  shows "tail86 key base len h = rest86 h (take (len mod 16) (drop base key))"
proof -
  obtain h1 h2 h3 h4 where h: "h = (h1, h2, h3, h4)" by (metis prod_cases4)
  define n where "n = len mod 16"
  define bs where "bs = take n (drop base key)"
  have len: "length bs = n" and n: "n < 16" using assms by (simp_all add: bs_def n_def)
  have nth: "bs ! i = key ! (base + i)" if "i < n" for i using that assms by (simp add: bs_def n_def)
  note word = fall_word4 [where t = "\<lambda>i. key ! (base + i)" and 'a = 32, OF len nth]
  note label = lane_label [OF len]
  have k4: "fall n 13 (ucast (key ! (base + 12))) (fall n 14 (push_bit 8 (ucast (key ! (base + 13))))
      (fall n 15 (push_bit 16 (ucast (key ! (base + 14)))) 0)) = (le_word (take 4 (drop 12 bs)) :: u32)"
    using word [of 12] n by (simp add: fall_def [of n 16])
  have k3: "fall n 9 (ucast (key ! (base + 8))) (fall n 10 (push_bit 8 (ucast (key ! (base + 9))))
      (fall n 11 (push_bit 16 (ucast (key ! (base + 10)))) (fall n 12 (push_bit 24 (ucast (key ! (base + 11)))) 0))) =
      (le_word (take 4 (drop 8 bs)) :: u32)"
    using word [of 8] by simp
  have k2: "fall n 5 (ucast (key ! (base + 4))) (fall n 6 (push_bit 8 (ucast (key ! (base + 5))))
      (fall n 7 (push_bit 16 (ucast (key ! (base + 6)))) (fall n 8 (push_bit 24 (ucast (key ! (base + 7)))) 0))) =
      (le_word (take 4 (drop 4 bs)) :: u32)"
    using word [of 4] by simp
  have k1: "fall n 1 (ucast (key ! (base + 0))) (fall n 2 (push_bit 8 (ucast (key ! (base + 1))))
      (fall n 3 (push_bit 16 (ucast (key ! (base + 2)))) (fall n 4 (push_bit 24 (ucast (key ! (base + 3)))) 0))) =
      (le_word (take 4 (drop 0 bs)) :: u32)"
    using word [of 0] by (simp only: add_0)
  show ?thesis
    unfolding n_def [symmetric] bs_def [symmetric] tail86_def Let_def h prod.case rest86_def quad_def k4 k3 k2 k1
    using label [of k4_86 12 h4 4] label [of k3_86 8 h3 4] label [of k2_86 4 h2 4] label [of k1_86 0 h1 4]
    by simp
qed

lemma tail64_rest:
  assumes "base + len mod 16 \<le> length key"
  shows "tail64 key base len h = rest64 h (take (len mod 16) (drop base key))"
proof -
  obtain h1 h2 where h: "h = (h1, h2)" by (metis prod.exhaust)
  define n where "n = len mod 16"
  define bs where "bs = take n (drop base key)"
  have len: "length bs = n" and n: "n < 16" using assms by (simp_all add: bs_def n_def)
  have nth: "bs ! i = key ! (base + i)" if "i < n" for i using that assms by (simp add: bs_def n_def)
  note word = fall_word8 [where t = "\<lambda>i. key ! (base + i)" and 'a = 64, OF len nth]
  note label = lane_label [OF len]
  have k2: "fall n 9 (ucast (key ! (base + 8))) (fall n 10 (push_bit 8 (ucast (key ! (base + 9))))
      (fall n 11 (push_bit 16 (ucast (key ! (base + 10)))) (fall n 12 (push_bit 24 (ucast (key ! (base + 11))))
      (fall n 13 (push_bit 32 (ucast (key ! (base + 12)))) (fall n 14 (push_bit 40 (ucast (key ! (base + 13))))
      (fall n 15 (push_bit 48 (ucast (key ! (base + 14)))) 0)))))) = (le_word (take 8 (drop 8 bs)) :: u64)"
    using word [of 8] n by (simp add: fall_def [of n 16])
  have k1: "fall n 1 (ucast (key ! (base + 0))) (fall n 2 (push_bit 8 (ucast (key ! (base + 1))))
      (fall n 3 (push_bit 16 (ucast (key ! (base + 2)))) (fall n 4 (push_bit 24 (ucast (key ! (base + 3))))
      (fall n 5 (push_bit 32 (ucast (key ! (base + 4)))) (fall n 6 (push_bit 40 (ucast (key ! (base + 5))))
      (fall n 7 (push_bit 48 (ucast (key ! (base + 6)))) (fall n 8 (push_bit 56 (ucast (key ! (base + 7)))) 0))))))) =
      (le_word (take 8 (drop 0 bs)) :: u64)"
    using word [of 0] by (simp only: add_0)
  show ?thesis
    unfolding n_def [symmetric] bs_def [symmetric] tail64_def Let_def h prod.case rest64_def pair_def k2 k1
    using label [of k2_64 8 h2 8] label [of k1_64 0 h1 8]
    by simp
qed

lemma drop_last_block: "drop (len div 16 * 16) (take len key) = take (len mod 16) (drop (len div 16 * 16) key)"
  by (simp add: drop_take minus_div_mult_eq_mod)

lemma murmur86_absorb:
  assumes "len \<le> length key"
  shows "MurmurHash3_x86_128 key len seed =
    final86 len (absorb mix86 rest86 16 (seed, seed, seed, seed) (take len key))"
proof -
  have "len div 16 * 16 + len mod 16 \<le> length key" using assms by simp
  from tail86_rest [OF this] show ?thesis
    using absorb_loop [of 16 rest86 mix86 "(seed, seed, seed, seed)" "take len key"] assms
    by (simp add: MurmurHash3_x86_128_def Let_def loop86 [simplified] chunks_take drop_last_block)
qed

lemma murmur64_absorb:
  assumes "len \<le> length key"
  shows "MurmurHash3_x64_128 key len seed =
    final64 len (absorb mix64 rest64 16 (ucast seed, ucast seed) (take len key))"
proof -
  have "len div 16 * 16 + len mod 16 \<le> length key" using assms by simp
  from tail64_rest [OF this] show ?thesis
    using absorb_loop [of 16 rest64 mix64 "(ucast seed, ucast seed)" "take len key"] assms
    by (simp add: MurmurHash3_x64_128_def Let_def loop64 [simplified] chunks_take drop_last_block)
qed

section \<open>Properties\<close>

text \<open>
  Property C20. Both 128-bit variants read the first \<open>len\<close> bytes of the key and nothing behind
  them, and are the finalization of one pass over these bytes in blocks of sixteen, the last one
  padded with zeros: the index loops, one with negative indices, and the switches with fifteen
  labels that fall through add nothing to that.
\<close>

theorem murmur128_reference:
  assumes "len \<le> length key"
  shows "MurmurHash3_x86_128 key len seed =
      final86 len (absorb mix86 rest86 16 (seed, seed, seed, seed) (take len key)) \<and>
    MurmurHash3_x64_128 key len seed =
      final64 len (absorb mix64 rest64 16 (ucast seed, ucast seed) (take len key))"
  by (simp add: murmur86_absorb [OF assms] murmur64_absorb [OF assms])

theorem murmur128_reference_witness:
  "MurmurHash3_x86_128 [0x21, 0x43, 0x65, 0x87, 0xFF] 3 112 =
      final86 3 (rest86 (112, 112, 112, 112) [0x21, 0x43, 0x65]) \<and>
   MurmurHash3_x64_128 [0x21, 0x43, 0x65, 0x87, 0xFF] 3 112 =
      final64 3 (rest64 (112, 112) [0x21, 0x43, 0x65])"
proof -
  have "take 3 [0x21, 0x43, 0x65, 0x87, 0xFF :: u8] = [0x21, 0x43, 0x65]" by (simp add: eval_nat_numeral)
  then show ?thesis
    using murmur128_reference [of 3 "[0x21, 0x43, 0x65, 0x87, 0xFF]" 112] by (simp add: absorb_short)
qed

text \<open>
  Both 128-bit variants tell apart any two keys of the same length that differ inside
  one aligned block of sixteen bytes, or in the tail behind the last block, whatever the seed.
\<close>

theorem murmur128_block_collision_free:
  assumes "16 dvd length pre" "length a = length b" "length a = 16 \<or> length a < 16 \<and> post = []" "a \<noteq> b"
  shows "MurmurHash3_x86_128 (pre @ a @ post) (length (pre @ a @ post)) seed \<noteq>
      MurmurHash3_x86_128 (pre @ b @ post) (length (pre @ b @ post)) seed \<and>
    MurmurHash3_x64_128 (pre @ a @ post) (length (pre @ a @ post)) seed \<noteq>
      MurmurHash3_x64_128 (pre @ b @ post) (length (pre @ b @ post)) seed"
  using m86.collision_free [OF assms, of "(seed, seed, seed, seed)"] m64.collision_free [OF assms, of "(ucast seed, ucast seed)"]
  by (auto simp: murmur86_absorb murmur64_absorb assms(2) dest: final86_inject final64_inject)

theorem murmur128_block_collision_free_witness:
  "MurmurHash3_x64_128 [43, 52, 48, 55, 49, 50, 51, 52, 53, 54, 55, 56] 12 112 \<noteq>
     MurmurHash3_x64_128 [43, 52, 48, 55, 49, 50, 51, 52, 53, 54, 55, 57] 12 112"
  using murmur128_block_collision_free [of "[]" "[43, 52, 48, 55, 49, 50, 51, 52, 53, 54, 55, 56]"
      "[43, 52, 48, 55, 49, 50, 51, 52, 53, 54, 55, 57]" "[]" 112]
  by (simp add: eval_nat_numeral)

end
