(* ===== verification/TimedFilter.thy ===== *)
theory TimedFilter
  imports Prelude
begin

text \<open>
  The contract of a duplicate filter whose keys expire: at a time a key is known under an item
  or not, a test notes who was heard with it, and nothing but the clock makes a key unknown
  while only tests happen. The client lemma says what an item has collected at any later time
  of its life.
\<close>

primrec touch_all :: "('t \<Rightarrow> 's \<Rightarrow> 'k \<Rightarrow> 'm \<Rightarrow> 's) \<Rightarrow> 's \<Rightarrow> ('t \<times> 'k \<times> 'm) list \<Rightarrow> 's" where
  "touch_all touch s [] = s"
| "touch_all touch s (x # xs) =
     touch_all touch (touch (fst x) s (fst (snd x)) (snd (snd x))) xs"

definition heard_with :: "'k \<Rightarrow> ('t \<times> 'k \<times> 'm) list \<Rightarrow> 'm list" where
  "heard_with k xs = map (snd \<circ> snd) (filter (\<lambda>x. fst (snd x) = k) xs)"

locale timed_filter =
  fixes known :: "'t::linorder \<Rightarrow> 's \<Rightarrow> 'k \<Rightarrow> 'e option"
    and touch :: "'t \<Rightarrow> 's \<Rightarrow> 'k \<Rightarrow> 'm \<Rightarrow> 's"
    and note_sender :: "'e \<Rightarrow> 'm \<Rightarrow> 'e"
    and expiry :: "'e \<Rightarrow> 't"
    and inv :: "'s \<Rightarrow> bool"
    and okey :: "'k \<Rightarrow> bool"
    and osender :: "'m \<Rightarrow> bool"
  assumes known_expiry: "inv s \<Longrightarrow> known t s k = Some e \<Longrightarrow> t < expiry e"
    and known_until: "inv s \<Longrightarrow> known t s k = Some e \<Longrightarrow> t' < expiry e \<Longrightarrow> known t' s k = Some e"
    and known_touch: "inv s \<Longrightarrow> okey k \<Longrightarrow> osender m \<Longrightarrow>
      known t (touch t s k m) j = (if j = k then map_option (\<lambda>e. note_sender e m) (known t s k) else known t s j)"
    and expiry_note: "expiry (note_sender e m) = expiry e"
    and inv_touch: "inv s \<Longrightarrow> okey k \<Longrightarrow> osender m \<Longrightarrow> inv (touch t s k m)"
begin

text \<open>An item that is known at some time is known exactly until it expires.\<close>

lemma known_window:
  assumes "inv s" "known t s k = Some e"
  shows "known t' s k = (if t' < expiry e then Some e else None)"
proof (cases "t' < expiry e")
  case True
  with known_until [OF assms] show ?thesis by simp
next
  case False
  have "known t' s k \<noteq> Some d" for d
  proof
    assume d: "known t' s k = Some d"
    have "t < expiry d" using known_expiry [OF assms] known_expiry [OF assms(1) d] False by simp
    with known_until [OF assms(1) d] assms(2) have "d = e" by simp
    with known_expiry [OF assms(1) d] False show False by simp
  qed
  with False show ?thesis by (cases "known t' s k") auto
qed

lemma expiry_notes: "expiry (foldl note_sender e ms) = expiry e"
  by (induction ms arbitrary: e) (simp_all add: expiry_note)

lemma collected:
  assumes "inv s" "known t s k = Some e"
    "\<forall>x \<in> set xs. fst x < expiry e \<and> okey (fst (snd x)) \<and> osender (snd (snd x))" "T < expiry e"
  shows "known T (touch_all touch s xs) k = Some (foldl note_sender e (heard_with k xs))"
  using assms
proof (induction xs arbitrary: s t e)
  case Nil
  from known_until [OF Nil.prems(1,2,4)] show ?case by (simp add: heard_with_def)
next
  case (Cons x xs)
  obtain u j m where x: "x = (u, j, m)" by (cases x)
  with Cons.prems have ok: "okey j" "osender m" "u < expiry e" by auto
  have inv: "inv (touch u s j m)" using Cons.prems(1) ok(1,2) by (rule inv_touch)
  have "known u s k = Some e" using Cons.prems(1,2) ok(3) by (rule known_until)
  then have k: "known u (touch u s j m) k = Some (if k = j then note_sender e m else e)"
    using Cons.prems(1) ok by (cases "k = j") (simp_all add: known_touch)
  have "known T (touch_all touch (touch u s j m) xs) k =
      Some (foldl note_sender (if k = j then note_sender e m else e) (heard_with k xs))"
    by (rule Cons.IH [OF inv k]) (use Cons.prems(3,4) in \<open>auto simp: expiry_note\<close>)
  then show ?case by (simp add: x heard_with_def)
qed

end

end
