(* ===== verification/TimeAwareCache.thy ===== *)
theory TimeAwareCache
  imports Packet TimedFilter
begin

text \<open>
  timeAwareCache.cpp of the ESP32 relay: 256 entries that expire 2000 ms after they were
  stored, each with the packet to send on and the first four sender addresses it was heard
  from. checkCache and addToCache are the code's index loops; \<open>look\<close> is the abstraction (the
  entry under which a signature is known at a time), and the lemmas say what each operation
  does to it, to the shape of the table and to the count of distinct senders. Rows are read and
  written here without a look at the index; CacheBounds has every access checked, and shows that
  in the states a relay can reach the checks never fail and change nothing.
\<close>

section \<open>Model\<close>

definition CACHE_SIZE :: nat where
  "CACHE_SIZE = 256"

definition HASH_SIZE :: nat where
  "HASH_SIZE = 8"

definition CACHE_TTL_MS :: u32 where
  "CACHE_TTL_MS = 2000"

definition MAX_TRACKED_MACS :: nat where
  "MAX_TRACKED_MACS = 4"

definition MAC_LEN :: nat where
  "MAC_LEN = 6"

record cacheEntry =
  entry_hmac :: "u8 list"
  expires_at :: u32
  rx_count :: u8
  active :: bool
  broadcasted :: bool
  broadcast_time :: u32
  entry_packet :: emergencyPacket
  seen_macs :: "u8 list list"

record timeAwareCache =
  entries :: "cacheEntry list"

datatype mac_status = StatusForward | StatusDrop

definition zero_entry :: cacheEntry where
  "zero_entry = \<lparr>entry_hmac = replicate HASH_SIZE 0, expires_at = 0, rx_count = 0, active = False,
     broadcasted = False, broadcast_time = 0, entry_packet = zero_packet,
     seen_macs = replicate MAX_TRACKED_MACS (replicate MAC_LEN 0)\<rparr>"

definition zero_cache :: timeAwareCache where
  "zero_cache = \<lparr>entries = replicate CACHE_SIZE zero_entry\<rparr>"

subsection \<open>checkCache\<close>

function mac_known_from :: "cacheEntry \<Rightarrow> u8 list \<Rightarrow> nat \<Rightarrow> bool" where
  "mac_known_from e mac j =
     (if j < unat (rx_count e) \<and> j < MAX_TRACKED_MACS
      then (if memeq MAC_LEN (seen_macs e ! j) mac then True else mac_known_from e mac (Suc j))
      else False)"
  by pat_completeness auto
termination
  by (relation "measure (\<lambda>(e, mac, j). MAX_TRACKED_MACS - j)") auto

declare mac_known_from.simps [simp del]

definition hear_mac :: "cacheEntry \<Rightarrow> u8 list \<Rightarrow> cacheEntry" where
  "hear_mac e mac =
     (let mac_known = mac_known_from e mac 0
      in if \<not> mac_known \<and> unat (rx_count e) < MAX_TRACKED_MACS
         then (let j = unat (rx_count e)
               in e\<lparr>seen_macs := (seen_macs e)[j := memcpy (seen_macs e ! j) mac MAC_LEN],
                    rx_count := rx_count e + 1\<rparr>)
         else e)"

text \<open>
  The status text: the FORWARD text is stored when the sender is known, then the DROP text
  replaces it unconditionally.
\<close>

definition mac_status_after :: "cacheEntry \<Rightarrow> u8 list \<Rightarrow> mac_status option \<Rightarrow> mac_status option" where
  "mac_status_after e mac st =
     (let st1 = (if mac_known_from e mac 0 then Some StatusForward else st);
          st2 = Some StatusDrop
      in st2)"

function checkCache_from :: "timeAwareCache \<Rightarrow> u8 list \<Rightarrow> u32 \<Rightarrow> u8 list \<Rightarrow> mac_status option \<Rightarrow> nat \<Rightarrow>
    timeAwareCache \<times> mac_status option \<times> int" where
  "checkCache_from c h now mac st i =
     (if i < CACHE_SIZE
      then (let e = entries c ! i
            in if active e
               then (if now \<ge> expires_at e
                     then checkCache_from (c\<lparr>entries := (entries c)[i := e\<lparr>active := False\<rparr>]\<rparr>) h now mac st (Suc i)
                     else if memeq HASH_SIZE (entry_hmac e) h
                     then (c\<lparr>entries := (entries c)[i := hear_mac e mac]\<rparr>, mac_status_after e mac st, int i)
                     else checkCache_from c h now mac st (Suc i))
               else checkCache_from c h now mac st (Suc i))
      else (c, st, -1))"
  by pat_completeness auto
termination
  by (relation "measure (\<lambda>(c, h, now, mac, st, i). CACHE_SIZE - i)") auto

declare checkCache_from.simps [simp del]

definition checkCache :: "timeAwareCache \<Rightarrow> u8 list \<Rightarrow> u32 \<Rightarrow> u8 list \<Rightarrow> mac_status option \<Rightarrow>
    timeAwareCache \<times> mac_status option \<times> int" where
  "checkCache c h now mac st = checkCache_from c h now mac st 0"

subsection \<open>addToCache\<close>

function purge_from :: "timeAwareCache \<Rightarrow> u32 \<Rightarrow> int \<Rightarrow> nat \<Rightarrow> timeAwareCache \<times> int" where
  "purge_from c now target i =
     (if i < CACHE_SIZE
      then (let e = entries c ! i
            in if \<not> active e \<or> now \<ge> expires_at e
               then purge_from (c\<lparr>entries := (entries c)[i := e\<lparr>active := False\<rparr>]\<rparr>) now
                      (if target = -1 then int i else target) (Suc i)
               else purge_from c now target (Suc i))
      else (c, target))"
  by pat_completeness auto
termination
  by (relation "measure (\<lambda>(c, now, target, i). CACHE_SIZE - i)") auto

declare purge_from.simps [simp del]

function oldest_from :: "timeAwareCache \<Rightarrow> u32 \<Rightarrow> nat \<Rightarrow> nat \<Rightarrow> nat" where
  "oldest_from c oldest_time target i =
     (if i < CACHE_SIZE
      then (if expires_at (entries c ! i) < oldest_time
            then oldest_from c (expires_at (entries c ! i)) i (Suc i)
            else oldest_from c oldest_time target (Suc i))
      else target)"
  by pat_completeness auto
termination
  by (relation "measure (\<lambda>(c, t, target, i). CACHE_SIZE - i)") auto

declare oldest_from.simps [simp del]

definition fill_entry :: "cacheEntry \<Rightarrow> u8 list \<Rightarrow> emergencyPacket \<Rightarrow> u32 \<Rightarrow> u32 \<Rightarrow> u8 list \<Rightarrow> cacheEntry" where
  "fill_entry e h p now jitter mac =
     e\<lparr>entry_hmac := memcpy (entry_hmac e) h HASH_SIZE,
       entry_packet := p,
       expires_at := now + CACHE_TTL_MS,
       broadcast_time := now + jitter,
       rx_count := 1,
       seen_macs := (seen_macs e)[0 := memcpy (seen_macs e ! 0) mac MAC_LEN],
       active := True,
       broadcasted := False\<rparr>"

definition addToCache :: "timeAwareCache \<Rightarrow> u8 list \<Rightarrow> emergencyPacket \<Rightarrow> u32 \<Rightarrow> u32 \<Rightarrow> u8 list \<Rightarrow>
    timeAwareCache \<times> int" where
  "addToCache c h p now jitter mac =
     (let (c1, target) = purge_from c now (-1) 0;
          idx = (if target = -1 then oldest_from c1 0xFFFFFFFF 0 0 else nat target)
      in (c1\<lparr>entries := (entries c1)[idx := fill_entry (entries c1 ! idx) h p now jitter mac]\<rparr>, int idx))"

section \<open>Shape, entry invariant and abstraction\<close>

definition wf_hash :: "u8 list \<Rightarrow> bool" where
  "wf_hash h \<longleftrightarrow> length h = HASH_SIZE"

definition wf_mac :: "u8 list \<Rightarrow> bool" where
  "wf_mac m \<longleftrightarrow> length m = MAC_LEN"

definition heard :: "cacheEntry \<Rightarrow> u8 list list" where
  "heard e = take (unat (rx_count e)) (seen_macs e)"

text \<open>Array sizes, and for a used entry: between one and four senders, all different.\<close>

definition wf_entry :: "cacheEntry \<Rightarrow> bool" where
  "wf_entry e \<longleftrightarrow> wf_hash (entry_hmac e) \<and> wf_packet (entry_packet e) \<and>
     length (seen_macs e) = MAX_TRACKED_MACS \<and> (\<forall>m \<in> set (seen_macs e). wf_mac m) \<and>
     unat (rx_count e) \<le> MAX_TRACKED_MACS \<and> distinct (heard e) \<and> (active e \<longrightarrow> 0 < unat (rx_count e))"

definition wf_cache :: "timeAwareCache \<Rightarrow> bool" where
  "wf_cache c \<longleftrightarrow> length (entries c) = CACHE_SIZE \<and> (\<forall>e \<in> set (entries c). wf_entry e)"

definition unique_hashes :: "timeAwareCache \<Rightarrow> bool" where
  "unique_hashes c \<longleftrightarrow> (\<forall>i < CACHE_SIZE. \<forall>j < CACHE_SIZE. i \<noteq> j \<and> active (entries c ! i) \<and> active (entries c ! j)
     \<longrightarrow> entry_hmac (entries c ! i) \<noteq> entry_hmac (entries c ! j))"

definition cache_inv :: "timeAwareCache \<Rightarrow> bool" where
  "cache_inv c \<longleftrightarrow> wf_cache c \<and> unique_hashes c"

definition live :: "u32 \<Rightarrow> cacheEntry \<Rightarrow> bool" where
  "live now e \<longleftrightarrow> active e \<and> now < expires_at e"

definition purge :: "u32 \<Rightarrow> cacheEntry \<Rightarrow> cacheEntry" where
  "purge now e = (if active e \<and> expires_at e \<le> now then e\<lparr>active := False\<rparr> else e)"

definition look :: "u32 \<Rightarrow> timeAwareCache \<Rightarrow> u8 list \<Rightarrow> cacheEntry option" where
  "look now c h = find (\<lambda>e. live now e \<and> entry_hmac e = h) (entries c)"

section \<open>Counting senders\<close>

lemma wf_entry_mac_row: "wf_entry e \<Longrightarrow> j < MAX_TRACKED_MACS \<Longrightarrow> wf_mac (seen_macs e ! j)"
  by (simp add: wf_entry_def)

lemma length_heard: "wf_entry e \<Longrightarrow> length (heard e) = unat (rx_count e)"
  by (simp add: wf_entry_def heard_def)

lemma mac_known_from_iff:
  assumes "wf_entry e" "wf_mac mac"
  shows "mac_known_from e mac j \<longleftrightarrow> mac \<in> set (drop j (heard e))"
  using assms
proof (induction e mac j rule: mac_known_from.induct)
  case (1 e mac j)
  show ?case
  proof (cases "j < unat (rx_count e) \<and> j < MAX_TRACKED_MACS")
    case True
    with "1.prems" have j: "j < length (heard e)" by (simp add: length_heard)
    with True have d: "drop j (heard e) = seen_macs e ! j # drop (Suc j) (heard e)"
      by (simp add: Cons_nth_drop_Suc [symmetric] heard_def)
    have m: "memeq MAC_LEN (seen_macs e ! j) mac \<longleftrightarrow> seen_macs e ! j = mac"
      using "1.prems" True wf_entry_mac_row [of e j] by (simp add: wf_mac_def)
    show ?thesis
    proof (cases "seen_macs e ! j = mac")
      case True
      with j m d show ?thesis
        using \<open>j < unat (rx_count e) \<and> _\<close> by (simp add: mac_known_from.simps [of e mac j])
    next
      case False
      with True m d "1.IH" "1.prems" show ?thesis by (simp add: mac_known_from.simps [of e mac j])
    qed
  next
    case False
    with "1.prems"(1) have "length (heard e) \<le> j"
      by (auto simp: length_heard wf_entry_def)
    with False show ?thesis by (auto simp: mac_known_from.simps [of e mac j])
  qed
qed

lemma mac_known_iff: "wf_entry e \<Longrightarrow> wf_mac mac \<Longrightarrow> mac_known_from e mac 0 \<longleftrightarrow> mac \<in> set (heard e)"
  by (simp add: mac_known_from_iff)

lemma hear_mac_fields [simp]:
  "entry_hmac (hear_mac e mac) = entry_hmac e" "expires_at (hear_mac e mac) = expires_at e"
  "active (hear_mac e mac) = active e" "broadcasted (hear_mac e mac) = broadcasted e"
  "broadcast_time (hear_mac e mac) = broadcast_time e" "entry_packet (hear_mac e mac) = entry_packet e"
  by (simp_all add: hear_mac_def Let_def)

lemma hear_mac_same:
  "wf_entry e \<Longrightarrow> wf_mac mac \<Longrightarrow> mac \<in> set (heard e) \<or> unat (rx_count e) = MAX_TRACKED_MACS \<Longrightarrow> hear_mac e mac = e"
  by (auto simp: hear_mac_def mac_known_iff)

lemma hear_mac_new:
  assumes "wf_entry e" "wf_mac mac" "mac \<notin> set (heard e)" "unat (rx_count e) < MAX_TRACKED_MACS"
  shows "heard (hear_mac e mac) = heard e @ [mac]" "unat (rx_count (hear_mac e mac)) = Suc (unat (rx_count e))"
    "wf_entry (hear_mac e mac)"
proof -
  let ?j = "unat (rx_count e)"
  have len: "length (seen_macs e) = MAX_TRACKED_MACS" using assms(1) by (simp add: wf_entry_def)
  have row: "memcpy (seen_macs e ! ?j) mac MAC_LEN = mac"
    using assms(2,4) wf_entry_mac_row [OF assms(1)] by (simp add: wf_mac_def)
  then have h: "hear_mac e mac = e\<lparr>seen_macs := (seen_macs e)[?j := mac], rx_count := rx_count e + 1\<rparr>"
    using assms by (simp add: hear_mac_def mac_known_iff Let_def)
  have "unat (rx_count e + 1) = Suc ?j mod 256" by (simp add: unat_word_ariths)
  with assms(4) show c: "unat (rx_count (hear_mac e mac)) = Suc ?j" by (simp add: h MAX_TRACKED_MACS_def)
  then show hd: "heard (hear_mac e mac) = heard e @ [mac]"
    using assms(4) len by (simp add: heard_def h take_Suc_conv_app_nth)
  have "\<forall>m \<in> set ((seen_macs e)[?j := mac]). wf_mac m"
    by (rule forall_nth_update) (use assms in \<open>simp_all add: wf_entry_def\<close>)
  with assms c hd show "wf_entry (hear_mac e mac)"
    by (simp add: wf_entry_def h)
qed

lemma wf_hear_mac [shape_intros]: "wf_entry e \<Longrightarrow> wf_mac mac \<Longrightarrow> wf_entry (hear_mac e mac)"
  using hear_mac_new(3) [of e mac] hear_mac_same [of e mac]
  by (metis wf_entry_def le_neq_implies_less)

text \<open>The counter is the number of different senders, up to four.\<close>

lemma rx_count_distinct:
  assumes "wf_entry e" "\<forall>m \<in> set ms. wf_mac m"
  shows "unat (rx_count (foldl hear_mac e ms)) = min MAX_TRACKED_MACS (card (set (heard e) \<union> set ms))"
  using assms
proof (induction ms arbitrary: e)
  case Nil
  then have "card (set (heard e)) = unat (rx_count e)" by (simp add: wf_entry_def distinct_card length_heard [OF Nil(1)])
  with Nil show ?case by (simp add: wf_entry_def)
next
  case (Cons m ms)
  let ?e1 = "hear_mac e m"
  have wf: "wf_entry ?e1" "wf_mac m" using Cons.prems by (simp_all add: wf_hear_mac)
  have IH: "unat (rx_count (foldl hear_mac ?e1 ms)) = min MAX_TRACKED_MACS (card (set (heard ?e1) \<union> set ms))"
    using Cons.IH wf Cons.prems by simp
  consider "m \<in> set (heard e)" | "m \<notin> set (heard e)" "unat (rx_count e) < MAX_TRACKED_MACS"
    | "m \<notin> set (heard e)" "unat (rx_count e) = MAX_TRACKED_MACS"
    using Cons.prems(1) by (fastforce simp: wf_entry_def)
  then show ?case
  proof cases
    case 1
    then have "set (heard e) \<union> set (m # ms) = set (heard e) \<union> set ms" by auto
    with IH 1 show ?thesis using Cons.prems wf by (simp add: hear_mac_same)
  next
    case 2
    with IH show ?thesis using Cons.prems wf by (simp add: hear_mac_new)
  next
    case 3
    have 4: "card (set (heard e)) = MAX_TRACKED_MACS"
      using Cons.prems(1) 3 by (simp add: wf_entry_def distinct_card length_heard [OF Cons.prems(1)])
    have "MAX_TRACKED_MACS \<le> card (set (heard e) \<union> X)" if "finite X" for X
      unfolding 4 [symmetric] using that by (intro card_mono) auto
    from this [of "set ms"] this [of "set (m # ms)"] IH 3 show ?thesis
      using Cons.prems wf by (simp add: hear_mac_same min_def)
  qed
qed

section \<open>The scans\<close>

lemma purge_fields [simp]:
  "entry_hmac (purge now e) = entry_hmac e" "expires_at (purge now e) = expires_at e"
  "rx_count (purge now e) = rx_count e" "broadcasted (purge now e) = broadcasted e"
  "broadcast_time (purge now e) = broadcast_time e" "entry_packet (purge now e) = entry_packet e"
  "seen_macs (purge now e) = seen_macs e" "active (purge now e) = live now e"
  by (auto simp: purge_def live_def)

lemma purge_live: "live now e \<Longrightarrow> purge now e = e"
  by (auto simp: purge_def live_def)

lemma purge_dead: "\<not> live now e \<Longrightarrow> purge now e = e\<lparr>active := False\<rparr>"
  by (cases e) (auto simp: purge_def live_def)

lemma live_purge [simp]: "live now (purge now e) = live now e"
  by (auto simp: purge_def live_def)

lemma live_hear [simp]: "live now (hear_mac e mac) = live now e"
  by (simp add: live_def)

lemma wf_purge [shape_intros]: "wf_entry e \<Longrightarrow> wf_entry (purge now e)"
  by (auto simp: wf_entry_def heard_def live_def)

lemma memeq_hmac:
  "wf_cache c \<Longrightarrow> wf_hash h \<Longrightarrow> i < CACHE_SIZE \<Longrightarrow>
     memeq HASH_SIZE (entry_hmac (entries c ! i)) h \<longleftrightarrow> entry_hmac (entries c ! i) = h"
  by (simp add: wf_cache_def wf_entry_def wf_hash_def)

lemma wf_cache_update [shape_intros]:
  "wf_cache c \<Longrightarrow> wf_entry e \<Longrightarrow> wf_cache (c\<lparr>entries := (entries c)[i := e]\<rparr>)"
  by (auto simp: wf_cache_def dest: set_update_subset_insert [THEN subsetD])

lemma wf_cache_nth: "wf_cache c \<Longrightarrow> i < CACHE_SIZE \<Longrightarrow> wf_entry (entries c ! i)"
  by (simp add: wf_cache_def)

lemma le_split: "(i :: nat) \<le> k \<longleftrightarrow> k = i \<or> Suc i \<le> k"
  by auto

text \<open>The entries of the table in front of \<open>j\<close> and from \<open>i\<close> on that a scan has purged.\<close>

definition purged :: "u32 \<Rightarrow> timeAwareCache \<Rightarrow> timeAwareCache \<Rightarrow> nat \<Rightarrow> nat \<Rightarrow> bool" where
  "purged now c c' i j \<longleftrightarrow> length (entries c') = length (entries c) \<and>
     (\<forall>k < CACHE_SIZE. entries c' ! k = (if i \<le> k \<and> k < j then purge now (entries c ! k) else entries c ! k))"

lemma purged_step:
  assumes "purged now (c\<lparr>entries := (entries c)[i := purge now (entries c ! i)]\<rparr>) c1 (Suc i) j"
    "i < j" "i < length (entries c)"
  shows "purged now c c1 i j"
  using assms by (auto simp: purged_def nth_list_update)

text \<open>What the scan of checkCache returns from row \<open>i\<close> on: the first live hit, or a miss.\<close>

definition known_as :: "u32 \<Rightarrow> u8 list \<Rightarrow> cacheEntry \<Rightarrow> bool" where
  "known_as now h e \<longleftrightarrow> live now e \<and> entry_hmac e = h"

definition check_result :: "u32 \<Rightarrow> u8 list \<Rightarrow> u8 list \<Rightarrow> mac_status option \<Rightarrow> timeAwareCache \<Rightarrow> nat \<Rightarrow>
    timeAwareCache \<times> mac_status option \<times> int \<Rightarrow> bool" where
  "check_result now h mac st c i r \<longleftrightarrow>
     (\<exists>j c1. i \<le> j \<and> j < CACHE_SIZE \<and> known_as now h (entries c ! j) \<and>
        (\<forall>k. i \<le> k \<and> k < j \<longrightarrow> \<not> known_as now h (entries c ! k)) \<and> purged now c c1 i j \<and>
        r = (c1\<lparr>entries := (entries c1)[j := hear_mac (entries c ! j) mac]\<rparr>, Some StatusDrop, int j)) \<or>
     (\<exists>c1. (\<forall>k. i \<le> k \<and> k < CACHE_SIZE \<longrightarrow> \<not> known_as now h (entries c ! k)) \<and>
        purged now c c1 i CACHE_SIZE \<and> r = (c1, st, -1))"

lemma check_result_step:
  assumes "i < CACHE_SIZE" "length (entries c) = CACHE_SIZE" "\<not> known_as now h (entries c ! i)"
    "check_result now h mac st (c\<lparr>entries := (entries c)[i := purge now (entries c ! i)]\<rparr>) (Suc i) r"
  shows "check_result now h mac st c i r"
proof -
  let ?c = "c\<lparr>entries := (entries c)[i := purge now (entries c ! i)]\<rparr>"
  have i: "i < length (entries c)" using assms by simp
  have known: "known_as now h (entries ?c ! k) = known_as now h (entries c ! k)" for k
    using i by (cases "k = i") (simp_all add: known_as_def)
  from assms(4) show ?thesis
    unfolding check_result_def [of now h mac st ?c "Suc i" r] known
  proof (elim disjE exE conjE)
    fix j c1
    assume hit: "Suc i \<le> j" "j < CACHE_SIZE" "known_as now h (entries c ! j)"
      "\<forall>k. Suc i \<le> k \<and> k < j \<longrightarrow> \<not> known_as now h (entries c ! k)" "purged now ?c c1 (Suc i) j"
      "r = (c1\<lparr>entries := (entries c1)[j := hear_mac (entries ?c ! j) mac]\<rparr>, Some StatusDrop, int j)"
    have "purged now c c1 i j" using hit(5) _ i by (rule purged_step) (use hit(1) in simp)
    moreover have "\<forall>k. i \<le> k \<and> k < j \<longrightarrow> \<not> known_as now h (entries c ! k)"
      using hit(4) assms(3) by (metis le_split)
    moreover have "entries ?c ! j = entries c ! j" using hit(1) by simp
    ultimately show ?thesis
      unfolding check_result_def using hit(1,2,3,6)
      by (intro disjI1 exI [of _ j] exI [of _ c1]) (simp only: simp_thms Suc_leD)
  next
    fix c1
    assume miss: "\<forall>k. Suc i \<le> k \<and> k < CACHE_SIZE \<longrightarrow> \<not> known_as now h (entries c ! k)"
      "purged now ?c c1 (Suc i) CACHE_SIZE" "r = (c1, st, -1)"
    have "purged now c c1 i CACHE_SIZE" using miss(2) assms(1) i by (rule purged_step)
    moreover have "\<forall>k. i \<le> k \<and> k < CACHE_SIZE \<longrightarrow> \<not> known_as now h (entries c ! k)"
      using miss(1) assms(3) by (metis le_split)
    ultimately show ?thesis
      unfolding check_result_def using miss(3) by (intro disjI2 exI [of _ c1]) simp
  qed
qed

lemma checkCache_from_spec:
  assumes "wf_cache c" "wf_hash h" "i \<le> CACHE_SIZE"
  shows "check_result now h mac st c i (checkCache_from c h now mac st i)"
  using assms
proof (induction c h now mac st i rule: checkCache_from.induct)
  case (1 c h now mac st i)
  let ?e = "entries c ! i"
  show ?case
  proof (cases "i < CACHE_SIZE")
    case False
    then have "checkCache_from c h now mac st i = (c, st, -1)" by (simp add: checkCache_from.simps [of c h now mac st i])
    with False show ?thesis by (auto simp: check_result_def purged_def)
  next
    case True
    note eq = memeq_hmac [OF "1.prems"(1,2) True]
    have len: "length (entries c) = CACHE_SIZE" using "1.prems"(1) by (simp add: wf_cache_def)
    show ?thesis
    proof (cases "known_as now h ?e")
      case hit: True
      then have "\<not> expires_at ?e \<le> now" by (simp add: known_as_def live_def not_le)
      with hit have "checkCache_from c h now mac st i =
        (c\<lparr>entries := (entries c)[i := hear_mac ?e mac]\<rparr>, Some StatusDrop, int i)"
        using True eq by (auto simp: checkCache_from.simps [of c h now mac st i] known_as_def live_def mac_status_after_def
            Let_def)
      moreover have "purged now c c i i" by (auto simp: purged_def)
      ultimately show ?thesis unfolding check_result_def using hit True
        by (intro disjI1 exI [of _ i] exI [of _ c]) auto
    next
      case False
      let ?c = "c\<lparr>entries := (entries c)[i := purge now ?e]\<rparr>"
      have wf: "wf_cache ?c"
        using "1.prems"(1) True by (intro wf_cache_update wf_purge wf_cache_nth)
      have "check_result now h mac st ?c (Suc i) (checkCache_from c h now mac st i)"
      proof (cases "active ?e \<and> expires_at ?e \<le> now")
        case expired: True
        then have "purge now ?e = ?e\<lparr>active := False\<rparr>" by (simp add: purge_def)
        with expired True "1.IH"(1) [OF True refl] wf "1.prems" show ?thesis
          by (simp add: checkCache_from.simps [of c h now mac st i] Let_def)
      next
        case fresh: False
        then have "purge now ?e = ?e" by (auto simp: purge_def)
        then have c: "?c = c" by simp
        have "check_result now h mac st c (Suc i) (checkCache_from c h now mac st (Suc i))"
        proof (cases "active ?e")
          case act: True
          with fresh False have m: "\<not> expires_at ?e \<le> now" "\<not> memeq HASH_SIZE (entry_hmac ?e) h"
            by (auto simp: known_as_def live_def eq)
          show ?thesis
            by (rule "1.IH"(2) [OF True refl act m]) (use "1.prems" True in simp_all)
        next
          case inact: False
          show ?thesis
            by (rule "1.IH"(3) [OF True refl inact]) (use "1.prems" True in simp_all)
        qed
        moreover have "checkCache_from c h now mac st i = checkCache_from c h now mac st (Suc i)"
          using True fresh False by (auto simp: checkCache_from.simps [of c h now mac st i] known_as_def live_def eq Let_def)
        ultimately show ?thesis by (simp only: c)
      qed
      then show ?thesis by (rule check_result_step [OF True len False])
    qed
  qed
qed

text \<open>checkCache, branch by branch.\<close>

lemma purged_all: "purged now c c1 0 CACHE_SIZE \<Longrightarrow> length (entries c) = CACHE_SIZE \<Longrightarrow>
    entries c1 = map (purge now) (entries c)"
  by (rule nth_equalityI) (auto simp: purged_def)

lemma checkCache_cases:
  assumes "wf_cache c" "wf_hash h"
  obtains (Hit) j c' where "j < CACHE_SIZE" "known_as now h (entries c ! j)"
      "\<And>k. k < j \<Longrightarrow> \<not> known_as now h (entries c ! k)"
      "checkCache c h now mac st = (c', Some StatusDrop, int j)" "length (entries c') = CACHE_SIZE"
      "\<And>k. k < CACHE_SIZE \<Longrightarrow> entries c' ! k =
         (if k = j then hear_mac (entries c ! j) mac else if k < j then purge now (entries c ! k) else entries c ! k)"
  | (Miss) c' where "\<And>k. k < CACHE_SIZE \<Longrightarrow> \<not> known_as now h (entries c ! k)"
      "checkCache c h now mac st = (c', st, -1)" "entries c' = map (purge now) (entries c)"
proof -
  have len: "length (entries c) = CACHE_SIZE" using assms(1) by (simp add: wf_cache_def)
  have "check_result now h mac st c 0 (checkCache c h now mac st)"
    unfolding checkCache_def using assms by (intro checkCache_from_spec) simp_all
  then show thesis
    unfolding check_result_def
  proof (elim disjE exE conjE)
    fix j c1
    assume hit: "0 \<le> j" "j < CACHE_SIZE" "known_as now h (entries c ! j)"
      "\<forall>k. 0 \<le> k \<and> k < j \<longrightarrow> \<not> known_as now h (entries c ! k)" "purged now c c1 0 j"
      "checkCache c h now mac st = (c1\<lparr>entries := (entries c1)[j := hear_mac (entries c ! j) mac]\<rparr>, Some StatusDrop, int j)"
    show thesis
      by (rule Hit [OF hit(2,3) _ hit(6)]) (use hit(2,4,5) len in \<open>auto simp: purged_def nth_list_update\<close>)
  next
    fix c1
    assume miss: "\<forall>k. 0 \<le> k \<and> k < CACHE_SIZE \<longrightarrow> \<not> known_as now h (entries c ! k)"
      "purged now c c1 0 CACHE_SIZE" "checkCache c h now mac st = (c1, st, -1)"
    show thesis
      by (rule Miss [OF _ miss(3)]) (use miss(1) purged_all [OF miss(2) len] in simp_all)
  qed
qed

text \<open>The first loop of addToCache: every dead row is cleared, and some dead row is picked if there is one.\<close>

definition purge_result :: "u32 \<Rightarrow> timeAwareCache \<Rightarrow> nat \<Rightarrow> int \<Rightarrow> timeAwareCache \<times> int \<Rightarrow> bool" where
  "purge_result now c i t r \<longleftrightarrow> purged now c (fst r) i CACHE_SIZE \<and>
     (t \<noteq> -1 \<and> snd r = t \<or>
      t = -1 \<and> snd r = -1 \<and> (\<forall>k. i \<le> k \<and> k < CACHE_SIZE \<longrightarrow> live now (entries c ! k)) \<or>
      t = -1 \<and> (\<exists>j. snd r = int j \<and> i \<le> j \<and> j < CACHE_SIZE \<and> \<not> live now (entries c ! j)))"

lemma purge_result_step:
  assumes "i < CACHE_SIZE" "length (entries c) = CACHE_SIZE"
    "purge_result now (c\<lparr>entries := (entries c)[i := purge now (entries c ! i)]\<rparr>) (Suc i) t' r"
    "t' = (if \<not> live now (entries c ! i) \<and> t = -1 then int i else t)"
  shows "purge_result now c i t r"
proof -
  let ?c = "c\<lparr>entries := (entries c)[i := purge now (entries c ! i)]\<rparr>"
  have i: "i < length (entries c)" using assms by simp
  have lv: "live now (entries ?c ! k) = live now (entries c ! k)" for k
    using i by (cases "k = i") simp_all
  have p: "purged now c (fst r) i CACHE_SIZE"
    using purged_step [OF _ assms(1) i] assms(3) unfolding purge_result_def by blast
  have r: "t' \<noteq> -1 \<and> snd r = t' \<or>
      t' = -1 \<and> snd r = -1 \<and> (\<forall>k. Suc i \<le> k \<and> k < CACHE_SIZE \<longrightarrow> live now (entries c ! k)) \<or>
      t' = -1 \<and> (\<exists>j. snd r = int j \<and> Suc i \<le> j \<and> j < CACHE_SIZE \<and> \<not> live now (entries c ! j))"
    using assms(3) unfolding purge_result_def lv by (rule conjunct2)
  consider "t \<noteq> -1" "t' = t" | "t = -1" "live now (entries c ! i)" "t' = -1"
    | "t = -1" "\<not> live now (entries c ! i)" "t' = int i"
    using assms(4) by (cases "t = -1"; cases "live now (entries c ! i)") simp_all
  then show ?thesis
  proof cases
    case 1
    with p r show ?thesis by (simp add: purge_result_def)
  next
    case 2
    from r 2(3) consider "snd r = -1" "\<forall>k. Suc i \<le> k \<and> k < CACHE_SIZE \<longrightarrow> live now (entries c ! k)"
      | j where "snd r = int j" "Suc i \<le> j" "j < CACHE_SIZE" "\<not> live now (entries c ! j)" by blast
    then show ?thesis
    proof cases
      case a: 1
      with 2 have "\<forall>k. i \<le> k \<and> k < CACHE_SIZE \<longrightarrow> live now (entries c ! k)" by (metis le_split)
      with p 2 a show ?thesis by (simp add: purge_result_def)
    next
      case b: (2 j)
      from p 2(1) b(1,3,4) Suc_leD [OF b(2)] show ?thesis
        unfolding purge_result_def by (intro conjI disjI2 exI [of _ j]) simp_all
    qed
  next
    case 3
    have "snd r = int i" using r 3 by simp
    with p 3(1,2) assms(1) show ?thesis
      unfolding purge_result_def by (intro conjI disjI2 exI [of _ i]) simp_all
  qed
qed

lemma purge_from_spec:
  assumes "length (entries c) = CACHE_SIZE" "i \<le> CACHE_SIZE"
  shows "purge_result now c i t (purge_from c now t i)"
  using assms
proof (induction c now t i rule: purge_from.induct)
  case (1 c now t i)
  let ?e = "entries c ! i"
  show ?case
  proof (cases "i < CACHE_SIZE")
    case False
    then show ?thesis by (auto simp: purge_from.simps [of c now t i] purge_result_def purged_def)
  next
    case True
    let ?c = "c\<lparr>entries := (entries c)[i := purge now ?e]\<rparr>"
    let ?t = "if \<not> live now ?e \<and> t = -1 then int i else t"
    have "purge_result now ?c (Suc i) ?t (purge_from c now t i)"
    proof (cases "live now ?e")
      case live: True
      then have c: "?c = c" and n: "\<not> (\<not> active ?e \<or> expires_at ?e \<le> now)"
        by (auto simp: purge_live live_def)
      have "purge_from c now t i = purge_from c now t (Suc i)"
        using True n by (simp add: purge_from.simps [of c now t i] Let_def)
      moreover have "purge_result now c (Suc i) t (purge_from c now t (Suc i))"
        by (rule "1.IH"(2) [OF True refl n]) (use "1.prems" True in simp_all)
      ultimately show ?thesis using live by (simp only: c simp_thms if_False)
    next
      case dead: False
      then have n: "\<not> active ?e \<or> expires_at ?e \<le> now" by (auto simp: live_def)
      have "purge_from c now t i = purge_from ?c now ?t (Suc i)"
        using True n dead by (simp add: purge_from.simps [of c now t i] Let_def purge_dead)
      moreover have "purge_result now (c\<lparr>entries := (entries c)[i := ?e\<lparr>active := False\<rparr>]\<rparr>) (Suc i)
          (if t = -1 then int i else t)
          (purge_from (c\<lparr>entries := (entries c)[i := ?e\<lparr>active := False\<rparr>]\<rparr>) now (if t = -1 then int i else t) (Suc i))"
        by (rule "1.IH"(1) [OF True refl n]) (use "1.prems" True in simp_all)
      ultimately show ?thesis using dead by (simp only: purge_dead [OF dead] simp_thms)
    qed
    from purge_result_step [OF True "1.prems"(1) this refl] show ?thesis .
  qed
qed

lemma oldest_from_spec:
  "(oldest_from c T t i = t \<and> (\<forall>k. i \<le> k \<and> k < CACHE_SIZE \<longrightarrow> T \<le> expires_at (entries c ! k))) \<or>
   (i \<le> oldest_from c T t i \<and> oldest_from c T t i < CACHE_SIZE \<and>
     expires_at (entries c ! oldest_from c T t i) < T \<and>
     (\<forall>k. i \<le> k \<and> k < CACHE_SIZE \<longrightarrow>
        expires_at (entries c ! oldest_from c T t i) \<le> expires_at (entries c ! k)))"
proof (induction c T t i rule: oldest_from.induct)
  case (1 c T t i)
  show ?case
  proof (cases "i < CACHE_SIZE")
    case False
    then show ?thesis by (auto simp: oldest_from.simps [of c T t i])
  next
    case True
    then show ?thesis
    proof (cases "expires_at (entries c ! i) < T")
      case less: True
      with True have "oldest_from c T t i = oldest_from c (expires_at (entries c ! i)) i (Suc i)"
        by (simp add: oldest_from.simps [of c T t i])
      with "1.IH"(1) [OF True less] True less show ?thesis by (auto simp: le_split [of i])
    next
      case ge: False
      with True have "oldest_from c T t i = oldest_from c T t (Suc i)"
        by (simp add: oldest_from.simps [of c T t i])
      with "1.IH"(2) [OF True ge] True ge show ?thesis by (auto simp: le_split [of i])
    qed
  qed
qed

lemma fill_entry_fields [simp]:
  "expires_at (fill_entry e h p now jitter mac) = now + CACHE_TTL_MS"
  "broadcast_time (fill_entry e h p now jitter mac) = now + jitter"
  "entry_packet (fill_entry e h p now jitter mac) = p" "active (fill_entry e h p now jitter mac)"
  "\<not> broadcasted (fill_entry e h p now jitter mac)" "rx_count (fill_entry e h p now jitter mac) = 1"
  by (simp_all add: fill_entry_def)

lemma fill_entry_wf:
  assumes "wf_entry e" "wf_hash h" "wf_packet p" "wf_mac mac"
  shows "entry_hmac (fill_entry e h p now jitter mac) = h" "heard (fill_entry e h p now jitter mac) = [mac]"
    "wf_entry (fill_entry e h p now jitter mac)"
proof -
  have m: "memcpy (seen_macs e ! 0) mac MAC_LEN = mac"
    using assms(4) wf_entry_mac_row [OF assms(1), of 0] by (simp add: wf_mac_def MAX_TRACKED_MACS_def)
  show h: "entry_hmac (fill_entry e h p now jitter mac) = h"
    using assms by (simp add: fill_entry_def wf_entry_def wf_hash_def)
  have len: "length (seen_macs e) = 4" using assms(1) by (simp add: wf_entry_def MAX_TRACKED_MACS_def)
  then obtain x xs where x: "seen_macs e = x # xs" by (cases "seen_macs e") auto
  show hd: "heard (fill_entry e h p now jitter mac) = [mac]"
    using m x by (simp add: heard_def fill_entry_def)
  have "\<forall>m \<in> set ((seen_macs e)[0 := mac]). wf_mac m"
    by (rule forall_nth_update) (use assms in \<open>simp_all add: wf_entry_def\<close>)
  then show "wf_entry (fill_entry e h p now jitter mac)"
    unfolding wf_entry_def h hd using assms m len
    by (simp add: fill_entry_def MAX_TRACKED_MACS_def)
qed

text \<open>addToCache: the row it fills was dead, or the table was full and it was among the first to expire.\<close>

lemma addToCache_cases:
  assumes "wf_cache c" "wf_hash h" "wf_packet p" "wf_mac mac"
  obtains idx c' where "idx < CACHE_SIZE" "addToCache c h p now jitter mac = (c', int idx)"
    "length (entries c') = CACHE_SIZE"
    "entries c' ! idx = fill_entry (purge now (entries c ! idx)) h p now jitter mac"
    "\<And>k. k < CACHE_SIZE \<Longrightarrow> k \<noteq> idx \<Longrightarrow> entries c' ! k = purge now (entries c ! k)"
    "\<not> live now (entries c ! idx) \<or>
       (\<forall>k < CACHE_SIZE. live now (entries c ! k) \<and> expires_at (entries c ! idx) \<le> expires_at (entries c ! k))"
proof -
  have len: "length (entries c) = CACHE_SIZE" using assms(1) by (simp add: wf_cache_def)
  obtain c1 t where ct: "purge_from c now (-1) 0 = (c1, t)" by (cases "purge_from c now (-1) 0")
  from purge_from_spec [OF len, of 0 now "-1"] ct
  have pr: "purged now c c1 0 CACHE_SIZE" and
    t: "t = -1 \<and> (\<forall>k < CACHE_SIZE. live now (entries c ! k)) \<or>
        (\<exists>j. t = int j \<and> j < CACHE_SIZE \<and> \<not> live now (entries c ! j))"
    unfolding purge_result_def by auto
  note c1 = purged_all [OF pr len]
  define idx where "idx = (if t = -1 then oldest_from c1 0xFFFFFFFF 0 0 else nat t)"
  have ones: "(0xFFFFFFFF :: u32) = -1" by simp
  have max: "y \<le> x" if "(0xFFFFFFFF :: u32) \<le> x" for x y :: u32
    by (rule order.trans [OF word_n1_ge]) (use that in \<open>simp only: ones\<close>)
  have idx: "idx < CACHE_SIZE \<and> (\<not> live now (entries c ! idx) \<or>
       (\<forall>k < CACHE_SIZE. live now (entries c ! k) \<and> expires_at (entries c ! idx) \<le> expires_at (entries c ! k)))"
  proof (cases "t = -1")
    case True
    with t have lv: "\<forall>k < CACHE_SIZE. live now (entries c ! k)" by auto
    with c1 len have same: "\<forall>k < CACHE_SIZE. entries c1 ! k = entries c ! k" by (simp add: purge_live)
    from oldest_from_spec [of c1 "0xFFFFFFFF" 0 0] True idx_def lv same max show ?thesis
      by (auto simp: CACHE_SIZE_def)
  next
    case False
    with t idx_def show ?thesis by auto
  qed
  have add: "addToCache c h p now jitter mac =
      (c1\<lparr>entries := (entries c1)[idx := fill_entry (entries c1 ! idx) h p now jitter mac]\<rparr>, int idx)"
    by (simp add: addToCache_def ct idx_def Let_def)
  show thesis
    by (rule that [OF _ add]) (use idx c1 len in auto)
qed

section \<open>Invariant\<close>

lemma unique_hashes_mono:
  assumes "unique_hashes c"
    "\<And>k. k < CACHE_SIZE \<Longrightarrow> active (entries c' ! k) \<Longrightarrow>
       active (entries c ! k) \<and> entry_hmac (entries c' ! k) = entry_hmac (entries c ! k)"
  shows "unique_hashes c'"
  using assms unfolding unique_hashes_def by metis

lemma wf_cacheI:
  "length (entries c) = CACHE_SIZE \<Longrightarrow> (\<And>k. k < CACHE_SIZE \<Longrightarrow> wf_entry (entries c ! k)) \<Longrightarrow> wf_cache c"
  by (auto simp: wf_cache_def in_set_conv_nth)

lemma zero_cache_inv: "cache_inv zero_cache"
proof -
  have "wf_entry zero_entry"
    by (simp add: wf_entry_def zero_entry_def wf_hash_def heard_def wf_mac_def)
  then show ?thesis
    by (simp add: cache_inv_def wf_cache_def unique_hashes_def zero_cache_def) (simp add: zero_entry_def)
qed

lemma wf_cache_purge [shape_intros]: "wf_cache c \<Longrightarrow> wf_cache (c\<lparr>entries := map (purge now) (entries c)\<rparr>)"
  by (auto simp: wf_cache_def wf_purge)

lemma checkCache_inv:
  assumes "cache_inv c" "wf_hash h" "wf_mac mac"
  shows "cache_inv (fst (checkCache c h now mac st))"
proof -
  have wf: "wf_cache c" and un: "unique_hashes c" using assms(1) by (simp_all add: cache_inv_def)
  show ?thesis
  proof (rule checkCache_cases [OF wf assms(2), of now mac st])
    fix j c'
    assume hit: "j < CACHE_SIZE" "checkCache c h now mac st = (c', Some StatusDrop, int j)"
      "length (entries c') = CACHE_SIZE"
      and nth: "\<And>k. k < CACHE_SIZE \<Longrightarrow> entries c' ! k =
         (if k = j then hear_mac (entries c ! j) mac else if k < j then purge now (entries c ! k) else entries c ! k)"
    have "wf_cache c'"
      by (rule wf_cacheI) (use hit nth wf assms(3) in \<open>auto intro!: wf_purge wf_hear_mac wf_cache_nth\<close>)
    moreover have "unique_hashes c'"
      by (rule unique_hashes_mono [OF un]) (use nth in \<open>auto simp: live_def split: if_splits\<close>)
    ultimately show ?thesis using hit(2) by (simp add: cache_inv_def)
  next
    fix c'
    assume miss: "checkCache c h now mac st = (c', st, -1)" "entries c' = map (purge now) (entries c)"
    have len: "length (entries c) = CACHE_SIZE" using wf by (simp add: wf_cache_def)
    have "wf_cache c'" using wf miss(2) by (auto simp: wf_cache_def wf_purge)
    moreover have "unique_hashes c'"
      by (rule unique_hashes_mono [OF un]) (use miss(2) len in \<open>auto simp: live_def\<close>)
    ultimately show ?thesis using miss(1) by (simp add: cache_inv_def)
  qed
qed

lemma addToCache_inv:
  assumes "cache_inv c" "wf_hash h" "wf_packet p" "wf_mac mac"
    "\<And>k. k < CACHE_SIZE \<Longrightarrow> \<not> known_as now h (entries c ! k)"
  shows "cache_inv (fst (addToCache c h p now jitter mac))"
proof -
  have wf: "wf_cache c" and un: "unique_hashes c" using assms(1) by (simp_all add: cache_inv_def)
  obtain idx c' where a: "idx < CACHE_SIZE" "addToCache c h p now jitter mac = (c', int idx)"
    "length (entries c') = CACHE_SIZE"
    "entries c' ! idx = fill_entry (purge now (entries c ! idx)) h p now jitter mac"
    and other: "\<And>k. k < CACHE_SIZE \<Longrightarrow> k \<noteq> idx \<Longrightarrow> entries c' ! k = purge now (entries c ! k)"
    by (rule addToCache_cases [OF wf assms(2-4), of now jitter]) blast
  note new = fill_entry_wf [OF wf_purge [OF wf_cache_nth [OF wf a(1)]] assms(2-4)]
  have nth: "wf_entry (entries c' ! k)" if "k < CACHE_SIZE" for k
    using that a(4) other new(3) wf_purge [OF wf_cache_nth [OF wf that]] by (cases "k = idx") simp_all
  have old: "active (entries c' ! k) \<Longrightarrow> entry_hmac (entries c' ! k) = entry_hmac (entries c ! k) \<and>
      active (entries c ! k) \<and> entry_hmac (entries c' ! k) \<noteq> h" if "k < CACHE_SIZE" "k \<noteq> idx" for k
    using that other assms(5) [OF that(1)] by (auto simp: known_as_def live_def)
  have "entry_hmac (entries c' ! idx) = h" using a(4) new(1) by simp
  then have "unique_hashes c'"
    using un old a(1) unfolding unique_hashes_def by metis
  with wf_cacheI [OF a(3) nth] a(2) show ?thesis by (simp add: cache_inv_def)
qed

section \<open>The abstraction: which entry a signature is known under\<close>

lemma look_Some_iff:
  assumes "cache_inv c"
  shows "look now c h = Some e \<longleftrightarrow> (\<exists>k < CACHE_SIZE. entries c ! k = e \<and> known_as now h e)"
proof
  have len: "length (entries c) = CACHE_SIZE" using assms by (simp add: cache_inv_def wf_cache_def)
  show "\<exists>k < CACHE_SIZE. entries c ! k = e \<and> known_as now h e" if "look now c h = Some e"
    using that by (auto simp: look_def find_Some_iff len known_as_def)
  show "look now c h = Some e" if "\<exists>k < CACHE_SIZE. entries c ! k = e \<and> known_as now h e"
  proof -
    from that obtain k where k: "k < CACHE_SIZE" "entries c ! k = e" "known_as now h e" by blast
    have "\<not> known_as now h (entries c ! j)" if "j < k" for j
    proof
      assume "known_as now h (entries c ! j)"
      with k have "active (entries c ! j)" "active (entries c ! k)"
        "entry_hmac (entries c ! j) = entry_hmac (entries c ! k)" by (auto simp: known_as_def live_def)
      with assms k(1) that show False by (auto simp: cache_inv_def unique_hashes_def)
    qed
    with k len show ?thesis unfolding look_def find_Some_iff known_as_def
      by (intro exI [of _ k]) auto
  qed
qed

lemma look_None_iff:
  assumes "cache_inv c"
  shows "look now c h = None \<longleftrightarrow> (\<forall>k < CACHE_SIZE. \<not> known_as now h (entries c ! k))"
  using look_Some_iff [OF assms, of now h] by (metis not_Some_eq)

lemma look_cong:
  assumes "cache_inv c" "cache_inv c'"
    "\<And>k. k < CACHE_SIZE \<Longrightarrow> known_as now g (entries c' ! k) = known_as now g (entries c ! k)"
    "\<And>k. k < CACHE_SIZE \<Longrightarrow> known_as now g (entries c ! k) \<Longrightarrow> entries c' ! k = entries c ! k"
  shows "look now c' g = look now c g"
proof -
  have "look now c' g = Some e \<longleftrightarrow> look now c g = Some e" for e
    unfolding look_Some_iff [OF assms(1)] look_Some_iff [OF assms(2)] using assms(3,4) by metis
  then show ?thesis by (metis not_Some_eq)
qed

lemma look_later:
  "cache_inv c \<Longrightarrow> look now c h = Some e \<Longrightarrow> now' < expires_at e \<Longrightarrow> look now' c h = Some e"
  by (auto simp: look_Some_iff known_as_def live_def)

lemma look_wf: "cache_inv c \<Longrightarrow> look now c h = Some e \<Longrightarrow> wf_entry e \<and> entry_hmac e = h"
  by (auto simp: look_Some_iff known_as_def cache_inv_def wf_cache_nth)

text \<open>checkCache: it finds exactly the known signatures, notes the sender, and forgets nothing.\<close>

lemma checkCache_hit_iff:
  assumes "cache_inv c" "wf_hash h"
  shows "snd (snd (checkCache c h now mac st)) \<noteq> -1 \<longleftrightarrow> look now c h \<noteq> None"
proof -
  have wf: "wf_cache c" using assms(1) by (simp add: cache_inv_def)
  show ?thesis
    by (rule checkCache_cases [OF wf assms(2), of now mac st]) (auto simp: look_None_iff [OF assms(1)])
qed

lemma checkCache_look:
  assumes "cache_inv c" "wf_hash h" "wf_mac mac"
  shows "look now (fst (checkCache c h now mac st)) g =
    (if g = h then map_option (\<lambda>e. hear_mac e mac) (look now c h) else look now c g)"
proof -
  have wf: "wf_cache c" using assms(1) by (simp add: cache_inv_def)
  note inv' = checkCache_inv [OF assms, of now st]
  show ?thesis
  proof (rule checkCache_cases [OF wf assms(2), of now mac st])
    fix j c'
    assume hit: "j < CACHE_SIZE" "known_as now h (entries c ! j)"
      "checkCache c h now mac st = (c', Some StatusDrop, int j)"
      and nth: "\<And>k. k < CACHE_SIZE \<Longrightarrow> entries c' ! k =
         (if k = j then hear_mac (entries c ! j) mac else if k < j then purge now (entries c ! k) else entries c ! k)"
    have inv: "cache_inv c'" using inv' hit(3) by simp
    have known: "known_as now g (entries c' ! k) = known_as now g (entries c ! k)" if "k < CACHE_SIZE" for g k
      using that nth by (auto simp: known_as_def)
    show ?thesis
    proof (cases "g = h")
      case True
      have "look now c h = Some (entries c ! j)" using hit by (auto simp: look_Some_iff [OF assms(1)])
      moreover have "look now c' h = Some (hear_mac (entries c ! j) mac)"
        using hit(1,2) nth [OF hit(1)] known [OF hit(1)] by (auto simp: look_Some_iff [OF inv])
      ultimately show ?thesis using True hit(3) by simp
    next
      case False
      have "look now c' g = look now c g"
        by (rule look_cong [OF assms(1) inv known])
          (use nth hit(2) False in \<open>auto simp: known_as_def purge_live\<close>)
      then show ?thesis using False hit(3) by simp
    qed
  next
    fix c'
    assume miss: "\<And>k. k < CACHE_SIZE \<Longrightarrow> \<not> known_as now h (entries c ! k)"
      "checkCache c h now mac st = (c', st, -1)" "entries c' = map (purge now) (entries c)"
    have len: "length (entries c) = CACHE_SIZE" using wf by (simp add: wf_cache_def)
    have inv: "cache_inv c'" using inv' miss(2) by simp
    have "look now c' f = look now c f" for f
      by (rule look_cong [OF assms(1) inv]) (use miss(3) len in \<open>auto simp: known_as_def purge_live\<close>)
    moreover have "look now c h = None" using miss(1) by (simp add: look_None_iff [OF assms(1)])
    ultimately show ?thesis using miss(2) by simp
  qed
qed

lemma checkCache_from_status:
  "fst (checkCache_from c h now mac st i) = fst (checkCache_from c h now mac st' i) \<and>
   snd (snd (checkCache_from c h now mac st i)) = snd (snd (checkCache_from c h now mac st' i))"
proof (induction c h now mac st i rule: checkCache_from.induct)
  case (1 c h now mac st i)
  show ?case
  proof (cases "i < CACHE_SIZE")
    case True
    with "1.IH"(1,2,3) [OF True refl] show ?thesis
      by (simp add: checkCache_from.simps [of c h now mac st i] checkCache_from.simps [of c h now mac st' i] Let_def)
  qed (simp add: checkCache_from.simps [of c h now mac _ i])
qed

definition note_sighting :: "u32 \<Rightarrow> timeAwareCache \<Rightarrow> u8 list \<Rightarrow> u8 list \<Rightarrow> timeAwareCache" where
  "note_sighting now c h mac = fst (checkCache c h now mac None)"

lemma fst_checkCache: "fst (checkCache c h now mac st) = note_sighting now c h mac"
  using checkCache_from_status by (simp add: note_sighting_def checkCache_def)

interpretation cache: timed_filter look note_sighting hear_mac expires_at cache_inv wf_hash wf_mac
proof unfold_locales
  fix c now h e assume c: "cache_inv c" "look now c h = Some e"
  then show "now < expires_at e" by (auto simp: look_Some_iff known_as_def live_def)
  from c show "now' < expires_at e \<Longrightarrow> look now' c h = Some e" for now' by (rule look_later)
next
  fix c now h m assume c: "cache_inv c" "wf_hash h" "wf_mac m"
  from checkCache_look [OF c] show "look now (note_sighting now c h m) j =
      (if j = h then map_option (\<lambda>e. hear_mac e m) (look now c h) else look now c j)" for j
    by (simp add: note_sighting_def)
  from checkCache_inv [OF c] show "cache_inv (note_sighting now c h m)"
    by (simp add: note_sighting_def)
qed simp

text \<open>addToCache, seen through the abstraction.\<close>

lemma addToCache_look:
  assumes "cache_inv c" "wf_hash h" "wf_packet p" "wf_mac mac" "look now c h = None"
  shows "\<exists>e. entry_packet e = p \<and> expires_at e = now + CACHE_TTL_MS \<and> broadcast_time e = now + jitter \<and>
      heard e = [mac] \<and> \<not> broadcasted e \<and> wf_entry e \<and> rx_count e = 1 \<and>
      (\<forall>t. look t (fst (addToCache c h p now jitter mac)) h = (if t < now + CACHE_TTL_MS then Some e else None))"
proof -
  have wf: "wf_cache c" using assms(1) by (simp add: cache_inv_def)
  have miss: "\<And>k. k < CACHE_SIZE \<Longrightarrow> \<not> known_as now h (entries c ! k)"
    using assms(5) by (simp add: look_None_iff [OF assms(1)])
  obtain idx c' where a: "idx < CACHE_SIZE" "addToCache c h p now jitter mac = (c', int idx)"
    "entries c' ! idx = fill_entry (purge now (entries c ! idx)) h p now jitter mac"
    and other: "\<And>k. k < CACHE_SIZE \<Longrightarrow> k \<noteq> idx \<Longrightarrow> entries c' ! k = purge now (entries c ! k)"
    by (rule addToCache_cases [OF wf assms(2-4), of now jitter]) blast
  have inv: "cache_inv c'" using addToCache_inv [OF assms(1-4) miss] a(2) by (metis fst_conv)
  let ?e = "entries c' ! idx"
  note new = fill_entry_wf [OF wf_purge [OF wf_cache_nth [OF wf a(1)]] assms(2-4)]
  have dead: "\<not> known_as t h (entries c' ! k)" if "k < CACHE_SIZE" "k \<noteq> idx" for k t
    using miss [OF that(1)] other [OF that] by (auto simp: known_as_def live_def)
  have "look t c' h = (if t < now + CACHE_TTL_MS then Some ?e else None)" for t
  proof (cases "t < now + CACHE_TTL_MS")
    case True
    then have "known_as t h ?e" using a(3) new(1) by (simp add: known_as_def live_def)
    with True a(1) show ?thesis by (auto simp: look_Some_iff [OF inv])
  next
    case False
    then have "\<not> known_as t h ?e" using a(3) by (simp add: known_as_def live_def)
    with False dead show ?thesis by (auto simp: look_None_iff [OF inv])
  qed
  with a new show ?thesis by (intro exI [of _ ?e]) simp
qed

text \<open>Storing forgets at most one other signature: the one of the row it overwrites, when no row was free.\<close>

definition forgotten :: "u32 \<Rightarrow> timeAwareCache \<Rightarrow> cacheEntry \<Rightarrow> u8 list set" where
  "forgotten now c e = (if \<exists>k < CACHE_SIZE. \<not> live now (entries c ! k) then {} else {entry_hmac e})"

lemma addToCache_forgets:
  assumes "cache_inv c" "wf_hash h" "wf_packet p" "wf_mac mac" "look now c h = None"
  obtains idx where "idx < CACHE_SIZE"
    "\<And>g. g \<noteq> h \<Longrightarrow> look now (fst (addToCache c h p now jitter mac)) g =
       (if g \<in> forgotten now c (entries c ! idx) then None else look now c g)"
    "\<forall>k < CACHE_SIZE. live now (entries c ! k) \<Longrightarrow>
       look now c (entry_hmac (entries c ! idx)) = Some (entries c ! idx) \<and>
       (\<forall>k < CACHE_SIZE. expires_at (entries c ! idx) \<le> expires_at (entries c ! k))"
proof -
  have wf: "wf_cache c" using assms(1) by (simp add: cache_inv_def)
  have miss: "\<And>k. k < CACHE_SIZE \<Longrightarrow> \<not> known_as now h (entries c ! k)"
    using assms(5) by (simp add: look_None_iff [OF assms(1)])
  obtain idx c' where a: "idx < CACHE_SIZE" "addToCache c h p now jitter mac = (c', int idx)"
    "entries c' ! idx = fill_entry (purge now (entries c ! idx)) h p now jitter mac"
    and other: "\<And>k. k < CACHE_SIZE \<Longrightarrow> k \<noteq> idx \<Longrightarrow> entries c' ! k = purge now (entries c ! k)"
    and vict: "\<not> live now (entries c ! idx) \<or>
       (\<forall>k < CACHE_SIZE. live now (entries c ! k) \<and> expires_at (entries c ! idx) \<le> expires_at (entries c ! k))"
    by (rule addToCache_cases [OF wf assms(2-4), of now jitter]) blast
  have inv: "cache_inv c'" using addToCache_inv [OF assms(1-4) miss] a(2) by (metis fst_conv)
  note new = fill_entry_wf(1) [OF wf_purge [OF wf_cache_nth [OF wf a(1)]] assms(2-4)]
  have notg: "\<not> known_as now g (entries c' ! idx)" if "g \<noteq> h" for g
    using a(3) new that by (simp add: known_as_def)
  have known: "known_as now g (entries c' ! k) = known_as now g (entries c ! k)" if "k < CACHE_SIZE" "k \<noteq> idx" for g k
    using other [OF that] by (simp add: known_as_def)
  have same: "look now c' g = look now c g" if "g \<noteq> h" "\<not> known_as now g (entries c ! idx)" for g
  proof (rule look_cong [OF assms(1) inv])
    fix k assume k: "k < CACHE_SIZE"
    show "known_as now g (entries c' ! k) = known_as now g (entries c ! k)"
      using that notg [OF that(1)] known [OF k] by (cases "k = idx") simp_all
    show "entries c' ! k = entries c ! k" if "known_as now g (entries c ! k)"
      using that \<open>\<not> known_as now g (entries c ! idx)\<close> other [OF k]
      by (cases "k = idx") (auto simp: known_as_def purge_live)
  qed
  have gone: "look now c' g = None" if "g \<noteq> h" "known_as now g (entries c ! idx)" for g
  proof -
    have "\<not> known_as now g (entries c ! k)" if "k < CACHE_SIZE" "k \<noteq> idx" for k
    proof
      assume "known_as now g (entries c ! k)"
      with \<open>known_as now g (entries c ! idx)\<close> have "active (entries c ! k)" "active (entries c ! idx)"
        "entry_hmac (entries c ! k) = entry_hmac (entries c ! idx)" by (auto simp: known_as_def live_def)
      with assms(1) that a(1) show False by (auto simp: cache_inv_def unique_hashes_def)
    qed
    with known notg [OF that(1)] show ?thesis by (metis look_None_iff [OF inv])
  qed
  show thesis
  proof (rule that [OF a(1)])
    show "look now (fst (addToCache c h p now jitter mac)) g =
        (if g \<in> forgotten now c (entries c ! idx) then None else look now c g)" if "g \<noteq> h" for g
    proof (cases "\<exists>k < CACHE_SIZE. \<not> live now (entries c ! k)")
      case True
      with vict have "\<not> known_as now g (entries c ! idx)" by (auto simp: known_as_def)
      with same [OF that] a(2) True show ?thesis by (simp add: forgotten_def)
    next
      case False
      with a(1) have "known_as now g (entries c ! idx) \<longleftrightarrow> g = entry_hmac (entries c ! idx)"
        by (auto simp: known_as_def)
      with same [OF that] gone [OF that] a(2) False show ?thesis by (auto simp: forgotten_def)
    qed
    show "look now c (entry_hmac (entries c ! idx)) = Some (entries c ! idx) \<and>
        (\<forall>k < CACHE_SIZE. expires_at (entries c ! idx) \<le> expires_at (entries c ! k))"
      if "\<forall>k < CACHE_SIZE. live now (entries c ! k)"
      using that vict a(1) by (auto simp: look_Some_iff [OF assms(1)] known_as_def)
  qed
qed

lemma counts_senders:
  assumes "cache_inv c" "look now c h = Some e0"
    "\<forall>x \<in> set xs. fst x < expires_at e0 \<and> wf_hash (fst (snd x)) \<and> wf_mac (snd (snd x))"
    "t < expires_at e0"
  shows "\<exists>e. look t (touch_all note_sighting c xs) h = Some e \<and>
    unat (rx_count e) = min MAX_TRACKED_MACS (card (set (heard e0) \<union> set (heard_with h xs)))"
proof -
  have "\<forall>m \<in> set (heard_with h xs). wf_mac m" using assms(3) by (auto simp: heard_with_def)
  with look_wf [OF assms(1,2)] have "unat (rx_count (foldl hear_mac e0 (heard_with h xs))) =
      min MAX_TRACKED_MACS (card (set (heard e0) \<union> set (heard_with h xs)))"
    by (intro rx_count_distinct) simp_all
  with cache.collected [OF assms] show ?thesis by blast
qed

section \<open>Properties\<close>

lemma look_zero_cache [simp]: "look now zero_cache h = None"
  by (auto simp: look_def find_None_iff zero_cache_def zero_entry_def live_def)

lemma not_known_zero_cache [simp]: "k < CACHE_SIZE \<Longrightarrow> \<not> known_as now h (entries zero_cache ! k)"
  by (simp add: zero_cache_def zero_entry_def known_as_def live_def)

definition sample_mac :: "u8 list" where
  "sample_mac = [0xE8, 0xDB, 0x84, 0x2E, 0xD4, 0x16]"

lemma sample_shapes [simp]: "wf_mac sample_mac" "wf_hash (hmac_sig sample_packet)"
  by (simp_all add: wf_mac_def sample_mac_def MAC_LEN_def wf_hash_def sample_packet_def HASH_SIZE_def)

text \<open>
  Property C13. The suppression window: a signature that was unknown and is stored at time
  \<open>now\<close> is found by checkCache at time \<open>t\<close> exactly when \<open>t\<close> is below \<open>now + 2000\<close> as a
  32-bit number. While the millisecond counter does not wrap this is the 2000 ms window; a
  packet stored in the last 2000 ms before the counter wraps is forgotten at once, and one
  stored earlier is still found after the counter restarted from zero.
\<close>

theorem cache_window:
  assumes "cache_inv c" "wf_hash h" "wf_packet p" "wf_mac mac" "look now c h = None"
  shows "snd (snd (checkCache (fst (addToCache c h p now jitter mac)) h t mac' st)) \<noteq> -1 \<longleftrightarrow>
    t < now + CACHE_TTL_MS"
proof -
  have "cache_inv (fst (addToCache c h p now jitter mac))"
    using assms by (intro addToCache_inv) (simp_all add: look_None_iff)
  from checkCache_hit_iff [OF this assms(2)] addToCache_look [OF assms, of jitter]
  show ?thesis by (auto split: if_splits)
qed

theorem cache_window_witness:
  "snd (snd (checkCache (fst (addToCache zero_cache (hmac_sig sample_packet) sample_packet 100 60 sample_mac))
     (hmac_sig sample_packet) 2099 sample_mac None)) \<noteq> -1 \<and>
   snd (snd (checkCache (fst (addToCache zero_cache (hmac_sig sample_packet) sample_packet 100 60 sample_mac))
     (hmac_sig sample_packet) 2100 sample_mac None)) = -1 \<and>
   snd (snd (checkCache (fst (addToCache zero_cache (hmac_sig sample_packet) sample_packet 0xFFFFFF00 60 sample_mac))
     (hmac_sig sample_packet) 0xFFFFFF00 sample_mac None)) = -1"
proof -
  note w = cache_window [OF zero_cache_inv sample_shapes(2) wf_sample_packet sample_shapes(1) look_zero_cache,
      where jitter = 60 and mac' = sample_mac and st = None]
  from w [where now = 100 and t = 2099] w [where now = 100 and t = 2100]
    w [where now = "0xFFFFFF00" and t = "0xFFFFFF00"]
  show ?thesis by (simp add: CACHE_TTL_MS_def)
qed

text \<open>
  While an entry lives, its receive counter is the number of different senders the
  packet was heard from, up to four, however the sightings of this and of other packets are
  interleaved.
\<close>

theorem cache_counts_senders:
  assumes "cache_inv c" "look now c h = Some e0"
    "\<forall>x \<in> set xs. fst x < expires_at e0 \<and> wf_hash (fst (snd x)) \<and> wf_mac (snd (snd x))"
    "t < expires_at e0"
  shows "\<exists>e. look t (touch_all note_sighting c xs) h = Some e \<and>
    unat (rx_count e) = min MAX_TRACKED_MACS (card (set (heard e0) \<union> set (heard_with h xs)))"
  using assms by (rule counts_senders)

theorem cache_counts_senders_witness:
  "\<exists>c e0 e. look 100 c (hmac_sig sample_packet) = Some e0 \<and> heard e0 = [sample_mac] \<and>
     look 300 (touch_all note_sighting c
       [(150, hmac_sig sample_packet, sample_mac), (200, hmac_sig sample_packet, [1, 2, 3, 4, 5, 6])])
       (hmac_sig sample_packet) = Some e \<and> unat (rx_count e) = 2"
proof -
  let ?c = "fst (addToCache zero_cache (hmac_sig sample_packet) sample_packet 100 60 sample_mac)"
  let ?xs = "[(150 :: u32, hmac_sig sample_packet, sample_mac), (200, hmac_sig sample_packet, [1, 2, 3, 4, 5, 6])]"
  have inv: "cache_inv ?c"
    by (intro addToCache_inv zero_cache_inv) simp_all
  from addToCache_look [OF zero_cache_inv sample_shapes(2) wf_sample_packet sample_shapes(1) look_zero_cache,
      of 100 60]
  obtain e0 where e0: "expires_at e0 = 2100" "heard e0 = [sample_mac]"
    "look 100 ?c (hmac_sig sample_packet) = Some e0" by (auto simp: CACHE_TTL_MS_def)
  have ok: "\<forall>x \<in> set ?xs. fst x < expires_at e0 \<and> wf_hash (fst (snd x)) \<and> wf_mac (snd (snd x))"
    by (simp add: e0(1)) (simp add: wf_mac_def MAC_LEN_def)
  have card2: "card ({sample_mac} \<union> set (heard_with (hmac_sig sample_packet) ?xs)) = 2"
    by (simp add: heard_with_def sample_mac_def card_insert_if)
  from cache_counts_senders [OF inv e0(3) ok, of 300] e0 card2 show ?thesis
    by (auto simp: MAX_TRACKED_MACS_def intro!: exI [of _ ?c])
qed

text \<open>
  Property C28. Storing a packet while some row is free or expired makes no other signature
  unknown; with all 256 rows live exactly one other signature is forgotten, whose entry expires
  no later than any other, and every other signature stays known under the very same entry, also
  those that expire at the same time.
\<close>

theorem cache_evicts_oldest:
  assumes "cache_inv c" "wf_hash h" "wf_packet p" "wf_mac mac" "look now c h = None"
  shows "if \<exists>k < CACHE_SIZE. \<not> live now (entries c ! k)
    then \<forall>g. g \<noteq> h \<longrightarrow> look now (fst (addToCache c h p now jitter mac)) g = look now c g
    else \<exists>v e. look now c v = Some e \<and> (\<forall>k < CACHE_SIZE. expires_at e \<le> expires_at (entries c ! k)) \<and>
      (\<forall>g. g \<noteq> h \<longrightarrow> look now (fst (addToCache c h p now jitter mac)) g = (if g = v then None else look now c g))"
  by (rule addToCache_forgets [OF assms, of jitter]) (auto simp: forgotten_def)

text \<open>A full table: row \<open>k\<close> holds the signature k, 0, ..., 0 until \<open>3000 + k\<close>.\<close>

definition full_row :: "nat \<Rightarrow> cacheEntry" where
  "full_row k = zero_entry\<lparr>entry_hmac := of_nat k # replicate 7 0, expires_at := 3000 + of_nat k,
     rx_count := 1, active := True\<rparr>"

definition full_cache :: timeAwareCache where
  "full_cache = \<lparr>entries = map full_row [0..<CACHE_SIZE]\<rparr>"

lemma full_rows: "k < CACHE_SIZE \<Longrightarrow> entries full_cache ! k = full_row k"
  by (simp add: full_cache_def)

lemma full_row_fields [simp]:
  "active (full_row k)" "expires_at (full_row k) = 3000 + of_nat k" "entry_hmac (full_row k) = of_nat k # replicate 7 0"
  by (simp_all add: full_row_def)

lemma full_row_expiry: "k < CACHE_SIZE \<Longrightarrow> unat (3000 + of_nat k :: u32) = 3000 + k"
  by (simp add: unat_word_ariths unat_of_nat CACHE_SIZE_def)

lemma full_cache_live: "k < CACHE_SIZE \<Longrightarrow> live 9 (entries full_cache ! k)"
  by (simp add: full_rows live_def word_less_nat_alt full_row_expiry)

lemma full_cache_inv: "cache_inv full_cache"
proof -
  have "wf_entry (full_row k)" for k
    by (simp add: wf_entry_def full_row_def zero_entry_def wf_hash_def heard_def wf_mac_def HASH_SIZE_def MAX_TRACKED_MACS_def)
  then have "wf_cache full_cache" by (intro wf_cacheI) (simp_all add: full_rows, simp add: full_cache_def)
  moreover have "(of_nat i :: u8) \<noteq> of_nat j" if "i < CACHE_SIZE" "j < CACHE_SIZE" "i \<noteq> j" for i j
    using that by (simp add: CACHE_SIZE_def of_nat_inverse word_of_nat_eq_iff take_bit_nat_eq_self)
  then have "unique_hashes full_cache" by (simp add: unique_hashes_def full_rows)
  ultimately show ?thesis by (simp add: cache_inv_def)
qed

lemma full_cache_look: "k < CACHE_SIZE \<Longrightarrow> look 9 full_cache (of_nat k # replicate 7 0) = Some (full_row k)"
  using full_cache_live [of k]
  by (auto simp: look_Some_iff [OF full_cache_inv] known_as_def full_rows intro!: exI [of _ k])

theorem cache_evicts_oldest_witness:
  "look 9 full_cache (replicate 8 0) = Some (full_row 0) \<and>
   look 9 (fst (addToCache full_cache (replicate 8 7) sample_packet 9 60 sample_mac)) (replicate 8 0) = None \<and>
   look 9 (fst (addToCache full_cache (replicate 8 7) sample_packet 9 60 sample_mac)) (1 # replicate 7 0) = Some (full_row 1)"
proof -
  have h: "wf_hash (replicate 8 7)" by (simp add: wf_hash_def HASH_SIZE_def)
  have r: "replicate 8 x = x # x # replicate 6 x" "replicate 7 x = x # replicate 6 x" for x :: u8
    by (simp_all add: numeral_eq_Suc)
  have n: "look 9 full_cache (replicate 8 7) = None"
    by (simp add: look_None_iff [OF full_cache_inv] known_as_def full_rows r)
  have full: "\<not> (\<exists>k < CACHE_SIZE. \<not> live 9 (entries full_cache ! k))" using full_cache_live by blast
  from cache_evicts_oldest [OF full_cache_inv h wf_sample_packet sample_shapes(1) n, of 60, unfolded if_not_P [OF full]]
  obtain v e where e: "look 9 full_cache v = Some e" "\<forall>k < CACHE_SIZE. expires_at e \<le> expires_at (entries full_cache ! k)"
    and l: "\<And>g. g \<noteq> replicate 8 7 \<Longrightarrow> look 9 (fst (addToCache full_cache (replicate 8 7) sample_packet 9 60 sample_mac)) g =
      (if g = v then None else look 9 full_cache g)"
    by blast
  from e(1) obtain k where k: "k < CACHE_SIZE" "e = full_row k" "v = of_nat k # replicate 7 0"
    by (auto simp: look_Some_iff [OF full_cache_inv] known_as_def full_rows)
  have "expires_at e \<le> 3000" using e(2) [rule_format, of 0] by (simp add: full_rows CACHE_SIZE_def)
  then have "k = 0" using k full_row_expiry [OF k(1)] by (simp add: word_le_nat_alt)
  with k(3) have v: "v = replicate 8 0" by (simp add: r)
  have ne: "replicate 8 0 \<noteq> replicate 8 (7 :: u8)" "1 # replicate 7 0 \<noteq> replicate 8 (7 :: u8)" "1 # replicate 7 0 \<noteq> replicate 8 (0 :: u8)"
    by (simp_all add: r)
  from full_cache_look [of 0] full_cache_look [of 1] have f: "look 9 full_cache (replicate 8 0) = Some (full_row 0)"
    "look 9 full_cache (1 # replicate 7 0) = Some (full_row 1)" by (simp_all add: CACHE_SIZE_def r)
  from l [OF ne(1)] l [OF ne(2)] f v ne(3) show ?thesis by simp
qed

text \<open>
  Property C34. Looking a signature up, as the relay does for every frame, keeps the table well
  formed on a hit, which may add a sender to a row, as on a miss; and so does storing the packet
  after a miss: 256 rows of the right sizes, between one and four different senders in every
  active row, and no two active rows with the same signature.
\<close>

theorem cache_round_inv:
  assumes "cache_inv c" "wf_hash h" "wf_packet p" "wf_mac mac" "checkCache c h now mac st = (c1, st1, location)"
  shows "cache_inv c1 \<and> (location = -1 \<longrightarrow> cache_inv (fst (addToCache c1 h p now jitter mac)))"
proof (intro conjI impI)
  show c1: "cache_inv c1" using checkCache_inv [OF assms(1,2,4), of now st] assms(5) by simp
  assume "location = -1"
  then have "look now c h = None" using checkCache_hit_iff [OF assms(1,2), of now mac st] assms(5) by auto
  then have "look now c1 h = None"
    using checkCache_look [OF assms(1,2,4), of now st h] assms(5) by simp
  with c1 assms(2-4) show "cache_inv (fst (addToCache c1 h p now jitter mac))"
    by (auto intro!: addToCache_inv simp: look_None_iff)
qed

text \<open>A miss, the packet stored, and then a hit from a second sender, whose address is added.\<close>

theorem cache_round_inv_witness:
  "\<exists>c c2 location. c = fst (addToCache (fst (checkCache zero_cache (hmac_sig sample_packet) 5 sample_mac None))
     (hmac_sig sample_packet) sample_packet 5 60 sample_mac) \<and> cache_inv c \<and>
   checkCache c (hmac_sig sample_packet) 99 [1, 2, 3, 4, 5, 6] None = (c2, Some StatusDrop, location) \<and>
   location \<noteq> -1 \<and> cache_inv c2"
proof -
  obtain c1 st1 i where c: "checkCache zero_cache (hmac_sig sample_packet) 5 sample_mac None = (c1, st1, i)"
    by (cases "checkCache zero_cache (hmac_sig sample_packet) 5 sample_mac None")
  have "i = -1"
    using checkCache_hit_iff [OF zero_cache_inv sample_shapes(2), of 5 sample_mac None] c by simp
  then have i1: "cache_inv c1" "cache_inv (fst (addToCache c1 (hmac_sig sample_packet) sample_packet 5 60 sample_mac))"
    using cache_round_inv [OF zero_cache_inv sample_shapes(2) wf_sample_packet sample_shapes(1) c, of 60] by simp_all
  let ?c = "fst (addToCache c1 (hmac_sig sample_packet) sample_packet 5 60 sample_mac)"
  have "look 5 c1 (hmac_sig sample_packet) = None"
    using checkCache_look [OF zero_cache_inv sample_shapes(2,1), of 5 None "hmac_sig sample_packet"] c by simp
  from addToCache_look [OF i1(1) sample_shapes(2) wf_sample_packet sample_shapes(1) this, of 60]
  have k: "look 99 ?c (hmac_sig sample_packet) \<noteq> None" by (auto simp: CACHE_TTL_MS_def)
  obtain c2 st2 j where c2: "checkCache ?c (hmac_sig sample_packet) 99 [1, 2, 3, 4, 5, 6] None = (c2, st2, j)"
    by (cases "checkCache ?c (hmac_sig sample_packet) 99 [1, 2, 3, 4, 5, 6] None")
  have m: "wf_mac [1, 2, 3, 4, 5, 6]" by (simp add: wf_mac_def MAC_LEN_def)
  have wf: "wf_cache ?c" using i1(2) by (simp add: cache_inv_def)
  have j: "j \<noteq> -1"
    using checkCache_hit_iff [OF i1(2) sample_shapes(2), of 99 "[1, 2, 3, 4, 5, 6]" None] k c2 by simp
  have "st2 = Some StatusDrop"
    by (rule checkCache_cases [OF wf sample_shapes(2), of 99 "[1, 2, 3, 4, 5, 6]" None]) (use c2 j in simp_all)
  with j cache_round_inv [OF i1(2) sample_shapes(2) wf_sample_packet m c2, of 60] c c2 i1(2) show ?thesis
    by (intro exI [of _ ?c] exI [of _ c2] exI [of _ j]) simp
qed

text \<open>
  The status text after a lookup does not depend on the sender: it is the DROP
  text after every hit, for a known and for a new sender alike, and unchanged after a miss.
\<close>

theorem cache_status_drop:
  assumes "cache_inv c" "wf_hash h"
  shows "fst (snd (checkCache c h now mac st)) = (if look now c h = None then st else Some StatusDrop)"
proof -
  have wf: "wf_cache c" using assms(1) by (simp add: cache_inv_def)
  show ?thesis
    by (rule checkCache_cases [OF wf assms(2), of now mac st])
      (auto simp: look_None_iff [OF assms(1)] split: if_splits)
qed

theorem cache_status_drop_witness:
  "fst (snd (checkCache zero_cache (hmac_sig sample_packet) 5 sample_mac None)) = None"
  using cache_status_drop [OF zero_cache_inv sample_shapes(2), of 5 sample_mac None] by simp

end
