(* ===== verification/EspRelay.thy ===== *)
theory EspRelay
  imports TimeAwareCache
begin

text \<open>
  esp-relay.cpp, the ESP32 relay and gateway firmware, as compiled (GATEWAY\_MODE is defined in
  the file): the scan callback \<open>onResult\<close>, the main loop \<open>relay_loop\<close> and the Wi-Fi wait of
  \<open>setup\<close>. The two tasks share the cache under a mutex, so each critical section is one step
  of the relation \<open>relay_step\<close>. The clock, the Wi-Fi status and the random jitter are inputs of
  a step; UDP packets and log lines are its events; the radio (advertising data, advertising on
  or off, scanning on or off) is part of the state.
\<close>

section \<open>Model\<close>

definition TARGET_CID :: u16 where
  "TARGET_CID = 0xFFFF"

definition REDUNDANCY :: nat where
  "REDUNDANCY = 4"

definition BROADCAST_BURST :: u32 where
  "BROADCAST_BURST = 500"

definition WIFI_CONNECT_TIMEOUT_MS :: u32 where
  "WIFI_CONNECT_TIMEOUT_MS = 8000"

record relay =
  relay_cache :: timeAwareCache
  isBroadcasting :: bool
  broadcastEndTime :: u32
  currentBroadcastIndex :: int
  cacheMacStatus :: "mac_status option"
  advData :: "u8 list"
  advertising :: bool
  scanning :: bool
  led :: bool

datatype relay_event =
    StatusLine "mac_status option"
  | UdpPacket "u8 list"
  | ExitLine
  | QueueLine u32
  | TtlExpiredLine
  | InCacheLine
  | StartLine
  | ForwardLine nat
  | CancelLine nat
  | CompletedLine

text \<open>The state after setup: every global zero or as initialised, the scan running.\<close>

definition relay_init :: relay where
  "relay_init = \<lparr>relay_cache = zero_cache, isBroadcasting = False, broadcastEndTime = 0,
     currentBroadcastIndex = -1, cacheMacStatus = None, advData = [], advertising = False,
     scanning = True, led = False\<rparr>"

subsection \<open>The scan callback\<close>

definition received_cid :: "u8 list \<Rightarrow> u16" where
  "received_cid raw = ucast (raw ! 0) OR push_bit 8 (ucast (raw ! 1))"

text \<open>\<open>cache.entries[loc].broadcasted = true\<close>; None is a write outside the array.\<close>

definition mark_broadcasted :: "timeAwareCache \<Rightarrow> int \<Rightarrow> timeAwareCache option" where
  "mark_broadcasted c loc =
     (if 0 \<le> loc \<and> loc < int CACHE_SIZE
      then Some (c\<lparr>entries := (entries c)[nat loc := (entries c ! nat loc)\<lparr>broadcasted := True\<rparr>]\<rparr>)
      else None)"

text \<open>The gateway branch: three UDP packets, then the frame is cached as already sent.\<close>

definition gateway_cache :: "timeAwareCache \<Rightarrow> mac_status option \<Rightarrow> emergencyPacket \<Rightarrow> u32 \<Rightarrow> u8 list \<Rightarrow>
    (timeAwareCache \<times> mac_status option) option" where
  "gateway_cache c st p now mac =
     (let (c1, _) = addToCache c (hmac_sig p) p now 0 mac;
          (c2, st2, newLoc) = checkCache c1 (hmac_sig p) now mac st
      in if newLoc \<noteq> -1 then map_option (\<lambda>c3. (c3, st2)) (mark_broadcasted c2 newLoc)
         else Some (c2, st2))"

definition onResult :: "relay \<Rightarrow> u8 list option \<Rightarrow> u8 list \<Rightarrow> u32 \<Rightarrow> bool \<Rightarrow> u32 \<Rightarrow>
    (relay \<times> relay_event list) option" where
  "onResult s mfr senderMAC now wifi randomJitter =
     (case mfr of
        None \<Rightarrow> Some (s, [])
      | Some raw \<Rightarrow>
          if length raw = 2 + PACKET_SIZE
          then (if received_cid raw = TARGET_CID
                then (let p = bytes_packet (take PACKET_SIZE (drop 2 raw));
                          (c1, st1, location) =
                            checkCache (relay_cache s) (hmac_sig p) now senderMAC (cacheMacStatus s);
                          s1 = s\<lparr>relay_cache := c1, cacheMacStatus := st1\<rparr>
                      in if location = -1
                         then (if wifi
                               then (case gateway_cache c1 st1 p now senderMAC of
                                       None \<Rightarrow> None
                                     | Some (c2, st2) \<Rightarrow>
                                         Some (s1\<lparr>relay_cache := c2, cacheMacStatus := st2\<rparr>,
                                           [StatusLine st1, UdpPacket raw, UdpPacket raw, UdpPacket raw, ExitLine]))
                               else (case ttl_hop p of
                                       HopForward q \<Rightarrow>
                                         Some (s1\<lparr>relay_cache :=
                                             fst (addToCache c1 (hmac_sig q) q now randomJitter senderMAC)\<rparr>,
                                           [StatusLine st1, QueueLine randomJitter])
                                     | HopExpired \<Rightarrow> Some (s1, [StatusLine st1, TtlExpiredLine])
                                     | HopIgnored \<Rightarrow> Some (s1, [StatusLine st1])))
                         else Some (s1, [StatusLine st1, InCacheLine]))
                else Some (s, []))
          else Some (s, []))"

subsection \<open>The main loop\<close>

definition frame_bytes :: "emergencyPacket \<Rightarrow> u8 list" where
  "frame_bytes p = le_bytes 2 TARGET_CID @ packet_bytes p"

function loop_from :: "relay \<Rightarrow> u32 \<Rightarrow> nat \<Rightarrow> relay \<times> relay_event list" where
  "loop_from s now i =
     (if i < CACHE_SIZE
      then (let e = entries (relay_cache s) ! i
            in if active e \<and> \<not> broadcasted e
               then (if now \<ge> broadcast_time e
                     then (if unat (rx_count e) < REDUNDANCY
                           then (s\<lparr>scanning := False, advData := frame_bytes (entry_packet e), led := True,
                                   advertising := True, isBroadcasting := True,
                                   broadcastEndTime := now + BROADCAST_BURST,
                                   currentBroadcastIndex := int i\<rparr>,
                                 [StartLine, ForwardLine i])
                           else (let (s2, evs) = loop_from (s\<lparr>relay_cache := (relay_cache s)\<lparr>entries :=
                                       (entries (relay_cache s))[i := e\<lparr>broadcasted := True\<rparr>]\<rparr>\<rparr>) now (Suc i)
                                 in (s2, CancelLine i # evs)))
                     else loop_from s now (Suc i))
               else loop_from s now (Suc i))
      else (s, []))"
  by pat_completeness auto
termination
  by (relation "measure (\<lambda>(s, now, i). CACHE_SIZE - i)") auto

declare loop_from.simps [simp del]

definition relay_loop :: "relay \<Rightarrow> u32 \<Rightarrow> (relay \<times> relay_event list) option" where
  "relay_loop s now =
     (if isBroadcasting s
      then (if now \<ge> broadcastEndTime s
            then map_option
                   (\<lambda>c. (s\<lparr>advertising := False, led := False, scanning := True, isBroadcasting := False,
                           relay_cache := c\<rparr>, [CompletedLine]))
                   (mark_broadcasted (relay_cache s) (currentBroadcastIndex s))
            else Some (s, []))
      else Some (loop_from s now 0))"

subsection \<open>Waiting for Wi-Fi\<close>

text \<open>
  The wait of setup, over what WiFi.status() and millis() return at the k-th test; None is a
  wait that is still going when the fuel ends, otherwise the number of 500 ms delays.
\<close>

fun wifi_wait :: "nat \<Rightarrow> (nat \<Rightarrow> bool) \<Rightarrow> (nat \<Rightarrow> u32) \<Rightarrow> u32 \<Rightarrow> nat \<Rightarrow> nat option" where
  "wifi_wait 0 connected millis start k = None"
| "wifi_wait (Suc fuel) connected millis start k =
     (if \<not> connected k \<and> millis k - start < WIFI_CONNECT_TIMEOUT_MS
      then wifi_wait fuel connected millis start (Suc k)
      else Some k)"

section \<open>The two tasks as a step relation\<close>

datatype relay_input =
    Advert "u8 list option" "u8 list" u32 bool u32
  | Tick u32

text \<open>Sender addresses have six bytes; random(50, 201) returns a value from 50 to 200.\<close>

definition jitter_ok :: "u32 \<Rightarrow> bool" where
  "jitter_ok j \<longleftrightarrow> 50 \<le> j \<and> j \<le> 200"

inductive relay_step :: "relay \<Rightarrow> relay_input \<Rightarrow> relay_event list \<Rightarrow> relay \<Rightarrow> bool" where
  advert: "onResult s mfr mac now wifi j = Some (s', evs) \<Longrightarrow> wf_mac mac \<Longrightarrow> jitter_ok j \<Longrightarrow>
     relay_step s (Advert mfr mac now wifi j) evs s'"
| tick: "relay_loop s now = Some (s', evs) \<Longrightarrow> relay_step s (Tick now) evs s'"

inductive_cases relay_step_AdvertE [elim!]: "relay_step s (Advert mfr mac now wifi j) evs s'"
inductive_cases relay_step_TickE [elim!]: "relay_step s (Tick now) evs s'"
inductive_simps relay_step_Tick [simp]: "relay_step s (Tick now) evs s'"

text \<open>The states a relay can reach, with the inputs it has taken, latest last.\<close>

inductive relay_run :: "relay_input list \<Rightarrow> relay \<Rightarrow> bool" where
  start: "relay_run [] relay_init"
| step: "relay_run xs s \<Longrightarrow> relay_step s x evs s' \<Longrightarrow> relay_run (xs @ [x]) s'"

section \<open>Invariant\<close>

definition waiting :: "cacheEntry \<Rightarrow> bool" where
  "waiting e \<longleftrightarrow> active e \<and> \<not> broadcasted e"

text \<open>
  Every entry that waits for its burst holds a packet of a set \<open>H\<close>, under its own signature.
  \<open>H\<close> will be the packets that the hop rule makes of the frames received so far.
\<close>

definition queue_ok :: "emergencyPacket set \<Rightarrow> timeAwareCache \<Rightarrow> bool" where
  "queue_ok H c \<longleftrightarrow> (\<forall>k < CACHE_SIZE. waiting (entries c ! k) \<longrightarrow>
     entry_packet (entries c ! k) \<in> H \<and> entry_hmac (entries c ! k) = hmac_sig (entry_packet (entries c ! k)))"

text \<open>The radio either scans or sends a frame built from such a packet, never both.\<close>

definition radio_ok :: "emergencyPacket set \<Rightarrow> relay \<Rightarrow> bool" where
  "radio_ok H s \<longleftrightarrow> (advertising s \<longleftrightarrow> isBroadcasting s) \<and> (led s \<longleftrightarrow> isBroadcasting s) \<and>
     (scanning s \<longleftrightarrow> \<not> isBroadcasting s) \<and>
     (isBroadcasting s \<longrightarrow> 0 \<le> currentBroadcastIndex s \<and> currentBroadcastIndex s < int CACHE_SIZE \<and>
        (\<exists>p \<in> H. advData s = frame_bytes p))"

definition relay_inv :: "emergencyPacket set \<Rightarrow> relay \<Rightarrow> bool" where
  "relay_inv H s \<longleftrightarrow> cache_inv (relay_cache s) \<and> queue_ok H (relay_cache s) \<and> radio_ok H s"

text \<open>An operation that adds nothing to the queue.\<close>

definition no_new_waiting :: "timeAwareCache \<Rightarrow> timeAwareCache \<Rightarrow> bool" where
  "no_new_waiting c c' \<longleftrightarrow> (\<forall>k < CACHE_SIZE. waiting (entries c' ! k) \<longrightarrow> waiting (entries c ! k) \<and>
     entry_packet (entries c' ! k) = entry_packet (entries c ! k) \<and>
     entry_hmac (entries c' ! k) = entry_hmac (entries c ! k))"

lemma queue_ok_no_new: "queue_ok H c \<Longrightarrow> no_new_waiting c c' \<Longrightarrow> queue_ok H c'"
  unfolding queue_ok_def no_new_waiting_def by metis

lemma no_new_trans: "no_new_waiting c c1 \<Longrightarrow> no_new_waiting c1 c2 \<Longrightarrow> no_new_waiting c c2"
  unfolding no_new_waiting_def by metis

lemma waiting_purge: "waiting (purge now e) \<longleftrightarrow> waiting e \<and> live now e"
  by (auto simp: waiting_def live_def)

lemma waiting_hear [simp]: "waiting (hear_mac e mac) = waiting e"
  by (simp add: waiting_def)

lemma wf_hash_packet [simp]: "wf_packet p \<Longrightarrow> wf_hash (hmac_sig p)"
  by (simp add: wf_packet_def wf_hash_def SIG_LEN_def HASH_SIZE_def)

lemma checkCache_no_new:
  assumes "wf_cache c" "wf_hash h"
  shows "no_new_waiting c (fst (checkCache c h now mac st))"
proof -
  have len: "length (entries c) = CACHE_SIZE" using assms(1) by (simp add: wf_cache_def)
  show ?thesis
    by (rule checkCache_cases [OF assms, of now mac st])
      (auto simp: no_new_waiting_def waiting_purge len split: if_splits)
qed

lemma mark_broadcasted_spec:
  assumes "cache_inv c" "0 \<le> loc" "loc < int CACHE_SIZE"
  shows "\<exists>c'. mark_broadcasted c loc = Some c' \<and> cache_inv c' \<and> no_new_waiting c c' \<and>
    \<not> waiting (entries c' ! nat loc) \<and>
    (\<forall>k < CACHE_SIZE. k \<noteq> nat loc \<longrightarrow> entries c' ! k = entries c ! k)"
proof -
  have len: "length (entries c) = CACHE_SIZE" and wf: "wf_cache c"
    using assms(1) by (simp_all add: cache_inv_def wf_cache_def)
  let ?c = "c\<lparr>entries := (entries c)[nat loc := (entries c ! nat loc)\<lparr>broadcasted := True\<rparr>]\<rparr>"
  have loc: "nat loc < CACHE_SIZE" using assms(2,3) by simp
  have "wf_entry ((entries c ! nat loc)\<lparr>broadcasted := True\<rparr>)"
    using wf_cache_nth [OF wf loc] by (simp add: wf_entry_def heard_def)
  then have "wf_cache ?c" by (rule wf_cache_update [OF wf])
  moreover have "unique_hashes ?c"
    by (rule unique_hashes_mono [of c])
      (use assms(1) loc in \<open>auto simp: cache_inv_def nth_list_update len split: if_splits\<close>)
  moreover have "no_new_waiting c ?c"
    using loc by (auto simp: no_new_waiting_def nth_list_update len waiting_def)
  ultimately show ?thesis
    using assms loc len by (intro exI [of _ ?c]) (simp add: mark_broadcasted_def cache_inv_def waiting_def)
qed

lemma addToCache_waiting:
  assumes "cache_inv c" "wf_packet p" "wf_mac mac" "look now c (hmac_sig p) = None"
  shows "\<exists>idx < CACHE_SIZE. \<forall>k < CACHE_SIZE.
    let e = entries (fst (addToCache c (hmac_sig p) p now jitter mac)) ! k
    in if k = idx then entry_packet e = p \<and> entry_hmac e = hmac_sig p \<and> active e \<and> \<not> broadcasted e
       else entry_hmac e = entry_hmac (entries c ! k) \<and> entry_packet e = entry_packet (entries c ! k) \<and>
         (active e \<longrightarrow> entry_hmac e \<noteq> hmac_sig p) \<and> (waiting e \<longrightarrow> waiting (entries c ! k))"
proof -
  have wf: "wf_cache c" using assms(1) by (simp add: cache_inv_def)
  have h: "wf_hash (hmac_sig p)" using assms(2) by simp
  obtain idx c' where a: "idx < CACHE_SIZE" "addToCache c (hmac_sig p) p now jitter mac = (c', int idx)"
    "entries c' ! idx = fill_entry (purge now (entries c ! idx)) (hmac_sig p) p now jitter mac"
    and other: "\<And>k. k < CACHE_SIZE \<Longrightarrow> k \<noteq> idx \<Longrightarrow> entries c' ! k = purge now (entries c ! k)"
    by (rule addToCache_cases [OF wf h assms(2,3), of now jitter]) blast
  note new = fill_entry_wf(1) [OF wf_purge [OF wf_cache_nth [OF wf a(1)]] h assms(2,3)]
  have "\<not> known_as now (hmac_sig p) (entries c ! k)" if "k < CACHE_SIZE" for k
    using that assms(4) by (simp add: look_None_iff [OF assms(1)])
  with a new other show ?thesis
    by (intro exI [of _ idx]) (auto simp: Let_def known_as_def waiting_purge)
qed

lemma addToCache_queue_ok:
  assumes "cache_inv c" "queue_ok H c" "p \<in> H" "wf_packet p" "wf_mac mac" "look now c (hmac_sig p) = None"
  shows "queue_ok H (fst (addToCache c (hmac_sig p) p now jitter mac))"
  using addToCache_waiting [OF assms(1,4,5,6), of jitter] assms(2,3) unfolding queue_ok_def Let_def by metis

lemma addToCache_inv_look:
  "cache_inv c \<Longrightarrow> wf_packet p \<Longrightarrow> wf_mac mac \<Longrightarrow> look now c (hmac_sig p) = None \<Longrightarrow>
     cache_inv (fst (addToCache c (hmac_sig p) p now jitter mac))"
  by (intro addToCache_inv) (simp_all add: look_None_iff)

lemma gateway_cache_spec:
  assumes "cache_inv c" "wf_packet p" "wf_mac mac" "look now c (hmac_sig p) = None"
  obtains c2 st2 where "gateway_cache c st p now mac = Some (c2, st2)" "cache_inv c2" "no_new_waiting c c2"
    "\<And>k. k < CACHE_SIZE \<Longrightarrow> waiting (entries c2 ! k) \<Longrightarrow> entry_hmac (entries c2 ! k) \<noteq> hmac_sig p"
proof -
  let ?h = "hmac_sig p"
  define c1 where "c1 = fst (addToCache c ?h p now 0 mac)"
  have inv1: "cache_inv c1" unfolding c1_def using assms by (rule addToCache_inv_look)
  have wf1: "wf_cache c1" "wf_hash ?h" using inv1 assms(2) by (simp_all add: cache_inv_def)
  obtain idx where idx: "idx < CACHE_SIZE" "active (entries c1 ! idx)" "entry_hmac (entries c1 ! idx) = ?h"
    and old: "\<And>k. k < CACHE_SIZE \<Longrightarrow> k \<noteq> idx \<Longrightarrow> entry_hmac (entries c1 ! k) = entry_hmac (entries c ! k) \<and>
       entry_packet (entries c1 ! k) = entry_packet (entries c ! k) \<and>
       (active (entries c1 ! k) \<longrightarrow> entry_hmac (entries c1 ! k) \<noteq> ?h) \<and>
       (waiting (entries c1 ! k) \<longrightarrow> waiting (entries c ! k))"
    using addToCache_waiting [OF assms, of 0] unfolding Let_def c1_def [symmetric] by metis
  have conclude: "no_new_waiting c c2 \<and>
      (\<forall>k < CACHE_SIZE. waiting (entries c2 ! k) \<longrightarrow> entry_hmac (entries c2 ! k) \<noteq> ?h)"
    if nn: "no_new_waiting c1 c2" and no: "\<not> waiting (entries c2 ! idx)" for c2
  proof -
    have "waiting (entries c ! k) \<and> entry_packet (entries c2 ! k) = entry_packet (entries c ! k) \<and>
        entry_hmac (entries c2 ! k) = entry_hmac (entries c ! k) \<and> entry_hmac (entries c2 ! k) \<noteq> ?h"
      if k: "k < CACHE_SIZE" "waiting (entries c2 ! k)" for k
    proof -
      have "k \<noteq> idx" using k no by auto
      with old [OF k(1)] nn k show ?thesis by (auto simp: no_new_waiting_def waiting_def)
    qed
    then show ?thesis unfolding no_new_waiting_def by metis
  qed
  have gw: "gateway_cache c st p now mac =
      (case checkCache c1 ?h now mac st of (c2, st2, newLoc) \<Rightarrow>
        if newLoc \<noteq> -1 then map_option (\<lambda>c3. (c3, st2)) (mark_broadcasted c2 newLoc) else Some (c2, st2))"
    by (simp add: gateway_cache_def c1_def Let_def split_beta)
  show thesis
  proof (rule checkCache_cases [OF wf1, of now mac st])
    fix j c'
    assume hit: "j < CACHE_SIZE" "known_as now ?h (entries c1 ! j)"
      "checkCache c1 ?h now mac st = (c', Some StatusDrop, int j)"
    have j: "j = idx" using hit(1,2) old by (auto simp: known_as_def live_def)
    have inv': "cache_inv c'" using checkCache_inv [OF inv1 wf1(2) assms(3), of now st] hit(3) by simp
    have nn': "no_new_waiting c1 c'" using checkCache_no_new [OF wf1, of now mac st] hit(3) by simp
    obtain c3 where c3: "mark_broadcasted c' (int j) = Some c3" "cache_inv c3" "no_new_waiting c' c3"
      "\<not> waiting (entries c3 ! j)"
      using mark_broadcasted_spec [OF inv', of "int j"] hit(1) by auto
    show thesis
      by (rule that [of c3 "Some StatusDrop"])
        (use gw hit(3) c3 conclude [OF no_new_trans [OF nn' c3(3)]] j in auto)
  next
    fix c'
    assume miss: "\<And>k. k < CACHE_SIZE \<Longrightarrow> \<not> known_as now ?h (entries c1 ! k)"
      "checkCache c1 ?h now mac st = (c', st, -1)" "entries c' = map (purge now) (entries c1)"
    have inv': "cache_inv c'" using checkCache_inv [OF inv1 wf1(2) assms(3), of now st] miss(2) by simp
    have nn': "no_new_waiting c1 c'" using checkCache_no_new [OF wf1, of now mac st] miss(2) by simp
    have "\<not> waiting (entries c' ! idx)"
      using miss(1) [OF idx(1)] miss(3) idx wf1(1) by (auto simp: waiting_purge known_as_def wf_cache_def)
    from conclude [OF nn' this] show thesis
      by (intro that [of c' st]) (use gw miss(2) inv' in auto)
  qed
qed

text \<open>The branches of the scan callback for a frame it takes.\<close>

lemma onResult_other:
  "mfr = None \<or> (\<exists>raw. mfr = Some raw \<and> (length raw \<noteq> 2 + PACKET_SIZE \<or> received_cid raw \<noteq> TARGET_CID)) \<Longrightarrow>
     onResult s mfr mac now wifi j = Some (s, [])"
  by (auto simp: onResult_def)

lemma frame_bytes_eq: "frame_bytes p = [0xFF, 0xFF] @ packet_bytes p"
  by (simp add: frame_bytes_def TARGET_CID_def le_bytes_def upt_rec)

lemma length_frame [simp]: "wf_packet p \<Longrightarrow> length (frame_bytes p) = 2 + PACKET_SIZE"
  by (simp add: frame_bytes_eq)

lemma received_cid_frame [simp]: "received_cid (frame_bytes p) = TARGET_CID"
  by (simp add: frame_bytes_eq received_cid_def TARGET_CID_def)

lemma drop_frame [simp]: "drop 2 (frame_bytes p) = packet_bytes p"
  by (simp add: frame_bytes_eq)

lemma status_same [simp]: "s\<lparr>relay_cache := c, cacheMacStatus := cacheMacStatus s\<rparr> = s\<lparr>relay_cache := c\<rparr>"
  by (cases s) simp

lemma frame_packet [simp]: "wf_packet p \<Longrightarrow> bytes_packet (take PACKET_SIZE (drop 2 (frame_bytes p))) = p"
  by (simp add: frame_bytes_eq)

lemma frame_cases:
  assumes "length raw = 2 + PACKET_SIZE" "received_cid raw = TARGET_CID"
  obtains p where "wf_packet p" "raw = frame_bytes p"
proof -
  let ?p = "bytes_packet (drop 2 raw)"
  from assms(1) obtain a b bs where raw: "raw = a # b # bs" "length bs = PACKET_SIZE"
    by (auto simp: length_Suc_conv PACKET_SIZE_def numeral_eq_Suc)
  have "a = 0xFF \<and> b = 0xFF"
  proof -
    from assms(2) raw have e: "(le_word [a, b] :: u16) = le_word [0xFF, 0xFF]"
      by (simp add: received_cid_def TARGET_CID_def)
    have "[a, b] = [0xFF, 0xFF]" using w16.dec_inject [of "[a, b]" "[0xFF, 0xFF]"] e by simp
    then show ?thesis by simp
  qed
  with raw show thesis by (intro that [of ?p]) (simp_all add: frame_bytes_eq)
qed

lemma cache_status_of:
  assumes "cache_inv c" "wf_hash h"
  shows "fst (snd (checkCache c h now mac st)) = (if look now c h = None then st else Some StatusDrop)"
proof -
  have wf: "wf_cache c" using assms(1) by (simp add: cache_inv_def)
  show ?thesis
    by (rule checkCache_cases [OF wf assms(2), of now mac st])
      (auto simp: look_None_iff [OF assms(1)] split: if_splits)
qed

lemma onResult_frame:
  assumes "cache_inv (relay_cache s)" "wf_packet p" "wf_mac mac"
  obtains (Known) s' where "look now (relay_cache s) (hmac_sig p) \<noteq> None"
      "onResult s (Some (frame_bytes p)) mac now wifi j = Some (s', [StatusLine (Some StatusDrop), InCacheLine])"
      "s' = s\<lparr>relay_cache := note_sighting now (relay_cache s) (hmac_sig p) mac, cacheMacStatus := Some StatusDrop\<rparr>"
  | (Gateway) c2 st2 where "wifi" "look now (relay_cache s) (hmac_sig p) = None"
      "gateway_cache (note_sighting now (relay_cache s) (hmac_sig p) mac) (cacheMacStatus s) p now mac = Some (c2, st2)"
      "onResult s (Some (frame_bytes p)) mac now wifi j =
         Some (s\<lparr>relay_cache := c2, cacheMacStatus := st2\<rparr>, [StatusLine (cacheMacStatus s),
           UdpPacket (frame_bytes p), UdpPacket (frame_bytes p), UdpPacket (frame_bytes p), ExitLine])"
  | (Queue) q where "\<not> wifi" "look now (relay_cache s) (hmac_sig p) = None" "hop_packet p = Some q"
      "onResult s (Some (frame_bytes p)) mac now wifi j =
         Some (s\<lparr>relay_cache := fst (addToCache (note_sighting now (relay_cache s) (hmac_sig p) mac)
             (hmac_sig q) q now j mac)\<rparr>, [StatusLine (cacheMacStatus s), QueueLine j])"
  | (Spent) evs where "\<not> wifi" "look now (relay_cache s) (hmac_sig p) = None" "packet_ttl p \<le> 1"
      "onResult s (Some (frame_bytes p)) mac now wifi j =
         Some (s\<lparr>relay_cache := note_sighting now (relay_cache s) (hmac_sig p) mac\<rparr>, StatusLine (cacheMacStatus s) # evs)"
      "set evs \<subseteq> {TtlExpiredLine}"
proof -
  have inv: "cache_inv (relay_cache s)" and h: "wf_hash (hmac_sig p)"
    using assms(1,2) by simp_all
  let ?r = "checkCache (relay_cache s) (hmac_sig p) now mac (cacheMacStatus s)"
  obtain c1 st1 location where r: "?r = (c1, st1, location)" by (cases ?r)
  have c1: "c1 = note_sighting now (relay_cache s) (hmac_sig p) mac"
    using fst_checkCache [of "relay_cache s" "hmac_sig p" now mac "cacheMacStatus s"] r by simp
  have loc: "location \<noteq> -1 \<longleftrightarrow> look now (relay_cache s) (hmac_sig p) \<noteq> None"
    using checkCache_hit_iff [OF inv h, of now mac "cacheMacStatus s"] r by simp
  have st: "st1 = (if look now (relay_cache s) (hmac_sig p) = None then cacheMacStatus s else Some StatusDrop)"
    using cache_status_of [OF inv h, of now mac "cacheMacStatus s"] r by simp
  show thesis
  proof (cases "location = -1")
    case False
    with loc st r c1 assms(2) show thesis
      by (intro Known [OF _ _ refl]) (auto simp: onResult_def Let_def)
  next
    case True
    then have n: "look now (relay_cache s) (hmac_sig p) = None" using loc by auto
    with st have st1: "st1 = cacheMacStatus s" by simp
    have look1: "look now c1 (hmac_sig p) = None"
      using cache.known_touch [OF inv h assms(3), of now "hmac_sig p"] n c1 by simp
    have inv1: "cache_inv c1" using cache.inv_touch [OF inv h assms(3)] c1 by simp
    show thesis
    proof (cases wifi)
      case wf: True
      obtain c2 st2 where g: "gateway_cache c1 st1 p now mac = Some (c2, st2)"
        by (rule gateway_cache_spec [OF inv1 assms(2,3) look1, of st1]) blast
      show thesis
        by (rule Gateway [OF wf n]) (use g r True st1 c1 wf assms(2) in \<open>auto simp: onResult_def Let_def\<close>)
    next
      case nw: False
      show thesis
      proof (cases p rule: ttl_hop_cases)
        case (Forward q)
        show thesis
          by (rule Queue [OF nw n, of q])
            (use Forward r True nw st1 c1 assms(2) in \<open>auto simp: onResult_def hop_packet_def Let_def\<close>)
      next
        case Ignored
        show thesis
          by (rule Spent [OF nw n, of "[]"]) (use Ignored r True nw st1 c1 assms(2) in \<open>auto simp: onResult_def Let_def\<close>)
      next
        case Expired
        show thesis
          by (rule Spent [OF nw n, of "[TtlExpiredLine]"])
            (use Expired r True nw st1 c1 assms(2) in \<open>auto simp: onResult_def Let_def\<close>)
      qed
    qed
  qed
qed

section \<open>The scan of the main loop\<close>

definition due :: "u32 \<Rightarrow> cacheEntry \<Rightarrow> bool" where
  "due now e \<longleftrightarrow> waiting e \<and> broadcast_time e \<le> now"

definition starts :: "u32 \<Rightarrow> cacheEntry \<Rightarrow> bool" where
  "starts now e \<longleftrightarrow> due now e \<and> unat (rx_count e) < REDUNDANCY"

definition cancel :: "u32 \<Rightarrow> cacheEntry \<Rightarrow> cacheEntry" where
  "cancel now e = (if due now e then e\<lparr>broadcasted := True\<rparr> else e)"

definition cancelled :: "u32 \<Rightarrow> timeAwareCache \<Rightarrow> timeAwareCache \<Rightarrow> nat \<Rightarrow> nat \<Rightarrow> bool" where
  "cancelled now c c' i j \<longleftrightarrow> length (entries c') = length (entries c) \<and>
     (\<forall>k < CACHE_SIZE. entries c' ! k = (if i \<le> k \<and> k < j then cancel now (entries c ! k) else entries c ! k))"

definition burst :: "relay \<Rightarrow> u32 \<Rightarrow> cacheEntry \<Rightarrow> nat \<Rightarrow> relay" where
  "burst s now e i = s\<lparr>scanning := False, advData := frame_bytes (entry_packet e), led := True,
     advertising := True, isBroadcasting := True, broadcastEndTime := now + BROADCAST_BURST,
     currentBroadcastIndex := int i\<rparr>"

definition loop_result :: "u32 \<Rightarrow> relay \<Rightarrow> nat \<Rightarrow> relay \<times> relay_event list \<Rightarrow> bool" where
  "loop_result now s i r \<longleftrightarrow>
     (\<exists>j c'. i \<le> j \<and> j < CACHE_SIZE \<and> starts now (entries (relay_cache s) ! j) \<and>
        (\<forall>k. i \<le> k \<and> k < j \<longrightarrow> \<not> starts now (entries (relay_cache s) ! k)) \<and>
        cancelled now (relay_cache s) c' i j \<and>
        fst r = burst (s\<lparr>relay_cache := c'\<rparr>) now (entries (relay_cache s) ! j) j \<and>
        (\<forall>k. ForwardLine k \<in> set (snd r) \<longleftrightarrow> k = j)) \<or>
     (\<exists>c'. (\<forall>k. i \<le> k \<and> k < CACHE_SIZE \<longrightarrow> \<not> starts now (entries (relay_cache s) ! k)) \<and>
        cancelled now (relay_cache s) c' i CACHE_SIZE \<and>
        fst r = s\<lparr>relay_cache := c'\<rparr> \<and> (\<forall>k. ForwardLine k \<notin> set (snd r)))"

lemma due_cancel [simp]: "\<not> due now (cancel now e)"
  by (simp add: cancel_def due_def waiting_def)

lemma cancelled_step:
  assumes "cancelled now (c\<lparr>entries := (entries c)[i := cancel now (entries c ! i)]\<rparr>) c1 (Suc i) j"
    "i < j" "i < length (entries c)"
  shows "cancelled now c c1 i j"
  using assms by (auto simp: cancelled_def nth_list_update)

lemma loop_result_step:
  assumes "i < CACHE_SIZE" "length (entries (relay_cache s)) = CACHE_SIZE"
    "\<not> starts now (entries (relay_cache s) ! i)"
    "loop_result now (s\<lparr>relay_cache := (relay_cache s)\<lparr>entries := (entries (relay_cache s))
        [i := cancel now (entries (relay_cache s) ! i)]\<rparr>\<rparr>) (Suc i) r"
    "fst r' = fst r" "\<And>k. ForwardLine k \<in> set (snd r') \<longleftrightarrow> ForwardLine k \<in> set (snd r)"
  shows "loop_result now s i r'"
proof -
  let ?es = "entries (relay_cache s)"
  let ?c = "(relay_cache s)\<lparr>entries := ?es[i := cancel now (?es ! i)]\<rparr>"
  let ?s = "s\<lparr>relay_cache := ?c\<rparr>"
  have i: "i < length ?es" using assms by simp
  have st: "starts now (entries (relay_cache ?s) ! k) = starts now (?es ! k)" for k
    using i assms(3) by (cases "k = i") (simp_all add: starts_def)
  from assms(4) show ?thesis
    unfolding loop_result_def [of now ?s "Suc i" r] st
  proof (elim disjE exE conjE)
    fix j c'
    assume hit: "Suc i \<le> j" "j < CACHE_SIZE" "starts now (?es ! j)"
      "\<forall>k. Suc i \<le> k \<and> k < j \<longrightarrow> \<not> starts now (?es ! k)" "cancelled now (relay_cache ?s) c' (Suc i) j"
      "fst r = burst (?s\<lparr>relay_cache := c'\<rparr>) now (entries (relay_cache ?s) ! j) j"
      "\<forall>k. ForwardLine k \<in> set (snd r) \<longleftrightarrow> k = j"
    have "cancelled now (relay_cache s) c' i j"
      by (rule cancelled_step [OF _ _ i]) (use hit(1,5) in simp_all)
    moreover have "\<forall>k. i \<le> k \<and> k < j \<longrightarrow> \<not> starts now (?es ! k)"
      using hit(4) assms(3) by (metis le_split)
    moreover have "entries (relay_cache ?s) ! j = ?es ! j" using hit(1) by simp
    ultimately show ?thesis
      unfolding loop_result_def using hit(2,3,6,7) Suc_leD [OF hit(1)] assms(5,6)
      by (intro disjI1 exI [of _ j] exI [of _ c']) (simp add: burst_def)
  next
    fix c'
    assume miss: "\<forall>k. Suc i \<le> k \<and> k < CACHE_SIZE \<longrightarrow> \<not> starts now (?es ! k)"
      "cancelled now (relay_cache ?s) c' (Suc i) CACHE_SIZE" "fst r = ?s\<lparr>relay_cache := c'\<rparr>"
      "\<forall>k. ForwardLine k \<notin> set (snd r)"
    have "cancelled now (relay_cache s) c' i CACHE_SIZE"
      by (rule cancelled_step [OF _ _ i]) (use miss(2) assms(1) in simp_all)
    moreover have "\<forall>k. i \<le> k \<and> k < CACHE_SIZE \<longrightarrow> \<not> starts now (?es ! k)"
      using miss(1) assms(3) by (metis le_split)
    ultimately show ?thesis
      unfolding loop_result_def using miss(3,4) assms(5,6) by (intro disjI2 exI [of _ c']) simp
  qed
qed

lemma loop_from_spec:
  assumes "length (entries (relay_cache s)) = CACHE_SIZE" "i \<le> CACHE_SIZE"
  shows "loop_result now s i (loop_from s now i)"
  using assms
proof (induction s now i rule: loop_from.induct)
  case (1 s now i)
  let ?e = "entries (relay_cache s) ! i"
  show ?case
  proof (cases "i < CACHE_SIZE")
    case False
    then have "loop_from s now i = (s, [])" by (simp add: loop_from.simps [of s now i])
    with False show ?thesis by (auto simp: loop_result_def cancelled_def)
  next
    case True
    show ?thesis
    proof (cases "starts now ?e")
      case st: True
      then have "loop_from s now i = (burst s now ?e i, [StartLine, ForwardLine i])"
        using True by (simp add: loop_from.simps [of s now i] starts_def due_def waiting_def burst_def Let_def)
      moreover have "cancelled now (relay_cache s) (relay_cache s) i i" by (auto simp: cancelled_def)
      ultimately show ?thesis unfolding loop_result_def using st True
        by (intro disjI1 exI [of _ i] exI [of _ "relay_cache s"]) (auto simp: burst_def)
    next
      case ns: False
      note step = loop_result_step [OF True "1.prems"(1) ns]
      show ?thesis
      proof (cases "due now ?e")
        case due: True
        let ?s = "s\<lparr>relay_cache := (relay_cache s)\<lparr>entries := (entries (relay_cache s))[i := ?e\<lparr>broadcasted := True\<rparr>]\<rparr>\<rparr>"
        have c: "cancel now ?e = ?e\<lparr>broadcasted := True\<rparr>" using due by (simp add: cancel_def)
        from due ns have g: "active ?e \<and> \<not> broadcasted ?e" "broadcast_time ?e \<le> now" "\<not> unat (rx_count ?e) < REDUNDANCY"
          by (simp_all add: due_def waiting_def starts_def)
        have l: "loop_from s now i = (fst (loop_from ?s now (Suc i)), CancelLine i # snd (loop_from ?s now (Suc i)))"
          using True g by (simp add: loop_from.simps [of s now i] Let_def split_beta)
        have IH: "loop_result now ?s (Suc i) (loop_from ?s now (Suc i))"
          by (rule "1.IH"(1) [OF True refl g]) (use "1.prems" True in simp_all)
        show ?thesis
          by (rule step [where r = "loop_from ?s now (Suc i)"]) (use IH in \<open>simp_all only: c l fst_conv snd_conv\<close>, simp)
      next
        case nd: False
        have c: "cancel now ?e = ?e" using nd by (simp add: cancel_def)
        have l: "loop_from s now i = loop_from s now (Suc i)"
          using True nd by (auto simp: loop_from.simps [of s now i] due_def waiting_def Let_def)
        have IH: "loop_result now s (Suc i) (loop_from s now (Suc i))"
        proof (cases "active ?e \<and> \<not> broadcasted ?e")
          case a: True
          with nd have "\<not> broadcast_time ?e \<le> now" by (simp add: due_def waiting_def)
          from "1.IH"(2) [OF True refl a this] "1.prems" True show ?thesis by simp
        next
          case na: False
          from "1.IH"(3) [OF True refl na] "1.prems" True show ?thesis by simp
        qed
        show ?thesis
          by (rule step [where r = "loop_from s now (Suc i)"]) (use IH l in \<open>simp_all add: c\<close>)
      qed
    qed
  qed
qed

section \<open>Steps keep the invariant\<close>

lemma cancel_fields [simp]:
  "entry_hmac (cancel now e) = entry_hmac e" "active (cancel now e) = active e"
  "entry_packet (cancel now e) = entry_packet e" "wf_entry (cancel now e) = wf_entry e"
  by (simp_all add: cancel_def wf_entry_def heard_def)

lemma waiting_cancel: "waiting (cancel now e) \<longleftrightarrow> waiting e \<and> \<not> due now e"
  by (auto simp: cancel_def waiting_def)

lemma cancelled_inv:
  assumes "cache_inv c" "cancelled now c c' i j"
  shows "cache_inv c' \<and> no_new_waiting c c'"
proof -
  have wf: "wf_cache c" and len: "length (entries c) = CACHE_SIZE"
    using assms(1) by (simp_all add: cache_inv_def wf_cache_def)
  have "wf_cache c'"
    by (rule wf_cacheI) (use assms(2) len wf_cache_nth [OF wf] in \<open>auto simp: cancelled_def\<close>)
  moreover have "unique_hashes c'"
    by (rule unique_hashes_mono [of c])
      (use assms in \<open>auto simp: cache_inv_def cancelled_def split: if_splits\<close>)
  moreover have "no_new_waiting c c'"
    using assms(2) by (auto simp: no_new_waiting_def cancelled_def waiting_cancel)
  ultimately show ?thesis by (simp add: cache_inv_def)
qed

lemma relay_init_inv: "relay_inv H relay_init"
proof -
  have "\<not> waiting (entries zero_cache ! k)" if "k < CACHE_SIZE" for k
    using that by (simp add: zero_cache_def zero_entry_def waiting_def)
  then show ?thesis
    by (simp add: relay_inv_def relay_init_def zero_cache_inv queue_ok_def radio_ok_def)
qed

lemma relay_inv_mono: "relay_inv H s \<Longrightarrow> H \<subseteq> H' \<Longrightarrow> relay_inv H' s"
  unfolding relay_inv_def queue_ok_def radio_ok_def by blast

lemma radio_ok_cache: "radio_ok H (s\<lparr>relay_cache := c\<rparr>) = radio_ok H s"
  "radio_ok H (s\<lparr>relay_cache := c, cacheMacStatus := st\<rparr>) = radio_ok H s"
  by (simp_all add: radio_ok_def)

lemma relay_inv_new_cache:
  "relay_inv H s \<Longrightarrow> cache_inv c \<Longrightarrow> no_new_waiting (relay_cache s) c \<Longrightarrow>
     relay_inv H (s\<lparr>relay_cache := c\<rparr>) \<and> relay_inv H (s\<lparr>relay_cache := c, cacheMacStatus := st\<rparr>)"
  by (auto simp: relay_inv_def radio_ok_cache intro: queue_ok_no_new)

lemma hop_wf: "hop_packet p = Some q \<Longrightarrow> wf_packet p \<Longrightarrow> wf_packet q \<and> hmac_sig q = hmac_sig p"
  using hop_packet_Some by blast

text \<open>The scan callback: it never writes outside the cache, and it queues only what the hop rule made.\<close>

lemma onResult_inv:
  assumes "relay_inv H s" "wf_mac mac"
  obtains s' evs where "onResult s mfr mac now wifi j = Some (s', evs)"
    "relay_inv (H \<union> {q. \<exists>p. wf_packet p \<and> mfr = Some (frame_bytes p) \<and> hop_packet p = Some q}) s'"
proof (cases "\<exists>raw. mfr = Some raw \<and> length raw = 2 + PACKET_SIZE \<and> received_cid raw = TARGET_CID")
  case False
  then have "onResult s mfr mac now wifi j = Some (s, [])"
    by (intro onResult_other) (cases mfr, auto)
  with relay_inv_mono [OF assms(1)] that show thesis by blast
next
  case True
  then obtain p where p: "wf_packet p" "mfr = Some (frame_bytes p)" by (metis frame_cases)
  let ?H = "H \<union> {q. \<exists>p. wf_packet p \<and> mfr = Some (frame_bytes p) \<and> hop_packet p = Some q}"
  have invH: "relay_inv ?H s" using assms(1) by (rule relay_inv_mono) simp
  have inv: "cache_inv (relay_cache s)" using assms(1) by (simp add: relay_inv_def)
  let ?c1 = "note_sighting now (relay_cache s) (hmac_sig p) mac"
  have h: "wf_hash (hmac_sig p)" using p(1) by simp
  have inv1: "cache_inv ?c1" using cache.inv_touch [OF inv h assms(2)] .
  have nn1: "no_new_waiting (relay_cache s) ?c1"
    using checkCache_no_new [OF _ h, of "relay_cache s" now mac None] inv
    by (simp add: note_sighting_def cache_inv_def)
  note upd = relay_inv_new_cache [OF invH inv1 nn1]
  have look1: "look now (relay_cache s) (hmac_sig p) = None \<Longrightarrow> look now ?c1 (hmac_sig p) = None"
    using cache.known_touch [OF inv h assms(2), of now "hmac_sig p"] by simp
  show thesis
    using inv p(1) assms(2)
  proof (rule onResult_frame [where now = now and wifi = wifi and j = j])
    fix s'
    assume "onResult s (Some (frame_bytes p)) mac now wifi j = Some (s', [StatusLine (Some StatusDrop), InCacheLine])"
      "s' = s\<lparr>relay_cache := ?c1, cacheMacStatus := Some StatusDrop\<rparr>"
    with upd p(2) show thesis by (intro that) auto
  next
    fix c2 st2
    assume g: "look now (relay_cache s) (hmac_sig p) = None"
      "gateway_cache ?c1 (cacheMacStatus s) p now mac = Some (c2, st2)"
      "onResult s (Some (frame_bytes p)) mac now wifi j =
         Some (s\<lparr>relay_cache := c2, cacheMacStatus := st2\<rparr>, [StatusLine (cacheMacStatus s),
           UdpPacket (frame_bytes p), UdpPacket (frame_bytes p), UdpPacket (frame_bytes p), ExitLine])"
    have "cache_inv c2 \<and> no_new_waiting ?c1 c2"
      by (rule gateway_cache_spec [OF inv1 p(1) assms(2) look1 [OF g(1)], of "cacheMacStatus s"]) (use g(2) in auto)
    with relay_inv_new_cache [OF invH, of c2 st2] no_new_trans [OF nn1] g(3) p(2) show thesis
      by (intro that) auto
  next
    fix q
    assume q: "look now (relay_cache s) (hmac_sig p) = None" "hop_packet p = Some q"
      "onResult s (Some (frame_bytes p)) mac now wifi j =
         Some (s\<lparr>relay_cache := fst (addToCache ?c1 (hmac_sig q) q now j mac)\<rparr>, [StatusLine (cacheMacStatus s), QueueLine j])"
    have wq: "wf_packet q" "hmac_sig q = hmac_sig p" using hop_wf [OF q(2) p(1)] by simp_all
    have lq: "look now ?c1 (hmac_sig q) = None" using look1 [OF q(1)] wq(2) by simp
    have "q \<in> ?H" using q(2) p by auto
    moreover have "queue_ok ?H ?c1" using upd by (simp add: relay_inv_def)
    ultimately have "queue_ok ?H (fst (addToCache ?c1 (hmac_sig q) q now j mac))"
      using inv1 wq(1) assms(2) lq by (intro addToCache_queue_ok)
    moreover have "cache_inv (fst (addToCache ?c1 (hmac_sig q) q now j mac))"
      using inv1 wq(1) assms(2) lq by (rule addToCache_inv_look)
    ultimately have "relay_inv ?H (s\<lparr>relay_cache := fst (addToCache ?c1 (hmac_sig q) q now j mac)\<rparr>)"
      using invH by (simp add: relay_inv_def radio_ok_cache)
    with q(3) p(2) show thesis by (intro that) auto
  next
    fix evs
    assume "onResult s (Some (frame_bytes p)) mac now wifi j =
         Some (s\<lparr>relay_cache := ?c1\<rparr>, StatusLine (cacheMacStatus s) # evs)"
    with upd p(2) show thesis by (intro that) auto
  qed
qed

text \<open>The main loop, branch by branch.\<close>

lemma relay_loop_cases:
  assumes "relay_inv H s"
  obtains (Busy) "isBroadcasting s" "now < broadcastEndTime s" "relay_loop s now = Some (s, [])"
  | (Done) c where "isBroadcasting s" "broadcastEndTime s \<le> now"
      "relay_loop s now = Some (s\<lparr>advertising := False, led := False, scanning := True, isBroadcasting := False,
         relay_cache := c\<rparr>, [CompletedLine])"
      "cache_inv c" "no_new_waiting (relay_cache s) c"
      "\<not> waiting (entries c ! nat (currentBroadcastIndex s))"
  | (Start) i c evs where "\<not> isBroadcasting s" "i < CACHE_SIZE" "starts now (entries (relay_cache s) ! i)"
      "\<forall>k < i. \<not> starts now (entries (relay_cache s) ! k)"
      "relay_loop s now = Some (burst (s\<lparr>relay_cache := c\<rparr>) now (entries (relay_cache s) ! i) i, evs)"
      "cache_inv c" "no_new_waiting (relay_cache s) c" "\<forall>k. ForwardLine k \<in> set evs \<longleftrightarrow> k = i"
  | (Idle) c evs where "\<not> isBroadcasting s" "\<forall>k < CACHE_SIZE. \<not> starts now (entries (relay_cache s) ! k)"
      "relay_loop s now = Some (s\<lparr>relay_cache := c\<rparr>, evs)"
      "cache_inv c" "no_new_waiting (relay_cache s) c" "\<forall>k < CACHE_SIZE. \<not> due now (entries c ! k)"
      "\<forall>k. ForwardLine k \<notin> set evs"
proof -
  have inv: "cache_inv (relay_cache s)" using assms by (simp add: relay_inv_def)
  show thesis
  proof (cases "isBroadcasting s")
    case True
    show thesis
    proof (cases "broadcastEndTime s \<le> now")
      case False
      with True show thesis by (intro Busy) (simp_all add: relay_loop_def)
    next
      case end_: True
      have "0 \<le> currentBroadcastIndex s" "currentBroadcastIndex s < int CACHE_SIZE"
        using assms True by (simp_all add: relay_inv_def radio_ok_def)
      from mark_broadcasted_spec [OF inv this] obtain c where
        "mark_broadcasted (relay_cache s) (currentBroadcastIndex s) = Some c" "cache_inv c"
        "no_new_waiting (relay_cache s) c" "\<not> waiting (entries c ! nat (currentBroadcastIndex s))" by blast
      with True end_ show thesis by (intro Done [of c]) (simp_all add: relay_loop_def)
    qed
  next
    case False
    have len: "length (entries (relay_cache s)) = CACHE_SIZE"
      using inv by (simp add: cache_inv_def wf_cache_def)
    obtain s2 evs where l: "loop_from s now 0 = (s2, evs)" by (cases "loop_from s now 0")
    have loop: "relay_loop s now = Some (s2, evs)" using False l by (simp add: relay_loop_def)
    from loop_from_spec [OF len, of 0 now] l have "loop_result now s 0 (s2, evs)" by simp
    then consider
      (hit) i c where "i < CACHE_SIZE" "starts now (entries (relay_cache s) ! i)"
        "\<forall>k < i. \<not> starts now (entries (relay_cache s) ! k)" "cancelled now (relay_cache s) c 0 i"
        "s2 = burst (s\<lparr>relay_cache := c\<rparr>) now (entries (relay_cache s) ! i) i"
        "\<forall>k. ForwardLine k \<in> set evs \<longleftrightarrow> k = i"
    | (miss) c where "\<forall>k < CACHE_SIZE. \<not> starts now (entries (relay_cache s) ! k)"
        "cancelled now (relay_cache s) c 0 CACHE_SIZE" "s2 = s\<lparr>relay_cache := c\<rparr>"
        "\<forall>k. ForwardLine k \<notin> set evs"
      unfolding loop_result_def by auto
    then show thesis
    proof cases
      case (hit i c)
      with cancelled_inv [OF inv hit(4)] loop False show thesis by (intro Start [of i c evs]) auto
    next
      case (miss c)
      have "\<forall>k < CACHE_SIZE. \<not> due now (entries c ! k)" using miss(2) by (simp add: cancelled_def)
      with miss cancelled_inv [OF inv miss(2)] loop False show thesis by (intro Idle [of c evs]) auto
    qed
  qed
qed

lemma relay_loop_inv:
  assumes "relay_inv H s"
  obtains s' evs where "relay_loop s now = Some (s', evs)" "relay_inv H s'"
  using assms
proof (rule relay_loop_cases [where now = now])
  assume "relay_loop s now = Some (s, [])"
  with assms that show thesis by blast
next
  fix c assume c: "relay_loop s now = Some (s\<lparr>advertising := False, led := False, scanning := True,
      isBroadcasting := False, relay_cache := c\<rparr>, [CompletedLine])" "cache_inv c" "no_new_waiting (relay_cache s) c"
  with assms that queue_ok_no_new show thesis by (auto simp: relay_inv_def radio_ok_def)
next
  fix i c evs
  assume c: "i < CACHE_SIZE" "starts now (entries (relay_cache s) ! i)"
    "relay_loop s now = Some (burst (s\<lparr>relay_cache := c\<rparr>) now (entries (relay_cache s) ! i) i, evs)"
    "cache_inv c" "no_new_waiting (relay_cache s) c"
  have "entry_packet (entries (relay_cache s) ! i) \<in> H"
    using assms c(1,2) by (auto simp: relay_inv_def queue_ok_def starts_def due_def)
  then have "radio_ok H (burst (s\<lparr>relay_cache := c\<rparr>) now (entries (relay_cache s) ! i) i)"
    using c(1) by (auto simp: radio_ok_def burst_def)
  with assms c that queue_ok_no_new show thesis by (auto simp: relay_inv_def burst_def)
next
  fix c evs
  assume "relay_loop s now = Some (s\<lparr>relay_cache := c\<rparr>, evs)" "cache_inv c" "no_new_waiting (relay_cache s) c"
  with relay_inv_new_cache [OF assms] that show thesis by blast
qed

text \<open>The packets the hop rule made of the frames received in a run.\<close>

definition hopped :: "relay_input list \<Rightarrow> emergencyPacket set" where
  "hopped xs = {q. \<exists>p mac now wifi j. wf_packet p \<and> Advert (Some (frame_bytes p)) mac now wifi j \<in> set xs \<and>
     hop_packet p = Some q}"

lemma relay_run_inv: "relay_run xs s \<Longrightarrow> relay_inv (hopped xs) s"
proof (induction rule: relay_run.induct)
  case start
  show ?case by (rule relay_init_inv)
next
  case (step xs s x evs s')
  show ?case
  proof (cases x)
    case (Advert mfr mac now wifi j)
    with step.hyps(2) have r: "onResult s mfr mac now wifi j = Some (s', evs)" "wf_mac mac" by auto
    let ?N = "{q. \<exists>p. wf_packet p \<and> mfr = Some (frame_bytes p) \<and> hop_packet p = Some q}"
    have "relay_inv (hopped xs \<union> ?N) s'"
      by (rule onResult_inv [OF step.IH r(2), of mfr now wifi j]) (use r(1) in simp)
    moreover have "hopped xs \<union> ?N \<subseteq> hopped (xs @ [x])"
      using Advert by (fastforce simp: hopped_def)
    ultimately show ?thesis by (rule relay_inv_mono)
  next
    case (Tick now)
    with step.hyps(2) have r: "relay_loop s now = Some (s', evs)" by auto
    have "relay_inv (hopped xs) s'"
      by (rule relay_loop_inv [OF step.IH, of now]) (use r in simp)
    moreover have "hopped xs \<subseteq> hopped (xs @ [x])" by (fastforce simp: hopped_def)
    ultimately show ?thesis by (rule relay_inv_mono)
  qed
qed

lemma onResult_gateway:
  assumes "cache_inv (relay_cache s)" "wf_packet p" "wf_mac mac"
    "look now (relay_cache s) (hmac_sig p) = None"
  obtains c2 st2 where "onResult s (Some (frame_bytes p)) mac now True j =
      Some (s\<lparr>relay_cache := c2, cacheMacStatus := st2\<rparr>, [StatusLine (cacheMacStatus s),
        UdpPacket (frame_bytes p), UdpPacket (frame_bytes p), UdpPacket (frame_bytes p), ExitLine])"
    "no_new_waiting (relay_cache s) c2"
    "\<And>k. k < CACHE_SIZE \<Longrightarrow> waiting (entries c2 ! k) \<Longrightarrow> entry_hmac (entries c2 ! k) \<noteq> hmac_sig p"
proof -
  have h: "wf_hash (hmac_sig p)" using assms(2) by simp
  let ?c1 = "note_sighting now (relay_cache s) (hmac_sig p) mac"
  have inv1: "cache_inv ?c1" using cache.inv_touch [OF assms(1) h assms(3)] .
  have look1: "look now ?c1 (hmac_sig p) = None"
    using cache.known_touch [OF assms(1) h assms(3), of now "hmac_sig p"] assms(4) by simp
  have nn1: "no_new_waiting (relay_cache s) ?c1"
    using checkCache_no_new [OF _ h, of "relay_cache s" now mac None] assms(1)
    by (simp add: note_sighting_def cache_inv_def)
  obtain c2 st2 where g: "gateway_cache ?c1 (cacheMacStatus s) p now mac = Some (c2, st2)" "no_new_waiting ?c1 c2"
    "\<And>k. k < CACHE_SIZE \<Longrightarrow> waiting (entries c2 ! k) \<Longrightarrow> entry_hmac (entries c2 ! k) \<noteq> hmac_sig p"
    by (rule gateway_cache_spec [OF inv1 assms(2,3) look1, of "cacheMacStatus s"]) blast
  have "onResult s (Some (frame_bytes p)) mac now True j =
         Some (s\<lparr>relay_cache := c2, cacheMacStatus := st2\<rparr>, [StatusLine (cacheMacStatus s),
           UdpPacket (frame_bytes p), UdpPacket (frame_bytes p), UdpPacket (frame_bytes p), ExitLine])"
    by (rule onResult_frame [OF assms(1-3), where now = now and wifi = True and j = j]) (use assms(4) g(1) in auto)
  then show thesis using no_new_trans [OF nn1 g(2)] g(3) by (rule that)
qed

lemma onResult_queues:
  assumes "cache_inv (relay_cache s)" "wf_packet p" "wf_mac mac"
    "look now (relay_cache s) (hmac_sig p) = None" "1 < packet_ttl p"
  shows "\<exists>s' e. onResult s (Some (frame_bytes p)) mac now False j =
      Some (s', [StatusLine (cacheMacStatus s), QueueLine j]) \<and>
    (\<forall>t. look t (relay_cache s') (hmac_sig p) = (if t < now + CACHE_TTL_MS then Some e else None)) \<and>
    packet_ttl (entry_packet e) = packet_ttl p - 1 \<and> packet_core (entry_packet e) = packet_core p \<and>
    broadcast_time e = now + j \<and> \<not> broadcasted e \<and> heard e = [mac]"
proof -
  obtain q where q: "hop_packet p = Some q" using assms(5) hop_packet_None [of p] by auto
  have wq: "wf_packet q" "hmac_sig q = hmac_sig p" using hop_wf [OF q assms(2)] by simp_all
  have h: "wf_hash (hmac_sig p)" using assms(2) by simp
  let ?c1 = "note_sighting now (relay_cache s) (hmac_sig p) mac"
  have inv1: "cache_inv ?c1" using cache.inv_touch [OF assms(1) h assms(3)] .
  have look1: "look now ?c1 (hmac_sig p) = None"
    using cache.known_touch [OF assms(1) h assms(3), of now "hmac_sig p"] assms(4) by simp
  have r: "onResult s (Some (frame_bytes p)) mac now False j =
      Some (s\<lparr>relay_cache := fst (addToCache ?c1 (hmac_sig q) q now j mac)\<rparr>, [StatusLine (cacheMacStatus s), QueueLine j])"
    by (rule onResult_frame [OF assms(1-3), where now = now and wifi = False and j = j]) (use assms(4,5) q in auto)
  from addToCache_look [OF inv1 h wq(1) assms(3) look1, of j] obtain e where e: "entry_packet e = q"
    "broadcast_time e = now + j" "heard e = [mac]" "\<not> broadcasted e"
    "\<forall>t. look t (fst (addToCache ?c1 (hmac_sig p) q now j mac)) (hmac_sig p) = (if t < now + CACHE_TTL_MS then Some e else None)"
    by blast
  have "packet_ttl q = packet_ttl p - 1" "packet_core q = packet_core p"
    using hop_packet_Some [OF q] by simp_all linarith
  with r e wq(2) show ?thesis by (intro exI [of _ e] exI) (intro conjI, rule r, simp_all)
qed

section \<open>Properties\<close>

text \<open>
  A relay never makes up or alters a packet: in every state it can reach, while it
  advertises, the frame on air is the two company bytes and a packet that the hop rule made of a
  frame it received, so its TTL is between 1 and 30, one less than received, all other fields
  are as received, and the scan is off.
\<close>

theorem relay_advertises_only_hopped:
  assumes "relay_run xs s" "advertising s"
  shows "\<not> scanning s \<and> (\<exists>p q mac now wifi j. Advert (Some (frame_bytes p)) mac now wifi j \<in> set xs \<and>
    wf_packet p \<and> advData s = [0xFF, 0xFF] @ packet_bytes q \<and> packet_core q = packet_core p \<and>
    Suc (packet_ttl q) = packet_ttl p \<and> 0 < packet_ttl q \<and> packet_ttl q \<le> 30)"
proof -
  from relay_run_inv [OF assms(1)] assms(2) obtain q where q: "q \<in> hopped xs" "advData s = frame_bytes q" "\<not> scanning s"
    by (auto simp: relay_inv_def radio_ok_def)
  from q(1) obtain p mac now wifi j where p: "wf_packet p" "Advert (Some (frame_bytes p)) mac now wifi j \<in> set xs"
    "hop_packet p = Some q" by (auto simp: hopped_def)
  from hop_packet_Some [OF p(3)] packet_ttl_bound [of p] have "packet_ttl q \<le> 30" by linarith
  moreover have "advData s = [0xFF, 0xFF] @ packet_bytes q" using q(2) by (simp only: frame_bytes_eq)
  ultimately show ?thesis using hop_packet_Some [OF p(3)] p(1,2) q(3) by blast
qed

text \<open>
  No step writes outside the cache: in every reachable state the scan callback and
  the main loop both return.
\<close>

theorem relay_writes_in_range:
  assumes "relay_run xs s" "wf_mac mac"
  shows "onResult s mfr mac now wifi j \<noteq> None \<and> relay_loop s now \<noteq> None"
proof
  note inv = relay_run_inv [OF assms(1)]
  show "onResult s mfr mac now wifi j \<noteq> None"
    by (rule onResult_inv [OF inv assms(2), of mfr now wifi j]) simp
  show "relay_loop s now \<noteq> None"
    by (rule relay_loop_inv [OF inv, of now]) simp
qed

theorem relay_writes_in_range_witness:
  "onResult relay_init (Some (frame_bytes sample_packet)) sample_mac 7 True 60 \<noteq> None \<and> relay_loop relay_init 7 \<noteq> None"
  by (rule relay_writes_in_range [OF relay_run.start]) simp

text \<open>
  A frame with an unknown signature and a TTL above one, received without Wi-Fi,
  is queued: the cache then knows its signature for 2000 ms, under an entry that holds the
  packet with its TTL decremented, may be sent from \<open>now + jitter\<close> on and has one sender.
\<close>

theorem relay_queues_new:
  assumes "cache_inv (relay_cache s)" "wf_packet p" "wf_mac mac"
    "look now (relay_cache s) (hmac_sig p) = None" "1 < packet_ttl p"
  shows "\<exists>s' e. onResult s (Some (frame_bytes p)) mac now False j =
      Some (s', [StatusLine (cacheMacStatus s), QueueLine j]) \<and>
    (\<forall>t. look t (relay_cache s') (hmac_sig p) = (if t < now + CACHE_TTL_MS then Some e else None)) \<and>
    packet_ttl (entry_packet e) = packet_ttl p - 1 \<and> packet_core (entry_packet e) = packet_core p \<and>
    broadcast_time e = now + j \<and> \<not> broadcasted e \<and> heard e = [mac]"
  using assms by (rule onResult_queues)

theorem relay_queues_new_witness:
  "\<exists>s' e. onResult relay_init (Some (frame_bytes sample_packet)) sample_mac 1000 False 60 =
      Some (s', [StatusLine None, QueueLine 60]) \<and>
    look 2999 (relay_cache s') (hmac_sig sample_packet) = Some e \<and> look 3000 (relay_cache s') (hmac_sig sample_packet) = None \<and>
    packet_ttl (entry_packet e) = 19 \<and> broadcast_time e = 1060"
proof -
  have c: "cache_inv (relay_cache relay_init)" "look 1000 (relay_cache relay_init) (hmac_sig sample_packet) = None"
    by (simp_all add: relay_init_def zero_cache_inv)
  from relay_queues_new [OF c(1) wf_sample_packet sample_shapes(1) c(2), of 60] show ?thesis
    by (auto simp: relay_init_def CACHE_TTL_MS_def)
qed

text \<open>
  Property C17. A frame with an unknown signature, received while Wi-Fi is connected, leaves as
  three UDP packets with exactly the received bytes, whatever its TTL, and nothing is queued for
  broadcast under its signature: a connected gateway does not relay.
\<close>

theorem relay_gateway_forwards:
  assumes "cache_inv (relay_cache s)" "wf_packet p" "wf_mac mac"
    "look now (relay_cache s) (hmac_sig p) = None"
  shows "\<exists>s'. onResult s (Some (frame_bytes p)) mac now True j =
      Some (s', [StatusLine (cacheMacStatus s), UdpPacket (frame_bytes p), UdpPacket (frame_bytes p),
                 UdpPacket (frame_bytes p), ExitLine]) \<and>
    (\<forall>k < CACHE_SIZE. waiting (entries (relay_cache s') ! k) \<longrightarrow>
       entry_hmac (entries (relay_cache s') ! k) \<noteq> hmac_sig p \<and> waiting (entries (relay_cache s) ! k))"
  by (rule onResult_gateway [OF assms, of j]) (auto simp: no_new_waiting_def)

theorem relay_gateway_forwards_witness:
  "\<exists>s'. onResult relay_init (Some (frame_bytes sample_packet)) sample_mac 1000 True 60 =
      Some (s', [StatusLine None, UdpPacket (frame_bytes sample_packet), UdpPacket (frame_bytes sample_packet),
                 UdpPacket (frame_bytes sample_packet), ExitLine])"
proof -
  have c: "cache_inv (relay_cache relay_init)" "look 1000 (relay_cache relay_init) (hmac_sig sample_packet) = None"
    by (simp_all add: relay_init_def zero_cache_inv)
  from relay_gateway_forwards [OF c(1) wf_sample_packet sample_shapes(1) c(2), of 60] show ?thesis
    by (auto simp: relay_init_def)
qed

text \<open>
  While a signature is known, a frame that carries it is neither queued nor sent
  over UDP, on a gateway and on a relay alike: its entry only notes the sender, and every other
  signature stays known exactly as it was.
\<close>

theorem relay_drops_known:
  assumes "cache_inv (relay_cache s)" "wf_packet p" "wf_mac mac"
    "look now (relay_cache s) (hmac_sig p) = Some e"
  shows "\<exists>s'. onResult s (Some (frame_bytes p)) mac now wifi j = Some (s', [StatusLine (Some StatusDrop), InCacheLine]) \<and>
    look now (relay_cache s') (hmac_sig p) = Some (hear_mac e mac) \<and>
    (\<forall>g. g \<noteq> hmac_sig p \<longrightarrow> look now (relay_cache s') g = look now (relay_cache s) g) \<and>
    isBroadcasting s' = isBroadcasting s \<and> advData s' = advData s"
proof -
  have h: "wf_hash (hmac_sig p)" using assms(2) by simp
  have "onResult s (Some (frame_bytes p)) mac now wifi j =
      Some (s\<lparr>relay_cache := note_sighting now (relay_cache s) (hmac_sig p) mac, cacheMacStatus := Some StatusDrop\<rparr>,
            [StatusLine (Some StatusDrop), InCacheLine])"
    by (rule onResult_frame [OF assms(1-3), where now = now and wifi = wifi and j = j]) (use assms(4) in auto)
  with cache.known_touch [OF assms(1) h assms(3)] assms(4) show ?thesis by simp
qed

text \<open>A concrete run: one frame is heard and queued, and sent when its jitter has passed.\<close>

lemma starts_of_look:
  assumes "cache_inv c" "look t c h = Some e" "\<not> broadcasted e" "length (heard e) < REDUNDANCY" "broadcast_time e \<le> now"
  obtains k where "k < CACHE_SIZE" "entries c ! k = e" "starts now (entries c ! k)"
proof -
  from assms(2) obtain k where k: "k < CACHE_SIZE" "entries c ! k = e" "active e"
    by (auto simp: look_Some_iff [OF assms(1)] known_as_def live_def)
  have "wf_entry e" using look_wf [OF assms(1,2)] by simp
  with k assms show thesis by (intro that [of k]) (auto simp: starts_def due_def waiting_def length_heard)
qed

lemma sample_run:
  obtains s where "relay_run [Advert (Some (frame_bytes sample_packet)) sample_mac 1000 False 60, Tick 1060] s"
    "advertising s"
proof -
  have c: "cache_inv (relay_cache relay_init)" "look 1000 (relay_cache relay_init) (hmac_sig sample_packet) = None"
    by (simp_all add: relay_init_def zero_cache_inv)
  have t: "1 < packet_ttl sample_packet" by simp
  from onResult_queues [OF c(1) wf_sample_packet sample_shapes(1) c(2) t, of 60] obtain s1 e evs where
    r: "onResult relay_init (Some (frame_bytes sample_packet)) sample_mac 1000 False 60 = Some (s1, evs)"
    and l: "\<forall>t. look t (relay_cache s1) (hmac_sig sample_packet) = (if t < 1000 + CACHE_TTL_MS then Some e else None)"
    and e: "broadcast_time e = 1060" "\<not> broadcasted e" "heard e = [sample_mac]" by auto
  have "relay_step relay_init (Advert (Some (frame_bytes sample_packet)) sample_mac 1000 False 60) evs s1"
    using r by (rule relay_step.advert) (simp_all add: jitter_ok_def)
  from relay_run.step [OF relay_run.start this]
  have run1: "relay_run [Advert (Some (frame_bytes sample_packet)) sample_mac 1000 False 60] s1" by simp
  have inv: "relay_inv (hopped [Advert (Some (frame_bytes sample_packet)) sample_mac 1000 False 60]) s1"
    using run1 by (rule relay_run_inv)
  have i1: "cache_inv (relay_cache s1)" using inv by (simp add: relay_inv_def)
  have l1: "look 1060 (relay_cache s1) (hmac_sig sample_packet) = Some e" using l by (simp add: CACHE_TTL_MS_def)
  have b: "length (heard e) < REDUNDANCY" "broadcast_time e \<le> 1060" using e by (simp_all add: REDUNDANCY_def)
  obtain k where k: "k < CACHE_SIZE" "starts 1060 (entries (relay_cache s1) ! k)"
    by (rule starts_of_look [OF i1 l1 e(2) b])
  have nb: "\<not> isBroadcasting s1"
    by (rule onResult_frame [OF c(1) wf_sample_packet sample_shapes(1), where now = 1000 and wifi = False and j = 60])
      (use r in \<open>auto simp: relay_init_def\<close>)
  obtain s2 evs2 where s2: "relay_loop s1 1060 = Some (s2, evs2)" "advertising s2"
    by (rule relay_loop_cases [OF inv, of 1060]) (use nb k in \<open>auto simp: burst_def\<close>)
  have "relay_run ([Advert (Some (frame_bytes sample_packet)) sample_mac 1000 False 60] @ [Tick 1060]) s2"
    using run1 relay_step.tick [OF s2(1)] by (rule relay_run.step)
  with s2(2) that show thesis by simp
qed

theorem relay_advertises_only_hopped_witness:
  "\<exists>s q. relay_run [Advert (Some (frame_bytes sample_packet)) sample_mac 1000 False 60, Tick 1060] s \<and>
     \<not> scanning s \<and> advData s = [0xFF, 0xFF] @ packet_bytes q \<and> packet_ttl q \<le> 30"
proof -
  obtain s where s: "relay_run [Advert (Some (frame_bytes sample_packet)) sample_mac 1000 False 60, Tick 1060] s"
    "advertising s" by (rule sample_run)
  from relay_advertises_only_hopped [OF s] s(1) show ?thesis by blast
qed

theorem relay_drops_known_witness:
  "\<exists>s e s'. look 1100 (relay_cache s) (hmac_sig sample_packet) = Some e \<and>
     onResult s (Some (frame_bytes sample_packet)) [1, 2, 3, 4, 5, 6] 1100 True 60 =
       Some (s', [StatusLine (Some StatusDrop), InCacheLine])"
proof -
  let ?c = "fst (addToCache zero_cache (hmac_sig sample_packet) sample_packet 1000 60 sample_mac)"
  let ?s = "relay_init\<lparr>relay_cache := ?c\<rparr>"
  have inv: "cache_inv (relay_cache ?s)"
    using addToCache_inv_look [OF zero_cache_inv wf_sample_packet sample_shapes(1) look_zero_cache] by simp
  have m: "wf_mac [1, 2, 3, 4, 5, 6]" by (simp add: wf_mac_def MAC_LEN_def)
  from addToCache_look [OF zero_cache_inv sample_shapes(2) wf_sample_packet sample_shapes(1) look_zero_cache, of 1000 60]
  obtain e where e: "look 1100 (relay_cache ?s) (hmac_sig sample_packet) = Some e" by (auto simp: CACHE_TTL_MS_def)
  from relay_drops_known [OF inv wf_sample_packet m e, of True 60] e show ?thesis by blast
qed

text \<open>
  When no burst is running, a pass of the main loop starts one exactly if some
  entry waits, has reached its send time and was heard from fewer than four senders; it takes
  the first such entry of the table, puts its packet on air and stops the scan for 500 ms.
\<close>

theorem relay_loop_starts_first_due:
  assumes "relay_inv H s" "\<not> isBroadcasting s" "relay_loop s now = Some (s', evs)"
  shows "(isBroadcasting s' \<longleftrightarrow> (\<exists>k < CACHE_SIZE. starts now (entries (relay_cache s) ! k))) \<and>
    (isBroadcasting s' \<longrightarrow> (\<exists>i < CACHE_SIZE. starts now (entries (relay_cache s) ! i) \<and>
      (\<forall>k < i. \<not> starts now (entries (relay_cache s) ! k)) \<and> currentBroadcastIndex s' = int i \<and>
      advData s' = frame_bytes (entry_packet (entries (relay_cache s) ! i)) \<and> advertising s' \<and> \<not> scanning s' \<and>
      broadcastEndTime s' = now + BROADCAST_BURST))"
  by (rule relay_loop_cases [OF assms(1), of now]) (use assms(2,3) in \<open>auto simp: burst_def\<close>)

theorem relay_loop_starts_first_due_witness:
  "\<exists>s'. relay_loop relay_init 5 = Some (s', []) \<and> \<not> isBroadcasting s'"
proof -
  have z: "\<not> starts 5 (entries zero_cache ! k)" if "k < CACHE_SIZE" for k
    using that by (simp add: zero_cache_def zero_entry_def starts_def due_def waiting_def)
  obtain s' evs where r: "relay_loop relay_init 5 = Some (s', evs)"
    by (rule relay_loop_inv [OF relay_init_inv, of 5])
  have nb: "\<not> isBroadcasting relay_init" by (simp add: relay_init_def)
  from relay_loop_starts_first_due [OF relay_init_inv nb r] z have "\<not> isBroadcasting s'"
    by (auto simp: relay_init_def)
  moreover have "snd (loop_from relay_init 5 i) = []" for i
  proof (induction "CACHE_SIZE - i" arbitrary: i)
    case 0
    then show ?case by (simp add: loop_from.simps [of relay_init 5 i])
  next
    case (Suc n)
    then have "i < CACHE_SIZE" "n = CACHE_SIZE - Suc i" by simp_all
    with Suc.hyps(1) [of "Suc i"] show ?case
      by (simp add: loop_from.simps [of relay_init 5 i] Let_def)
        (simp add: relay_init_def zero_cache_def zero_entry_def)
  qed
  ultimately show ?thesis using r nb by (auto simp: relay_loop_def) (metis snd_conv)
qed

text \<open>
  Property C29. A burst goes on unchanged until the clock reaches its end time; then the radio
  stops sending, scans again, and the row that was sent no longer waits. The comparison is one
  of 32-bit numbers.
\<close>

theorem relay_burst_ends:
  assumes "relay_inv H s" "isBroadcasting s"
  shows "\<exists>s' evs. relay_loop s now = Some (s', evs) \<and>
    (if now < broadcastEndTime s then s' = s \<and> evs = []
     else \<not> isBroadcasting s' \<and> \<not> advertising s' \<and> scanning s' \<and> evs = [CompletedLine] \<and>
       \<not> waiting (entries (relay_cache s') ! nat (currentBroadcastIndex s)))"
  by (rule relay_loop_cases [OF assms(1), of now]) (use assms(2) in \<open>auto simp: not_less\<close>)

theorem relay_burst_ends_witness:
  "\<exists>s s'. advertising s \<and> relay_loop s (broadcastEndTime s) = Some (s', [CompletedLine]) \<and> \<not> advertising s' \<and> scanning s'"
proof -
  obtain s where s: "relay_run [Advert (Some (frame_bytes sample_packet)) sample_mac 1000 False 60, Tick 1060] s"
    "advertising s" by (rule sample_run)
  note inv = relay_run_inv [OF s(1)]
  have b: "isBroadcasting s" using inv s(2) by (simp add: relay_inv_def radio_ok_def)
  from relay_burst_ends [OF inv b, of "broadcastEndTime s"] s(2) show ?thesis by auto
qed

text \<open>
  The wait for Wi-Fi ends, also when the 32-bit clock wraps during it.
\<close>

lemma wifi_wait_bound:
  assumes "clock 0 = t0" "\<And>k. clock k + 500 \<le> clock (Suc k)" "\<And>k. clock (Suc k) \<le> clock k + 900000"
  shows "\<exists>r \<le> 16. wifi_wait 17 connected (\<lambda>k. of_nat (clock k)) (of_nat t0) 0 = Some r"
proof -
  have mono: "t0 + 500 * k \<le> clock k" for k
  proof (induction k)
    case (Suc k)
    with assms(2) [of k] show ?case by simp
  qed (simp add: assms(1))
  have "\<exists>r \<le> 16. wifi_wait fuel connected (\<lambda>k. of_nat (clock k)) (of_nat t0) k = Some r"
    if "clock k < t0 + 8000 + 900000" "k \<le> 16" "16 < fuel + k" for fuel k
    using that
  proof (induction fuel arbitrary: k)
    case 0
    then show ?case by simp
  next
    case (Suc fuel)
    have d: "(of_nat (clock k) - of_nat t0 :: u32) = of_nat (clock k - t0)"
      using mono [of k] by simp
    have "unat (of_nat (clock k - t0) :: u32) = clock k - t0"
      using Suc.prems(1) by (simp add: unat_of_nat)
    then have lt: "(of_nat (clock k - t0) :: u32) < 8000 \<longleftrightarrow> clock k - t0 < 8000"
      by (simp add: word_less_nat_alt)
    show ?case
    proof (cases "\<not> connected k \<and> clock k - t0 < 8000")
      case True
      with mono [of k] have "k < 16" by linarith
      with True Suc.prems assms(3) [of k] have
        "\<exists>r \<le> 16. wifi_wait fuel connected (\<lambda>k. of_nat (clock k)) (of_nat t0) (Suc k) = Some r"
        by (intro Suc.IH) linarith+
      with True show ?thesis by (simp only: wifi_wait.simps d WIFI_CONNECT_TIMEOUT_MS_def lt simp_thms if_True)
    next
      case False
      then have "wifi_wait (Suc fuel) connected (\<lambda>k. of_nat (clock k)) (of_nat t0) k = Some k"
        by (simp only: wifi_wait.simps d WIFI_CONNECT_TIMEOUT_MS_def lt if_False)
      with Suc.prems(2) show ?thesis by blast
    qed
  qed
  from this [of 0 17] assms(1) show ?thesis by simp
qed

end
