(* ===== verification/EspTasks.thy ===== *)
theory EspTasks
  imports EspRelay
begin

text \<open>
  esp-relay.cpp again, at a finer grain: \<open>setup\<close> as a whole, and the end of a burst, which the
  main loop carries out without the mutex. It restarts the scan before it marks the row it has
  sent, so the scan callback can run in between; \<open>task_step\<close> lets it. (The mark is one byte; that
  it falls into the middle of a callback is not represented.)
\<close>

section \<open>Setup\<close>

datatype setup_event =
    SerialBegin nat
  | PinOutput nat
  | PinLow nat
  | ConnectingLine
  | WifiBegin
  | Delay nat
  | DotText
  | ConnectedLine
  | NotFoundLine
  | WifiDisconnect bool
  | RandomSeed u16
  | MutexCreate
  | BleInit string
  | GetScan
  | ScanCallbacks
  | ActiveScan bool
  | ScanInterval nat
  | ScanWindow nat
  | GetAdvertising
  | ScanStart

definition LED_STATUS_PIN :: nat where
  "LED_STATUS_PIN = 2"

text \<open>
  The k-th test of the wait reads \<open>connected k\<close> and \<open>millis k\<close>; \<open>up\<close> is the status read after
  the wait, \<open>noise\<close> the value of the analog pin that seeds the jitter. None is a wait that is
  still going when the fuel ends.
\<close>

definition relay_setup :: "nat \<Rightarrow> (nat \<Rightarrow> bool) \<Rightarrow> (nat \<Rightarrow> u32) \<Rightarrow> u32 \<Rightarrow> bool \<Rightarrow> u16 \<Rightarrow> (relay \<times> setup_event list) option" where
  "relay_setup fuel connected millis wifiStartAttempt up noise =
     (case wifi_wait fuel connected millis wifiStartAttempt 0 of
        None \<Rightarrow> None
      | Some k \<Rightarrow>
          Some (relay_init,
            [SerialBegin 115200, PinOutput LED_STATUS_PIN, PinLow LED_STATUS_PIN, ConnectingLine, WifiBegin] @
            concat (replicate k [Delay 500, DotText]) @
            (if up then [ConnectedLine] else [NotFoundLine, WifiDisconnect True]) @
            [RandomSeed noise, MutexCreate, BleInit '''', GetScan, ScanCallbacks, ActiveScan True,
             ScanInterval 100, ScanWindow 99, GetAdvertising, ScanStart]))"

text \<open>
  Property C33. Setup ends and leaves the relay scanning with an empty cache: if every 500 ms delay
  takes between half a second and a quarter of an hour, it waits for Wi-Fi at most 16 times, also
  when the 32-bit clock wraps in between; it gives Wi-Fi up exactly if there is no connection
  after the wait, and the mutex exists before the scan starts.
\<close>

theorem relay_setup_ends:
  fixes clock :: "nat \<Rightarrow> nat"
  assumes "clock 0 = t0" "\<And>k. clock k + 500 \<le> clock (Suc k)" "\<And>k. clock (Suc k) \<le> clock k + 900000"
  shows "\<exists>evs before after. relay_setup 17 connected (\<lambda>k. of_nat (clock k)) (of_nat t0) up noise = Some (relay_init, evs) \<and>
    count_list evs (Delay 500) \<le> 16 \<and> (WifiDisconnect True \<in> set evs \<longleftrightarrow> \<not> up) \<and>
    evs = before @ [ScanStart] \<and> MutexCreate \<in> set before"
proof -
  obtain k where k: "k \<le> 16" "wifi_wait 17 connected (\<lambda>k. of_nat (clock k)) (of_nat t0) 0 = Some k"
    using wifi_wait_bound [of clock t0 connected] assms by blast
  have "count_list (concat (replicate k [Delay 500, DotText])) (Delay 500) = k" by (induction k) simp_all
  moreover have "WifiDisconnect True \<notin> set (concat (replicate k [Delay 500, DotText]))" by (induction k) simp_all
  ultimately show ?thesis using k by (simp add: relay_setup_def)
qed

theorem relay_setup_ends_witness:
  "\<exists>evs. relay_setup 17 (\<lambda>k. False) (\<lambda>k. of_nat (4294960000 + 600 * k)) (of_nat 4294960000) False 7 = Some (relay_init, evs) \<and>
     count_list evs (Delay 500) \<le> 16 \<and> WifiDisconnect True \<in> set evs"
  using relay_setup_ends [of "\<lambda>k. 4294960000 + 600 * k" 4294960000 "\<lambda>k. False" False 7] by auto

section \<open>The tasks\<close>

text \<open>
  \<open>ending\<close>: the main loop is between the restart of the scan and the mark of the row.
\<close>

record tasks =
  shared :: relay
  ending :: bool

definition end_air :: "relay \<Rightarrow> relay" where
  "end_air s = s\<lparr>advertising := False, led := False, scanning := True\<rparr>"

definition end_mark :: "relay \<Rightarrow> (relay \<times> relay_event list) option" where
  "end_mark s = map_option (\<lambda>c. (s\<lparr>isBroadcasting := False, relay_cache := c\<rparr>, [CompletedLine]))
     (mark_broadcasted (relay_cache s) (currentBroadcastIndex s))"

datatype task_input =
    Callback "u8 list option" "u8 list" u32 bool u32
  | LoopPass u32
  | LoopRest

inductive task_step :: "tasks \<Rightarrow> task_input \<Rightarrow> relay_event list \<Rightarrow> tasks \<Rightarrow> bool" where
  callback: "onResult (shared t) mfr mac now wifi j = Some (s', evs) \<Longrightarrow> wf_mac mac \<Longrightarrow> jitter_ok j \<Longrightarrow>
     task_step t (Callback mfr mac now wifi j) evs (t\<lparr>shared := s'\<rparr>)"
| loop_pass: "\<not> ending t \<Longrightarrow> \<not> (isBroadcasting (shared t) \<and> broadcastEndTime (shared t) \<le> now) \<Longrightarrow>
     relay_loop (shared t) now = Some (s', evs) \<Longrightarrow> task_step t (LoopPass now) evs (t\<lparr>shared := s'\<rparr>)"
| loop_end: "\<not> ending t \<Longrightarrow> isBroadcasting (shared t) \<Longrightarrow> broadcastEndTime (shared t) \<le> now \<Longrightarrow>
     task_step t (LoopPass now) [] \<lparr>shared = end_air (shared t), ending = True\<rparr>"
| loop_rest: "ending t \<Longrightarrow> end_mark (shared t) = Some (s', evs) \<Longrightarrow>
     task_step t LoopRest evs \<lparr>shared = s', ending = False\<rparr>"

inductive_cases task_step_CallbackE: "task_step t (Callback mfr mac now wifi j) evs t'"
inductive_cases task_step_LoopPassE: "task_step t (LoopPass now) evs t'"
inductive_cases task_step_LoopRestE: "task_step t LoopRest evs t'"

definition tasks_init :: tasks where
  "tasks_init = \<lparr>shared = relay_init, ending = False\<rparr>"

inductive task_run :: "task_input list \<Rightarrow> tasks \<Rightarrow> bool" where
  task_start: "task_run [] tasks_init"
| task_snoc: "task_run xs t \<Longrightarrow> task_step t x evs t' \<Longrightarrow> task_run (xs @ [x]) t'"

text \<open>With no callback in between, the two halves are the end of the burst in \<open>relay_loop\<close>.\<close>

lemma end_halves:
  "isBroadcasting s \<Longrightarrow> broadcastEndTime s \<le> now \<Longrightarrow> relay_loop s now = end_mark (end_air s)"
  by (cases "mark_broadcasted (relay_cache s) (currentBroadcastIndex s)")
    (simp_all add: relay_loop_def end_mark_def end_air_def)

section \<open>Invariant\<close>

text \<open>The callback reads and writes the cache and the status text only.\<close>

lemma onResult_broadcasting:
  "onResult (s\<lparr>isBroadcasting := b\<rparr>) mfr mac now wifi j =
     map_option (\<lambda>(s', evs). (s'\<lparr>isBroadcasting := b\<rparr>, evs)) (onResult s mfr mac now wifi j)"
  by (simp add: onResult_def Let_def split: option.split prod.split hop.split)

definition same_radio :: "relay \<Rightarrow> relay \<Rightarrow> bool" where
  "same_radio s s' \<longleftrightarrow> isBroadcasting s' = isBroadcasting s \<and> currentBroadcastIndex s' = currentBroadcastIndex s \<and>
     advertising s' = advertising s \<and> advData s' = advData s \<and> scanning s' = scanning s \<and> led s' = led s"

lemma onResult_radio: "onResult s mfr mac now wifi j = Some (s', evs) \<Longrightarrow> same_radio s s'"
proof -
  have "pred_option (\<lambda>x. same_radio s (fst x)) (onResult s mfr mac now wifi j)"
    by (simp add: onResult_def Let_def same_radio_def split: option.split prod.split hop.split)
  then show "onResult s mfr mac now wifi j = Some (s', evs) \<Longrightarrow> same_radio s s'" by simp
qed

text \<open>In the middle of the end of a burst the relay would be idle, but for the flag and the row.\<close>

definition tasks_inv :: "emergencyPacket set \<Rightarrow> tasks \<Rightarrow> bool" where
  "tasks_inv H t \<longleftrightarrow>
     (if ending t
      then relay_inv H ((shared t)\<lparr>isBroadcasting := False\<rparr>) \<and> isBroadcasting (shared t) \<and>
        0 \<le> currentBroadcastIndex (shared t) \<and> currentBroadcastIndex (shared t) < int CACHE_SIZE
      else relay_inv H (shared t))"

lemma tasks_inv_mono: "tasks_inv H t \<Longrightarrow> H \<subseteq> H' \<Longrightarrow> tasks_inv H' t"
  by (auto simp: tasks_inv_def intro: relay_inv_mono split: if_splits)

lemma tasks_init_inv: "tasks_inv H tasks_init"
  by (simp add: tasks_inv_def tasks_init_def relay_init_inv)

definition hops_of :: "u8 list option \<Rightarrow> emergencyPacket set" where
  "hops_of mfr = {q. \<exists>p. wf_packet p \<and> mfr = Some (frame_bytes p) \<and> hop_packet p = Some q}"

lemma callback_inv:
  assumes "tasks_inv H t" "wf_mac mac"
  obtains s' evs where "onResult (shared t) mfr mac now wifi j = Some (s', evs)"
    "tasks_inv (H \<union> hops_of mfr) (t\<lparr>shared := s'\<rparr>)"
proof (cases "ending t")
  case False
  with assms(1) have "relay_inv H (shared t)" by (simp add: tasks_inv_def)
  then obtain s' evs where "onResult (shared t) mfr mac now wifi j = Some (s', evs)" "relay_inv (H \<union> hops_of mfr) s'"
    unfolding hops_of_def by (rule onResult_inv [OF _ assms(2), of H "shared t" mfr now wifi j])
  with False show thesis by (intro that) (simp_all add: tasks_inv_def)
next
  case True
  let ?s = "(shared t)\<lparr>isBroadcasting := False\<rparr>"
  from True assms(1) have inv: "relay_inv H ?s" "isBroadcasting (shared t)"
    "0 \<le> currentBroadcastIndex (shared t)" "currentBroadcastIndex (shared t) < int CACHE_SIZE"
    by (simp_all add: tasks_inv_def)
  obtain s1 evs where r: "onResult ?s mfr mac now wifi j = Some (s1, evs)" "relay_inv (H \<union> hops_of mfr) s1"
    unfolding hops_of_def by (rule onResult_inv [OF inv(1) assms(2), of mfr now wifi j])
  let ?s' = "s1\<lparr>isBroadcasting := True\<rparr>"
  have st: "shared t = ?s\<lparr>isBroadcasting := True\<rparr>" using inv(2) by simp
  have same: "same_radio ?s s1" using r(1) by (rule onResult_radio)
  then have s1: "?s'\<lparr>isBroadcasting := False\<rparr> = s1" by (simp add: same_radio_def)
  have "onResult (shared t) mfr mac now wifi j = Some (?s', evs)"
    unfolding onResult_broadcasting [of True ?s, folded st] r(1) by simp
  moreover have "relay_inv (H \<union> hops_of mfr) (?s'\<lparr>isBroadcasting := False\<rparr>)"
    unfolding s1 by (rule r(2))
  then have "tasks_inv (H \<union> hops_of mfr) (t\<lparr>shared := ?s'\<rparr>)"
    using True same inv(3,4) by (simp add: tasks_inv_def same_radio_def)
  ultimately show thesis by (rule that)
qed

lemma end_mark_inv:
  assumes "tasks_inv H t" "ending t"
  obtains s' where "end_mark (shared t) = Some (s', [CompletedLine])" "relay_inv H s'"
    "\<not> waiting (entries (relay_cache s') ! nat (currentBroadcastIndex (shared t)))"
    "\<And>k. k < CACHE_SIZE \<Longrightarrow> k \<noteq> nat (currentBroadcastIndex (shared t)) \<Longrightarrow>
       entries (relay_cache s') ! k = entries (relay_cache (shared t)) ! k"
proof -
  let ?s = "shared t"
  from assms have inv: "relay_inv H (?s\<lparr>isBroadcasting := False\<rparr>)" "0 \<le> currentBroadcastIndex ?s" "currentBroadcastIndex ?s < int CACHE_SIZE"
    by (simp_all add: tasks_inv_def)
  then have "cache_inv (relay_cache ?s)" by (simp add: relay_inv_def)
  from mark_broadcasted_spec [OF this inv(2,3)] obtain c where c:
    "mark_broadcasted (relay_cache ?s) (currentBroadcastIndex ?s) = Some c" "cache_inv c" "no_new_waiting (relay_cache ?s) c"
    "\<not> waiting (entries c ! nat (currentBroadcastIndex ?s))"
    "\<forall>k < CACHE_SIZE. k \<noteq> nat (currentBroadcastIndex ?s) \<longrightarrow> entries c ! k = entries (relay_cache ?s) ! k" by blast
  from relay_inv_new_cache [OF inv(1) c(2)] c(3) have "relay_inv H (?s\<lparr>isBroadcasting := False, relay_cache := c\<rparr>)" by simp
  with c show thesis by (intro that [of "?s\<lparr>isBroadcasting := False, relay_cache := c\<rparr>"]) (simp_all add: end_mark_def)
qed

text \<open>The packets that the hop rule made of the frames the callback got.\<close>

definition task_hopped :: "task_input list \<Rightarrow> emergencyPacket set" where
  "task_hopped xs = (\<Union>x \<in> set xs. case x of Callback mfr mac now wifi j \<Rightarrow> hops_of mfr | _ \<Rightarrow> {})"

definition input_hops :: "task_input \<Rightarrow> emergencyPacket set" where
  "input_hops x = (case x of Callback mfr mac now wifi j \<Rightarrow> hops_of mfr | _ \<Rightarrow> {})"

lemma task_hopped_snoc: "task_hopped (xs @ [x]) = task_hopped xs \<union> input_hops x"
  by (auto simp: task_hopped_def input_hops_def)

lemma task_hoppedE:
  assumes "q \<in> task_hopped xs"
  shows "\<exists>p mac now wifi j. wf_packet p \<and> Callback (Some (frame_bytes p)) mac now wifi j \<in> set xs \<and> hop_packet p = Some q"
proof -
  from assms obtain x where x: "x \<in> set xs" "q \<in> input_hops x" by (auto simp: task_hopped_def input_hops_def)
  show ?thesis
  proof (cases x)
    case (Callback mfr mac now wifi j)
    with x(2) obtain p where "wf_packet p" "mfr = Some (frame_bytes p)" "hop_packet p = Some q"
      by (auto simp: input_hops_def hops_of_def)
    with x(1) Callback show ?thesis by blast
  qed (use x(2) in \<open>simp_all add: input_hops_def\<close>)
qed

lemma task_step_inv:
  assumes "task_step t x evs t'" "tasks_inv H t"
  shows "tasks_inv (H \<union> input_hops x) t'"
  using assms
proof (induction rule: task_step.induct)
  case (callback t mfr mac now wifi j s' evs)
  from callback_inv [OF callback.prems callback.hyps(2), of mfr now wifi j] callback.hyps(1)
  show ?case by (auto simp: input_hops_def)
next
  case (loop_pass t now s' evs)
  then have inv: "relay_inv H (shared t)" by (simp add: tasks_inv_def)
  have "relay_inv H s'"
    by (rule relay_loop_inv [OF inv, of now]) (use loop_pass.hyps(3) in simp)
  with loop_pass.hyps(1) show ?case by (simp add: tasks_inv_def input_hops_def)
next
  case (loop_end t now)
  then show ?case
    by (auto simp: tasks_inv_def input_hops_def relay_inv_def radio_ok_def end_air_def)
next
  case (loop_rest t s' evs)
  from end_mark_inv [OF loop_rest.prems loop_rest.hyps(1)] loop_rest.hyps(2)
  show ?case by (auto simp: tasks_inv_def input_hops_def)
qed

lemma task_run_inv: "task_run xs t \<Longrightarrow> tasks_inv (task_hopped xs) t"
proof (induction rule: task_run.induct)
  case task_start
  show ?case by (rule tasks_init_inv)
next
  case (task_snoc xs t x evs t')
  from task_step_inv [OF task_snoc.hyps(2) task_snoc.IH] show ?case by (simp add: task_hopped_snoc)
qed

text \<open>A free first row is where a new packet goes.\<close>

lemma purge_from_target: "t \<noteq> -1 \<Longrightarrow> length (entries c) = CACHE_SIZE \<Longrightarrow> snd (purge_from c now t (Suc 0)) = t"
  using purge_from_spec [of c "Suc 0" now t] by (simp add: purge_result_def CACHE_SIZE_def)

lemma addToCache_row0:
  assumes "wf_cache c" "\<not> live now (entries c ! 0)"
  shows "snd (addToCache c h p now jitter mac) = 0"
proof -
  have len: "length (entries c) = CACHE_SIZE" using assms(1) by (simp add: wf_cache_def)
  have "snd (purge_from c now (-1) 0) = 0"
    using assms(2) len by (subst purge_from.simps) (simp add: CACHE_SIZE_def live_def Let_def not_less purge_from_target)
  then show ?thesis by (simp add: addToCache_def split_beta Let_def)
qed

lemma queue_row0:
  assumes "cache_inv (relay_cache s)" "wf_packet p" "wf_mac mac" "1 < packet_ttl p"
    "look now (relay_cache s) (hmac_sig p) = None" "\<not> live now (entries (relay_cache s) ! 0)"
  obtains c where
    "onResult s (Some (frame_bytes p)) mac now False j = Some (s\<lparr>relay_cache := c\<rparr>, [StatusLine (cacheMacStatus s), QueueLine j])"
    "waiting (entries c ! 0)" "entry_hmac (entries c ! 0) = hmac_sig p" "broadcast_time (entries c ! 0) = now + j"
    "expires_at (entries c ! 0) = now + CACHE_TTL_MS" "rx_count (entries c ! 0) = 1"
proof -
  obtain q where q: "hop_packet p = Some q" using assms(4) hop_packet_None [of p] by auto
  have wq: "wf_packet q" "hmac_sig q = hmac_sig p" using hop_wf [OF q assms(2)] by simp_all
  have h: "wf_hash (hmac_sig p)" using assms(2) by simp
  let ?c1 = "note_sighting now (relay_cache s) (hmac_sig p) mac"
  have inv1: "cache_inv ?c1" using cache.inv_touch [OF assms(1) h assms(3)] .
  then have wf: "wf_cache ?c1" by (simp add: cache_inv_def)
  have r: "onResult s (Some (frame_bytes p)) mac now False j = Some (s\<lparr>relay_cache :=
      fst (addToCache ?c1 (hmac_sig p) q now j mac)\<rparr>, [StatusLine (cacheMacStatus s), QueueLine j])"
    by (rule onResult_frame [OF assms(1-3), where now = now and wifi = False and j = j]) (use assms(4,5) q wq in auto)
  have "\<not> live now (entries ?c1 ! 0)"
  proof -
    have w: "wf_cache (relay_cache s)" using assms(1) by (simp add: cache_inv_def)
    then have "length (entries (relay_cache s)) = 256" by (simp add: wf_cache_def CACHE_SIZE_def)
    then show ?thesis
      by (rule_tac checkCache_cases [OF w h, of now mac None])
        (use assms(6) in \<open>auto simp: note_sighting_def known_as_def CACHE_SIZE_def\<close>)
  qed
  from addToCache_row0 [OF wf this, of "hmac_sig p" q j mac] obtain c' where
    "fst (addToCache ?c1 (hmac_sig p) q now j mac) = c'"
    "entries c' ! 0 = fill_entry (purge now (entries ?c1 ! 0)) (hmac_sig p) q now j mac"
    by (rule_tac addToCache_cases [OF wf h wq(1) assms(3), of now j]) auto
  moreover have "entry_hmac (fill_entry (purge now (entries ?c1 ! 0)) (hmac_sig p) q now j mac) = hmac_sig p"
    by (rule fill_entry_wf(1) [OF wf_purge [OF wf_cache_nth [OF wf]] h wq(1) assms(3)]) (simp add: CACHE_SIZE_def)
  ultimately show thesis using r by (intro that [of c']) (auto simp: fill_entry_def waiting_def)
qed

text \<open>
  A run: one frame is heard and queued in row 0, its burst starts, and the pass that ends the
  burst comes late, when the row's time in the cache is over.
\<close>

definition race_inputs :: "task_input list" where
  "race_inputs = [Callback (Some (frame_bytes sample_packet)) sample_mac 1000 False 60, LoopPass 1060]"

lemma race_burst:
  obtains t where "task_run race_inputs t" "\<not> ending t" "isBroadcasting (shared t)" "advertising (shared t)"
    "broadcastEndTime (shared t) = 1560" "currentBroadcastIndex (shared t) = 0"
    "expires_at (entries (relay_cache (shared t)) ! 0) = 3000" "look 3100 (relay_cache (shared t)) (hmac_sig sample_packet) = None"
proof -
  have init: "cache_inv (relay_cache relay_init)" "look 1000 (relay_cache relay_init) (hmac_sig sample_packet) = None"
    "\<not> live 1000 (entries (relay_cache relay_init) ! 0)"
    by (simp_all add: relay_init_def zero_cache_inv) (simp add: zero_cache_def zero_entry_def live_def CACHE_SIZE_def)
  have ttl: "1 < packet_ttl sample_packet" by simp
  obtain c where r: "onResult relay_init (Some (frame_bytes sample_packet)) sample_mac 1000 False 60 =
      Some (relay_init\<lparr>relay_cache := c\<rparr>, [StatusLine (cacheMacStatus relay_init), QueueLine 60])"
    and c: "waiting (entries c ! 0)" "broadcast_time (entries c ! 0) = 1060" "expires_at (entries c ! 0) = 3000" "rx_count (entries c ! 0) = 1"
    by (rule queue_row0 [OF init(1) wf_sample_packet sample_shapes(1) ttl init(2,3), of 60]) (auto simp: CACHE_TTL_MS_def)
  from onResult_queues [OF init(1) wf_sample_packet sample_shapes(1) init(2) ttl, of 60] r
  have look: "look 3100 c (hmac_sig sample_packet) = None" by (auto simp: CACHE_TTL_MS_def)
  let ?t1 = "\<lparr>shared = relay_init\<lparr>relay_cache := c\<rparr>, ending = False\<rparr>"
  have "task_step tasks_init (Callback (Some (frame_bytes sample_packet)) sample_mac 1000 False 60)
      [StatusLine (cacheMacStatus relay_init), QueueLine 60] (tasks_init\<lparr>shared := relay_init\<lparr>relay_cache := c\<rparr>\<rparr>)"
    by (rule task_step.callback) (simp_all add: tasks_init_def r jitter_ok_def)
  then have s1: "task_run [Callback (Some (frame_bytes sample_packet)) sample_mac 1000 False 60] ?t1"
    using task_run.task_snoc [OF task_run.task_start, of _ _ ?t1] by (simp add: tasks_init_def)
  define s2 where "s2 = fst (loop_from (relay_init\<lparr>relay_cache := c\<rparr>) 1060 0)"
  have s2: "s2 = relay_init\<lparr>relay_cache := c, scanning := False, advData := frame_bytes (entry_packet (entries c ! 0)), led := True,
      advertising := True, isBroadcasting := True, broadcastEndTime := 1560, currentBroadcastIndex := 0\<rparr>"
    using c unfolding s2_def
    by (subst loop_from.simps) (simp add: CACHE_SIZE_def REDUNDANCY_def waiting_def BROADCAST_BURST_def Let_def)
  have "task_step ?t1 (LoopPass 1060) (snd (loop_from (relay_init\<lparr>relay_cache := c\<rparr>) 1060 0)) (?t1\<lparr>shared := s2\<rparr>)"
    by (rule task_step.loop_pass) (simp_all add: relay_loop_def s2_def relay_init_def)
  from task_run.task_snoc [OF s1 this] have "task_run race_inputs \<lparr>shared = s2, ending = False\<rparr>"
    by (simp add: race_inputs_def)
  then show thesis by (rule that) (simp_all add: s2 c(3) look)
qed

lemma race_gap:
  obtains t where "task_run (race_inputs @ [LoopPass 3100]) t" "ending t" "currentBroadcastIndex (shared t) = 0"
    "\<not> live 3100 (entries (relay_cache (shared t)) ! 0)" "look 3100 (relay_cache (shared t)) (hmac_sig sample_packet) = None"
proof -
  obtain t where t: "task_run race_inputs t" "\<not> ending t" "isBroadcasting (shared t)"
    "broadcastEndTime (shared t) = 1560" "currentBroadcastIndex (shared t) = 0"
    "expires_at (entries (relay_cache (shared t)) ! 0) = 3000" "look 3100 (relay_cache (shared t)) (hmac_sig sample_packet) = None"
    by (rule race_burst)
  have "task_step t (LoopPass 3100) [] \<lparr>shared = end_air (shared t), ending = True\<rparr>"
    by (rule task_step.loop_end) (simp_all add: t)
  from task_run.task_snoc [OF t(1) this] show thesis
    by (rule that) (simp_all add: end_air_def t live_def)
qed

section \<open>Properties\<close>

text \<open>
  Property C6. However the scan callback and the main loop interleave, the end of a burst
  included, a relay never makes up or alters a packet: while it advertises, the frame on air is
  the two company bytes and a packet that the hop rule made of a frame its callback got, so its
  TTL is between 1 and 30, one less than received, all other fields are as received, and the
  scan is off.
\<close>

theorem tasks_advertise_only_hopped:
  assumes "task_run xs t" "advertising (shared t)"
  shows "\<not> scanning (shared t) \<and> (\<exists>p q mac now wifi j. Callback (Some (frame_bytes p)) mac now wifi j \<in> set xs \<and>
    wf_packet p \<and> advData (shared t) = [0xFF, 0xFF] @ packet_bytes q \<and> packet_core q = packet_core p \<and>
    Suc (packet_ttl q) = packet_ttl p \<and> 0 < packet_ttl q \<and> packet_ttl q \<le> 30)"
proof -
  from task_run_inv [OF assms(1)] assms(2) obtain q where q: "q \<in> task_hopped xs" "advData (shared t) = frame_bytes q" "\<not> scanning (shared t)"
    by (auto simp: tasks_inv_def relay_inv_def radio_ok_def split: if_splits)
  from task_hoppedE [OF q(1)] obtain p mac now wifi j where p: "wf_packet p"
    "Callback (Some (frame_bytes p)) mac now wifi j \<in> set xs" "hop_packet p = Some q" by blast
  from hop_packet_Some [OF p(3)] packet_ttl_bound [of p] have "packet_ttl q \<le> 30" by linarith
  moreover have "advData (shared t) = [0xFF, 0xFF] @ packet_bytes q" using q(2) by (simp only: frame_bytes_eq)
  ultimately show ?thesis using hop_packet_Some [OF p(3)] p(1,2) q(3) by blast
qed

theorem tasks_advertise_only_hopped_witness:
  "\<exists>t q. task_run race_inputs t \<and> \<not> scanning (shared t) \<and> advData (shared t) = [0xFF, 0xFF] @ packet_bytes q \<and> packet_ttl q \<le> 30"
proof -
  obtain t where t: "task_run race_inputs t" "advertising (shared t)" by (rule race_burst)
  from tasks_advertise_only_hopped [OF t] t(1) show ?thesis by blast
qed

lemma addToCache_row:
  assumes "cache_inv c" "wf_packet q" "wf_mac mac" "look now c (hmac_sig q) = None"
  shows "\<exists>row < CACHE_SIZE. \<forall>k < CACHE_SIZE. waiting (entries (fst (addToCache c (hmac_sig q) q now j mac)) ! k) \<and>
    entry_hmac (entries (fst (addToCache c (hmac_sig q) q now j mac)) ! k) = hmac_sig q \<longleftrightarrow> k = row"
proof -
  from addToCache_waiting [OF assms, of j] obtain row where row: "row < CACHE_SIZE" "\<And>k. k < CACHE_SIZE \<Longrightarrow>
      (let e = entries (fst (addToCache c (hmac_sig q) q now j mac)) ! k
       in if k = row then entry_packet e = q \<and> entry_hmac e = hmac_sig q \<and> active e \<and> \<not> broadcasted e
          else entry_hmac e = entry_hmac (entries c ! k) \<and> entry_packet e = entry_packet (entries c ! k) \<and>
            (active e \<longrightarrow> entry_hmac e \<noteq> hmac_sig q) \<and> (waiting e \<longrightarrow> waiting (entries c ! k)))" by blast
  have "waiting (entries (fst (addToCache c (hmac_sig q) q now j mac)) ! k) \<and>
    entry_hmac (entries (fst (addToCache c (hmac_sig q) q now j mac)) ! k) = hmac_sig q \<longleftrightarrow> k = row" if "k < CACHE_SIZE" for k
    using row(2) [OF that] unfolding Let_def waiting_def by (cases "k = row") auto
  with row(1) show ?thesis by blast
qed

text \<open>
  Property C18. The price of marking the row after the scan runs again: a packet that the callback
  queues in between is still waiting afterwards exactly if it was not put into the row of the
  burst that ends. In that row it is taken for sent and never goes on air.
\<close>

theorem burst_end_race:
  assumes "task_run xs t" "ending t" "wf_packet p" "wf_mac mac" "1 < packet_ttl p"
    "look now (relay_cache (shared t)) (hmac_sig p) = None"
  shows "\<exists>s1 row s2. onResult (shared t) (Some (frame_bytes p)) mac now False j =
      Some (s1, [StatusLine (cacheMacStatus (shared t)), QueueLine j]) \<and> row < CACHE_SIZE \<and>
    (\<forall>k < CACHE_SIZE. waiting (entries (relay_cache s1) ! k) \<and> entry_hmac (entries (relay_cache s1) ! k) = hmac_sig p \<longleftrightarrow> k = row) \<and>
    end_mark s1 = Some (s2, [CompletedLine]) \<and>
    ((\<exists>k < CACHE_SIZE. waiting (entries (relay_cache s2) ! k) \<and> entry_hmac (entries (relay_cache s2) ! k) = hmac_sig p) \<longleftrightarrow>
      row \<noteq> nat (currentBroadcastIndex (shared t)))"
proof -
  let ?s = "shared t" and ?h = "hmac_sig p"
  let ?idx = "nat (currentBroadcastIndex ?s)"
  note inv = task_run_inv [OF assms(1)]
  have c: "cache_inv (relay_cache ?s)" using inv assms(2) by (simp add: tasks_inv_def relay_inv_def)
  have h: "wf_hash ?h" using assms(3) by simp
  let ?c1 = "note_sighting now (relay_cache ?s) ?h mac"
  obtain q where q: "hop_packet p = Some q" using assms(5) hop_packet_None [of p] by auto
  have wq: "wf_packet q" "hmac_sig q = ?h" using hop_wf [OF q assms(3)] by simp_all
  let ?c2 = "fst (addToCache ?c1 ?h q now j mac)"
  let ?s1 = "?s\<lparr>relay_cache := ?c2\<rparr>"
  have inv1: "cache_inv ?c1" using cache.inv_touch [OF c h assms(4)] .
  have look1: "look now ?c1 ?h = None"
    using cache.known_touch [OF c h assms(4), of now ?h] assms(6) by simp
  have r: "onResult ?s (Some (frame_bytes p)) mac now False j = Some (?s1, [StatusLine (cacheMacStatus ?s), QueueLine j])"
    by (rule onResult_frame [OF c assms(3,4), where now = now and wifi = False and j = j]) (use assms(5,6) q wq in auto)
  obtain row where row: "row < CACHE_SIZE" "\<forall>k < CACHE_SIZE. waiting (entries ?c2 ! k) \<and> entry_hmac (entries ?c2 ! k) = ?h \<longleftrightarrow> k = row"
    using addToCache_row [of ?c1 q mac now j, unfolded wq(2), OF inv1 wq(1) assms(4) look1] by blast
  let ?t = "t\<lparr>shared := ?s1\<rparr>"
  have ti: "tasks_inv (task_hopped xs \<union> hops_of (Some (frame_bytes p))) ?t"
    by (rule callback_inv [OF inv assms(4), of "Some (frame_bytes p)" now False j]) (use r in simp)
  have e: "ending ?t" using assms(2) by simp
  obtain s2 where m2: "end_mark (shared ?t) = Some (s2, [CompletedLine])"
    "\<not> waiting (entries (relay_cache s2) ! nat (currentBroadcastIndex (shared ?t)))"
    "\<And>k. k < CACHE_SIZE \<Longrightarrow> k \<noteq> nat (currentBroadcastIndex (shared ?t)) \<Longrightarrow>
       entries (relay_cache s2) ! k = entries (relay_cache (shared ?t)) ! k"
    using end_mark_inv [OF ti e] by metis
  have sel: "shared ?t = ?s1" "currentBroadcastIndex ?s1 = currentBroadcastIndex ?s" "relay_cache ?s1 = ?c2" by simp_all
  note m = m2 [unfolded sel]
  have "(\<exists>k < CACHE_SIZE. waiting (entries (relay_cache s2) ! k) \<and> entry_hmac (entries (relay_cache s2) ! k) = ?h) \<longleftrightarrow> row \<noteq> ?idx"
    using m(2,3) row by metis
  with r row m(1) show ?thesis by (intro exI [of _ ?s1] exI [of _ row] exI [of _ s2]) simp
qed

theorem burst_end_race_witness:
  "\<exists>t s1 s2 e. task_run (race_inputs @ [LoopPass 3100]) t \<and>
     onResult (shared t) (Some (frame_bytes sample_packet)) sample_mac 3100 False 60 = Some (s1, [e, QueueLine 60]) \<and>
     end_mark s1 = Some (s2, [CompletedLine]) \<and>
     (\<forall>k < CACHE_SIZE. \<not> (waiting (entries (relay_cache s2) ! k) \<and> entry_hmac (entries (relay_cache s2) ! k) = hmac_sig sample_packet))"
proof -
  obtain t where t: "task_run (race_inputs @ [LoopPass 3100]) t" "ending t" "currentBroadcastIndex (shared t) = 0"
    "\<not> live 3100 (entries (relay_cache (shared t)) ! 0)" "look 3100 (relay_cache (shared t)) (hmac_sig sample_packet) = None"
    by (rule race_gap)
  have c: "cache_inv (relay_cache (shared t))" using task_run_inv [OF t(1)] t(2) by (simp add: tasks_inv_def relay_inv_def)
  have ttl: "1 < packet_ttl sample_packet" by simp
  obtain c' where r: "onResult (shared t) (Some (frame_bytes sample_packet)) sample_mac 3100 False 60 =
      Some ((shared t)\<lparr>relay_cache := c'\<rparr>, [StatusLine (cacheMacStatus (shared t)), QueueLine 60])"
    "waiting (entries c' ! 0)" "entry_hmac (entries c' ! 0) = hmac_sig sample_packet"
    by (rule queue_row0 [OF c wf_sample_packet sample_shapes(1) ttl t(5,4), of 60])
  from burst_end_race [OF t(1,2) wf_sample_packet sample_shapes(1) ttl t(5), of 60] r obtain row s2 where
    row: "\<forall>k < CACHE_SIZE. waiting (entries c' ! k) \<and> entry_hmac (entries c' ! k) = hmac_sig sample_packet \<longleftrightarrow> k = row"
    and s2: "end_mark ((shared t)\<lparr>relay_cache := c'\<rparr>) = Some (s2, [CompletedLine])"
      "(\<exists>k < CACHE_SIZE. waiting (entries (relay_cache s2) ! k) \<and> entry_hmac (entries (relay_cache s2) ! k) = hmac_sig sample_packet) \<longleftrightarrow> row \<noteq> 0"
    by (auto simp: t(3))
  have "row = 0" using row [rule_format, of 0] r(2,3) by (simp add: CACHE_SIZE_def)
  with s2(2) have "\<forall>k < CACHE_SIZE. \<not> (waiting (entries (relay_cache s2) ! k) \<and> entry_hmac (entries (relay_cache s2) ! k) = hmac_sig sample_packet)"
    by blast
  with t(1) r(1) s2(1) show ?thesis by blast
qed

end
