(* ===== verification/Scanner.thy ===== *)
theory Scanner
  imports Signing
begin

text \<open>
  The receivers of the Python scanners: \<open>datagram_received\<close> of udp-scanner.py, behind the
  gateway, and \<open>ble_callback\<close> of ble-scanner.py. They print the fields of a packet and whether
  its signature is valid. The UDP scanner keeps the time each signature was last printed and
  skips copies that follow within 20 ms; the event loop's clock is an input, in microseconds.
\<close>

section \<open>Model\<close>

datatype scan_location =
    Coordinates int int
  | Nonce nat

record scan_report =
  scan_phone :: u32
  scan_timestamp :: u32
  scan_ttl :: nat
  scan_location :: scan_location
  scan_valid :: bool

definition scan_packet :: "hmac_fun \<Rightarrow> u8 list \<Rightarrow> scan_report" where
  "scan_packet mac data_bytes =
     (let p = bytes_packet data_bytes;
          gps_valid = drop_bit 7 (flags p) AND 1;
          ttl = flags p AND 0x1F
      in \<lparr>scan_phone = phone p, scan_timestamp = timestamp p, scan_ttl = unat ttl,
          scan_location = (if gps_valid \<noteq> 0
            then Coordinates (sint (gps_latitude (payload p))) (sint (gps_longitude (payload p)))
            else Nonce (unat (payload p))),
          scan_valid = verify_hmac mac data_bytes\<rparr>)"

definition SCAN_CACHE_TTL :: int where
  "SCAN_CACHE_TTL = 20000"

definition datagram_received :: "hmac_fun \<Rightarrow> (u8 list \<rightharpoonup> int) \<Rightarrow> u8 list \<Rightarrow> int \<Rightarrow>
    (u8 list \<rightharpoonup> int) \<times> scan_report option" where
  "datagram_received mac cache data now =
     (if length data \<noteq> PACKET_SIZE + 2 then (cache, None)
      else if (le_word (take 2 data) :: u16) \<noteq> 0xFFFF then (cache, None)
      else (let data_bytes = drop 2 data;
                sig = take 8 (drop 17 data_bytes)
            in if (case cache sig of None \<Rightarrow> False | Some t \<Rightarrow> now - t < SCAN_CACHE_TTL)
               then (cache, None)
               else (cache(sig \<mapsto> now), Some (scan_packet mac data_bytes))))"

primrec scan_run :: "hmac_fun \<Rightarrow> (u8 list \<rightharpoonup> int) \<Rightarrow> (u8 list \<times> int) list \<Rightarrow> scan_report list" where
  "scan_run mac cache [] = []"
| "scan_run mac cache (x # xs) =
     (let (cache', r) = datagram_received mac cache (fst x) (snd x)
      in (case r of None \<Rightarrow> [] | Some rep \<Rightarrow> [rep]) @ scan_run mac cache' xs)"

text \<open>The Bluetooth scanner gets the manufacturer data by company, without the company bytes.\<close>

definition ble_callback :: "hmac_fun \<Rightarrow> (u16 \<rightharpoonup> u8 list) \<Rightarrow> scan_report option" where
  "ble_callback mac manufacturer_data =
     (case manufacturer_data 0xFFFF of
        None \<Rightarrow> None
      | Some data_bytes \<Rightarrow>
          if length data_bytes \<noteq> PACKET_SIZE then None else Some (scan_packet mac data_bytes))"

section \<open>Frames\<close>

text \<open>A frame of the mesh: the company identifier and a packet.\<close>

definition mesh_frame :: "emergencyPacket \<Rightarrow> u8 list" where
  "mesh_frame p = [0xFF, 0xFF] @ packet_bytes p"

lemma le_word_company: "(le_word [0xFF, 0xFF] :: u16) = 0xFFFF"
  by code_simp

lemma datagram_frame:
  assumes "wf_packet p"
  shows "datagram_received mac cache (mesh_frame p) now =
     (if (case cache (hmac_sig p) of None \<Rightarrow> False | Some t \<Rightarrow> now - t < SCAN_CACHE_TTL)
      then (cache, None)
      else (cache(hmac_sig p \<mapsto> now), Some (scan_packet mac (packet_bytes p))))"
proof -
  have s: "take 8 (hmac_sig p) = hmac_sig p" using assms by (simp add: wf_packet_def SIG_LEN_def)
  have l: "length (mesh_frame p) = PACKET_SIZE + 2" using assms by (simp add: mesh_frame_def)
  have t: "take 2 (mesh_frame p) = [0xFF, 0xFF]" "drop 2 (mesh_frame p) = packet_bytes p"
    by (simp_all add: mesh_frame_def)
  show ?thesis
    unfolding datagram_received_def Let_def t le_word_company packet_bytes_sig s by (simp add: l)
qed

lemma gps_flag: "drop_bit 7 f AND 1 \<noteq> (0 :: u8) \<longleftrightarrow> bit (flag_core f) 7"
  by (simp add: flag_core_def bit_simps and_one_eq bit_iff_odd_drop_bit odd_iff_mod_2_eq_one)

lemma scan_packet_bytes:
  assumes "wf_packet p"
  shows "scan_packet mac (packet_bytes p) =
     \<lparr>scan_phone = phone p, scan_timestamp = timestamp p, scan_ttl = packet_ttl p,
      scan_location = (if bit (flag_core (flags p)) 7
        then Coordinates (sint (gps_latitude (payload p))) (sint (gps_longitude (payload p)))
        else Nonce (unat (payload p))),
      scan_valid = verify_hmac mac (packet_bytes p)\<rparr>"
  using assms by (simp add: scan_packet_def Let_def gps_flag packet_ttl_def ttl_of_mask)

text \<open>Copies of a frame are printed again exactly when 20 ms have passed since the last print.\<close>

lemma scan_run_copies:
  assumes "wf_packet p" "cache (hmac_sig p) = Some t0" "\<forall>x \<in> set xs. fst x = mesh_frame p \<and> snd x < t0 + SCAN_CACHE_TTL"
  shows "scan_run mac cache xs = []"
  using assms(3) by (induction xs) (simp_all add: datagram_frame [OF assms(1)] assms(2))

lemma scan_run_burst:
  assumes "wf_packet p" "case cache (hmac_sig p) of None \<Rightarrow> True | Some t0 \<Rightarrow> t0 + SCAN_CACHE_TTL \<le> t"
    "\<forall>x \<in> set xs. fst x = mesh_frame p \<and> snd x < t + SCAN_CACHE_TTL"
  shows "scan_run mac cache ((mesh_frame p, t) # xs) = [scan_packet mac (packet_bytes p)]"
proof -
  have "scan_run mac (cache(hmac_sig p \<mapsto> t)) xs = []"
    by (rule scan_run_copies [OF assms(1) _ assms(3)]) simp
  with assms(2) show ?thesis
    by (auto simp: datagram_frame [OF assms(1)] split: option.splits)
qed

end
