(* ===== verification/EspNet.thy ===== *)
theory EspNet
  imports EspTasks Scanner
begin

text \<open>
  A network of ESP32 relays and gateways, each running the two tasks of esp-relay.cpp, that hear
  each other and outside senders (victims, or anyone else), and the server behind the gateways.
  Who is in range of whom is a parameter. Every relay has its own clock, Wi-Fi status and jitter,
  which are inputs of its steps; a relay that is advertising can be heard any number of times or
  not at all. The theorems say that what the network sends and the server prints was broadcast by
  an outside sender, unaltered but for the TTL.
\<close>

section \<open>Model\<close>

record esp_net =
  nodes :: "nat \<Rightarrow> tasks"
  udp_sent :: "u8 list list"

datatype esp_action =
    Outside nat "u8 list option" "u8 list" u32 bool u32
  | Hears nat nat "u8 list" u32 bool u32
  | Loops nat task_input

fun udp_packets :: "relay_event list \<Rightarrow> u8 list list" where
  "udp_packets [] = []"
| "udp_packets (UdpPacket bs # evs) = bs # udp_packets evs"
| "udp_packets (_ # evs) = udp_packets evs"

definition moved :: "esp_net \<Rightarrow> nat \<Rightarrow> tasks \<Rightarrow> relay_event list \<Rightarrow> esp_net" where
  "moved N i t evs = \<lparr>nodes = (nodes N)(i := t), udp_sent = udp_sent N @ udp_packets evs\<rparr>"

inductive esp_step :: "(nat \<Rightarrow> nat \<Rightarrow> bool) \<Rightarrow> esp_net \<Rightarrow> esp_action \<Rightarrow> esp_net \<Rightarrow> bool" for in_range where
  outside: "task_step (nodes N i) (Callback mfr mac now wifi j) evs t \<Longrightarrow>
     esp_step in_range N (Outside i mfr mac now wifi j) (moved N i t evs)"
| hears: "in_range k i \<Longrightarrow> advertising (shared (nodes N k)) \<Longrightarrow>
     task_step (nodes N i) (Callback (Some (advData (shared (nodes N k)))) mac now wifi j) evs t \<Longrightarrow>
     esp_step in_range N (Hears i k mac now wifi j) (moved N i t evs)"
| loops: "x = LoopRest \<or> (\<exists>now. x = LoopPass now) \<Longrightarrow> task_step (nodes N i) x evs t \<Longrightarrow>
     esp_step in_range N (Loops i x) (moved N i t evs)"

definition esp_init :: esp_net where
  "esp_init = \<lparr>nodes = \<lambda>_. tasks_init, udp_sent = []\<rparr>"

inductive esp_run :: "(nat \<Rightarrow> nat \<Rightarrow> bool) \<Rightarrow> esp_action list \<Rightarrow> esp_net \<Rightarrow> bool" for in_range where
  esp_start: "esp_run in_range [] esp_init"
| esp_snoc: "esp_run in_range as N \<Longrightarrow> esp_step in_range N a N' \<Longrightarrow> esp_run in_range (as @ [a]) N'"

section \<open>What gateways send\<close>

lemma frame_length_cid: "length x = 2 + PACKET_SIZE \<Longrightarrow> received_cid x = TARGET_CID \<Longrightarrow> \<exists>p. wf_packet p \<and> x = frame_bytes p"
  using frame_cases by metis

lemma udp_packets_set: "x \<in> set (udp_packets evs) \<longleftrightarrow> UdpPacket x \<in> set evs"
  by (induction evs rule: udp_packets.induct) auto

lemma onResult_udp:
  assumes "onResult s mfr mac now wifi j = Some (s', evs)" "UdpPacket x \<in> set evs"
  shows "\<exists>p. wf_packet p \<and> mfr = Some (frame_bytes p) \<and> x = frame_bytes p"
proof -
  have "pred_option (\<lambda>r. \<forall>x. UdpPacket x \<in> set (snd r) \<longrightarrow> mfr = Some x \<and> length x = 2 + PACKET_SIZE \<and> received_cid x = TARGET_CID)
      (onResult s mfr mac now wifi j)"
    by (simp add: onResult_def Let_def split: option.split prod.split hop.split)
  with assms have "mfr = Some x" "length x = 2 + PACKET_SIZE" "received_cid x = TARGET_CID" by auto
  with frame_length_cid show ?thesis by blast
qed

lemma loop_from_udp: "UdpPacket x \<notin> set (snd (loop_from s now i))"
proof (induction s now i rule: loop_from.induct)
  case (1 s now i)
  then show ?case by (subst loop_from.simps) (auto simp: Let_def split_beta)
qed

lemma loop_udp:
  assumes "task_step t x evs t'" "x = LoopRest \<or> (\<exists>now. x = LoopPass now)"
  shows "udp_packets evs = []"
proof -
  have "UdpPacket u \<notin> set evs" for u
    using assms loop_from_udp [of u "shared t"]
    by (induction rule: task_step.induct)
      (auto simp: relay_loop_def end_mark_def split: if_splits, metis snd_conv)
  then show ?thesis by (metis list.set_intros(1) neq_Nil_conv udp_packets_set)
qed

section \<open>Invariant\<close>

definition outside_packets :: "esp_action list \<Rightarrow> emergencyPacket set" where
  "outside_packets as = {p. wf_packet p \<and> (\<exists>i mac now wifi j. Outside i (Some (frame_bytes p)) mac now wifi j \<in> set as)}"

text \<open>Copies of the packets in \<open>P\<close>, and those that were relayed at least once.\<close>

definition copies :: "emergencyPacket set \<Rightarrow> emergencyPacket set" where
  "copies P = {q. wf_packet q \<and> (\<exists>p \<in> P. packet_core q = packet_core p \<and> packet_ttl q \<le> packet_ttl p)}"

definition relayed :: "emergencyPacket set \<Rightarrow> emergencyPacket set" where
  "relayed P = {q. wf_packet q \<and> (\<exists>p \<in> P. packet_core q = packet_core p \<and> packet_ttl q < packet_ttl p)}"

lemma relayed_copies: "relayed P \<subseteq> copies P"
  unfolding relayed_def copies_def by (auto intro: less_imp_le)

lemma hop_copies: "hop_packet p = Some q \<Longrightarrow> p \<in> copies P \<Longrightarrow> q \<in> relayed P"
  using hop_packet_Some [of p q] unfolding copies_def relayed_def by fastforce

lemma hops_of_copies:
  "(\<And>p. wf_packet p \<Longrightarrow> mfr = Some (frame_bytes p) \<Longrightarrow> p \<in> copies P) \<Longrightarrow> hops_of mfr \<subseteq> relayed P"
  unfolding hops_of_def using hop_copies by blast

definition esp_inv :: "emergencyPacket set \<Rightarrow> esp_net \<Rightarrow> bool" where
  "esp_inv P N \<longleftrightarrow> (\<forall>i. tasks_inv (relayed P) (nodes N i)) \<and> (\<forall>x \<in> set (udp_sent N). \<exists>q \<in> copies P. x = frame_bytes q)"

lemma esp_inv_mono: "esp_inv P N \<Longrightarrow> P \<subseteq> P' \<Longrightarrow> esp_inv P' N"
proof -
  assume "esp_inv P N" "P \<subseteq> P'"
  moreover from this(2) have "relayed P \<subseteq> relayed P'" "copies P \<subseteq> copies P'"
    by (auto simp: relayed_def copies_def)
  ultimately show ?thesis unfolding esp_inv_def using tasks_inv_mono by blast
qed

lemma air_frame:
  assumes "tasks_inv H t" "advertising (shared t)"
  obtains q where "q \<in> H" "advData (shared t) = frame_bytes q"
  using assms by (auto simp: tasks_inv_def relay_inv_def radio_ok_def split: if_splits)

lemma frame_inject: "wf_packet p \<Longrightarrow> wf_packet q \<Longrightarrow> frame_bytes p = frame_bytes q \<Longrightarrow> p = q"
  by (metis frame_packet)

lemma esp_callback:
  assumes "esp_inv P N" "task_step (nodes N i) (Callback mfr mac now wifi j) evs t"
    "\<And>p. wf_packet p \<Longrightarrow> mfr = Some (frame_bytes p) \<Longrightarrow> p \<in> copies P"
  shows "esp_inv P (moved N i t evs)"
proof -
  from assms(1) have ti: "tasks_inv (relayed P) (nodes N i)" by (simp add: esp_inv_def)
  have "relayed P \<union> input_hops (Callback mfr mac now wifi j) = relayed P"
    using hops_of_copies [OF assms(3)] by (auto simp: input_hops_def)
  with task_step_inv [OF assms(2) ti] have "tasks_inv (relayed P) t" by simp
  moreover have "\<exists>q \<in> copies P. x = frame_bytes q" if "x \<in> set (udp_packets evs)" for x
  proof -
    from assms(2) obtain s' where "onResult (shared (nodes N i)) mfr mac now wifi j = Some (s', evs)"
      by (auto elim: task_step_CallbackE)
    with that onResult_udp assms(3) show ?thesis unfolding udp_packets_set by blast
  qed
  ultimately show ?thesis using assms(1) by (auto simp: esp_inv_def moved_def)
qed

lemma esp_step_inv:
  assumes "esp_step in_range N a N'" "esp_inv (outside_packets as) N"
  shows "esp_inv (outside_packets (as @ [a])) N'"
proof -
  let ?P = "outside_packets (as @ [a])"
  have inv: "esp_inv ?P N" using assms(2)
    by (rule esp_inv_mono) (unfold outside_packets_def set_append, blast)
  from assms(1) show ?thesis
  proof cases
    case (outside i mfr mac now wifi j evs t)
    have "p \<in> copies ?P" if "wf_packet p" "mfr = Some (frame_bytes p)" for p
    proof -
      from that have "p \<in> ?P" unfolding outside_packets_def outside(1) set_append by (simp, blast)
      with that(1) show ?thesis unfolding copies_def by blast
    qed
    from esp_callback [OF inv outside(3) this] show ?thesis unfolding outside(2) .
  next
    case (hears k i mac now wifi j evs t)
    from inv have "tasks_inv (relayed ?P) (nodes N k)" by (simp add: esp_inv_def)
    from this hears(4) obtain q where q: "q \<in> relayed ?P" "advData (shared (nodes N k)) = frame_bytes q" by (rule air_frame)
    have "p \<in> copies ?P" if "wf_packet p" "Some (advData (shared (nodes N k))) = Some (frame_bytes p)" for p
      using that q frame_inject [of p q] relayed_copies [of ?P] by (auto simp: relayed_def)
    from esp_callback [OF inv hears(5) this] show ?thesis unfolding hears(2) .
  next
    case (loops x i evs t)
    from inv have "tasks_inv (relayed ?P) (nodes N i)" by (simp add: esp_inv_def)
    from task_step_inv [OF loops(4) this] loops(3) have "tasks_inv (relayed ?P) t" by (auto simp: input_hops_def)
    with inv loop_udp [OF loops(4,3)] show ?thesis by (simp add: loops(2) esp_inv_def moved_def)
  qed
qed

lemma esp_run_inv: "esp_run in_range as N \<Longrightarrow> esp_inv (outside_packets as) N"
proof (induction rule: esp_run.induct)
  case esp_start
  show ?case by (simp add: esp_inv_def esp_init_def tasks_init_inv)
next
  case (esp_snoc as N a N')
  from esp_step_inv [OF esp_snoc.hyps(2) esp_snoc.IH] show ?case .
qed

lemma scan_run_reports:
  "r \<in> set (scan_run mac cache xs) \<Longrightarrow> \<exists>x \<in> set xs. r = scan_packet mac (drop 2 (fst x))"
proof (induction xs arbitrary: cache)
  case (Cons x xs)
  obtain cache' o' where d: "datagram_received mac cache (fst x) (snd x) = (cache', o')" by fastforce
  then have "o' = None \<or> o' = Some (scan_packet mac (drop 2 (fst x)))"
    by (auto simp: datagram_received_def Let_def split: if_splits)
  with Cons d show ?case by (auto split: option.splits)
qed simp

text \<open>A gateway that hears one frame of a victim.\<close>

definition gateway_actions :: "esp_action list" where
  "gateway_actions = [Outside 0 (Some (frame_bytes sample_packet)) sample_mac 1000 True 60]"

lemma gateway_run:
  obtains N where "esp_run in_range gateway_actions N" "udp_sent N = replicate 3 (frame_bytes sample_packet)"
proof -
  have init: "cache_inv (relay_cache relay_init)" "look 1000 (relay_cache relay_init) (hmac_sig sample_packet) = None"
    by (simp_all add: relay_init_def zero_cache_inv)
  obtain s evs where r: "onResult relay_init (Some (frame_bytes sample_packet)) sample_mac 1000 True 60 = Some (s, evs)"
    "udp_packets evs = replicate 3 (frame_bytes sample_packet)"
    by (rule onResult_gateway [OF init(1) wf_sample_packet sample_shapes(1) init(2), of 60]) (auto simp: numeral_eq_Suc)
  have "task_step (nodes esp_init 0) (Callback (Some (frame_bytes sample_packet)) sample_mac 1000 True 60) evs ((nodes esp_init 0)\<lparr>shared := s\<rparr>)"
    by (rule task_step.callback) (simp_all add: esp_init_def tasks_init_def r(1) jitter_ok_def)
  from esp_run.esp_snoc [OF esp_run.esp_start esp_step.outside [OF this], of in_range]
  have "esp_run in_range gateway_actions (moved esp_init 0 ((nodes esp_init 0)\<lparr>shared := s\<rparr>) evs)"
    by (simp add: gateway_actions_def)
  then show thesis by (rule that) (simp add: moved_def esp_init_def r(2))
qed

section \<open>Properties\<close>

text \<open>
  However many relays there are, whoever hears whom and whatever outside senders
  broadcast, everything the network sends is a copy of a packet that came from outside: on air
  with a lower TTL and otherwise unaltered, over UDP with at most its TTL.
\<close>

theorem esp_net_authentic:
  assumes "esp_run in_range as N"
  shows "(\<forall>k. advertising (shared (nodes N k)) \<longrightarrow> (\<exists>p \<in> outside_packets as. \<exists>q.
      advData (shared (nodes N k)) = frame_bytes q \<and> packet_core q = packet_core p \<and> packet_ttl q < packet_ttl p)) \<and>
    (\<forall>x \<in> set (udp_sent N). \<exists>p \<in> outside_packets as. \<exists>q.
      x = frame_bytes q \<and> packet_core q = packet_core p \<and> packet_ttl q \<le> packet_ttl p)"
proof -
  note inv = esp_run_inv [OF assms]
  have "\<exists>p \<in> outside_packets as. \<exists>q. advData (shared (nodes N k)) = frame_bytes q \<and> packet_core q = packet_core p \<and> packet_ttl q < packet_ttl p"
    if "advertising (shared (nodes N k))" for k
  proof -
    from inv have "tasks_inv (relayed (outside_packets as)) (nodes N k)" by (simp add: esp_inv_def)
    from this that obtain q where "q \<in> relayed (outside_packets as)" "advData (shared (nodes N k)) = frame_bytes q" by (rule air_frame)
    then show ?thesis unfolding relayed_def by blast
  qed
  moreover have "\<forall>x \<in> set (udp_sent N). \<exists>p \<in> outside_packets as. \<exists>q.
      x = frame_bytes q \<and> packet_core q = packet_core p \<and> packet_ttl q \<le> packet_ttl p"
    using inv unfolding esp_inv_def copies_def by blast
  ultimately show ?thesis by blast
qed

theorem esp_net_authentic_witness:
  "\<exists>N p. esp_run (\<lambda>k i. True) gateway_actions N \<and> frame_bytes sample_packet \<in> set (udp_sent N) \<and>
     p \<in> outside_packets gateway_actions \<and> packet_core sample_packet = packet_core p"
proof -
  obtain N where N: "esp_run (\<lambda>k i. True) gateway_actions N" "udp_sent N = replicate 3 (frame_bytes sample_packet)"
    by (rule gateway_run)
  from N(2) have x: "frame_bytes sample_packet \<in> set (udp_sent N)" by simp
  with esp_net_authentic [OF N(1)] obtain p q where p: "p \<in> outside_packets gateway_actions"
    "frame_bytes sample_packet = frame_bytes q" "packet_core q = packet_core p" by blast
  have "wf_packet p" using p(1) by (simp add: outside_packets_def)
  then have "wf_packet q" using verify_core(1) [OF p(3)] by simp
  then have "q = sample_packet" using frame_inject [OF _ wf_sample_packet] p(2) by simp
  with N(1) x p show ?thesis by blast
qed

text \<open>
  Property C2. The server cannot be made to print what nobody broadcast: whatever subset of the
  gateways' UDP packets reaches it, in any order and at any times, each report it prints has the
  phone, timestamp and location of a packet that an outside sender broadcast, a TTL no higher, and
  is shown as valid exactly if that packet carried a valid signature.
\<close>

theorem server_reports_authentic:
  assumes "esp_run in_range as N" "\<forall>x \<in> set xs. fst x \<in> set (udp_sent N)" "r \<in> set (scan_run mac cache xs)"
  shows "\<exists>p \<in> outside_packets as. scan_phone r = phone p \<and> scan_timestamp r = timestamp p \<and>
    scan_location r = scan_location (scan_packet mac (packet_bytes p)) \<and> scan_ttl r \<le> packet_ttl p \<and>
    (scan_valid r \<longleftrightarrow> verify_hmac mac (packet_bytes p))"
proof -
  from scan_run_reports [OF assms(3)] obtain x where x: "x \<in> set xs" "r = scan_packet mac (drop 2 (fst x))" by blast
  with esp_run_inv [OF assms(1)] assms(2) obtain q where q: "q \<in> copies (outside_packets as)" "fst x = frame_bytes q"
    unfolding esp_inv_def by blast
  then obtain p where p: "p \<in> outside_packets as" "wf_packet q" "packet_core q = packet_core p" "packet_ttl q \<le> packet_ttl p"
    unfolding copies_def by blast
  have wp: "wf_packet p" using p(1) by (simp add: outside_packets_def)
  have "r = scan_packet mac (packet_bytes q)" using x(2) q(2) by simp
  then show ?thesis
    using p(1,4) packet_core_eqs [OF p(3)] verify_core(2) [OF p(3) wp, of mac]
    by (intro bexI [of _ p]) (simp_all add: scan_packet_bytes [OF p(2)] scan_packet_bytes [OF wp])
qed

theorem server_reports_authentic_witness:
  "\<exists>N r p. esp_run (\<lambda>k i. True) gateway_actions N \<and> scan_run toy_mac Map.empty [(frame_bytes sample_packet, 7)] = [r] \<and>
     p \<in> outside_packets gateway_actions \<and> scan_phone r = phone p \<and> (scan_valid r \<longleftrightarrow> verify_hmac toy_mac (packet_bytes p))"
proof -
  obtain N where N: "esp_run (\<lambda>k i. True) gateway_actions N" "udp_sent N = replicate 3 (frame_bytes sample_packet)"
    by (rule gateway_run)
  have "frame_bytes sample_packet = mesh_frame sample_packet" by (simp only: frame_bytes_eq mesh_frame_def)
  then obtain r where r: "scan_run toy_mac Map.empty [(frame_bytes sample_packet, 7)] = [r]"
    using datagram_frame [OF wf_sample_packet, of toy_mac Map.empty 7] by simp
  have "\<forall>x \<in> set [(frame_bytes sample_packet, 7 :: int)]. fst x \<in> set (udp_sent N)" by (simp add: N(2))
  from server_reports_authentic [OF N(1) this, of r toy_mac Map.empty, unfolded r] obtain p where
    "p \<in> outside_packets gateway_actions" "scan_phone r = phone p" "scan_valid r \<longleftrightarrow> verify_hmac toy_mac (packet_bytes p)"
    by auto
  with N(1) r show ?thesis by blast
qed

end
