(* ===== verification/EspChain.thy ===== *)
theory EspChain
  imports EspNet
begin

text \<open>
  A packet travels through the network of ESP32 relays: along any chain of relays that have nothing
  to send and do not know the packet, each of which hears the one before and passes its main loop
  once the jitter is over, to a gateway. The theorems of EspNet say what the network never does;
  this one says that the packet can always go on, whatever the relays outside the chain do in the
  meantime, and what is sent in the end.
\<close>

section \<open>The chain\<close>

text \<open>One relay of the chain: what it hears, when, with which jitter, and when its loop runs.\<close>

record leg =
  leg_node :: nat
  leg_mac :: "u8 list"
  leg_heard :: u32
  leg_jitter :: u32
  leg_poll :: u32

definition leg_actions :: "nat \<Rightarrow> leg \<Rightarrow> esp_action list" where
  "leg_actions k l = [Hears (leg_node l) k (leg_mac l) (leg_heard l) False (leg_jitter l), Loops (leg_node l) (LoopPass (leg_poll l))]"

fun chain_actions :: "nat \<Rightarrow> leg list \<Rightarrow> esp_action list" where
  "chain_actions k [] = []"
| "chain_actions k (l # ls) = leg_actions k l @ chain_actions (leg_node l) ls"

fun chain_in_range :: "(nat \<Rightarrow> nat \<Rightarrow> bool) \<Rightarrow> nat \<Rightarrow> leg list \<Rightarrow> bool" where
  "chain_in_range in_range k [] \<longleftrightarrow> True"
| "chain_in_range in_range k (l # ls) \<longleftrightarrow> in_range k (leg_node l) \<and> chain_in_range in_range (leg_node l) ls"

definition last_node :: "nat \<Rightarrow> leg list \<Rightarrow> nat" where
  "last_node k ls = last (k # map leg_node ls)"

text \<open>A relay with nothing to send: no row waits and no burst runs.\<close>

definition quiet :: "tasks \<Rightarrow> bool" where
  "quiet t \<longleftrightarrow> \<not> ending t \<and> relay_inv {} (shared t)"

definition leg_ok :: "u8 list \<Rightarrow> leg \<Rightarrow> tasks \<Rightarrow> bool" where
  "leg_ok v l t \<longleftrightarrow> quiet t \<and> look (leg_heard l) (relay_cache (shared t)) v = None \<and>
     wf_mac (leg_mac l) \<and> jitter_ok (leg_jitter l) \<and>
     leg_heard l < leg_heard l + CACHE_TTL_MS \<and> leg_heard l + leg_jitter l \<le> leg_poll l"

section \<open>One relay\<close>

lemma quiet_init: "quiet tasks_init"
  by (simp add: quiet_def tasks_init_def relay_init_inv)

lemma hops_of_frame: "wf_packet p \<Longrightarrow> hop_packet p = Some q \<Longrightarrow> hops_of (Some (frame_bytes p)) = {q}"
proof -
  assume p: "wf_packet p" "hop_packet p = Some q"
  have "q' = q" if "wf_packet p'" "frame_bytes p = frame_bytes p'" "hop_packet p' = Some q'" for p' q'
    using frame_inject [OF p(1) that(1,2)] that(3) p(2) by simp
  with p show ?thesis unfolding hops_of_def option.inject by blast
qed

lemma leg_step:
  assumes "leg_ok (hmac_sig p) l t" "wf_packet p" "hop_packet p = Some q"
  obtains t1 evs1 t2 evs2 where
    "task_step t (Callback (Some (frame_bytes p)) (leg_mac l) (leg_heard l) False (leg_jitter l)) evs1 t1"
    "task_step t1 (LoopPass (leg_poll l)) evs2 t2" "udp_packets evs1 = []"
    "advertising (shared t2)" "advData (shared t2) = frame_bytes q"
proof -
  let ?s = "shared t"
  have q: "quiet t" "look (leg_heard l) (relay_cache ?s) (hmac_sig p) = None" "wf_mac (leg_mac l)" "jitter_ok (leg_jitter l)"
    "leg_heard l < leg_heard l + CACHE_TTL_MS" "leg_heard l + leg_jitter l \<le> leg_poll l"
    using assms(1) by (simp_all add: leg_ok_def)
  have inv: "relay_inv {} ?s" "\<not> ending t" "cache_inv (relay_cache ?s)"
    using q(1) by (simp_all add: quiet_def relay_inv_def)
  have ttl: "1 < packet_ttl p" using hop_packet_None [of p] assms(3) by (cases "packet_ttl p \<le> 1") auto
  from onResult_queues [OF inv(3) assms(2) q(3,2) ttl, of "leg_jitter l"] obtain s1 e where
    r: "onResult ?s (Some (frame_bytes p)) (leg_mac l) (leg_heard l) False (leg_jitter l) =
      Some (s1, [StatusLine (cacheMacStatus ?s), QueueLine (leg_jitter l)])"
    and e: "\<forall>u. look u (relay_cache s1) (hmac_sig p) = (if u < leg_heard l + CACHE_TTL_MS then Some e else None)"
    "broadcast_time e = leg_heard l + leg_jitter l" "\<not> broadcasted e" "heard e = [leg_mac l]" by blast
  have "relay_inv ({} \<union> hops_of (Some (frame_bytes p))) s1"
    unfolding hops_of_def
    by (rule onResult_inv [OF inv(1) q(3), of "Some (frame_bytes p)" "leg_heard l" False "leg_jitter l"]) (simp add: r)
  then have inv1: "relay_inv {q} s1" by (simp add: hops_of_frame [OF assms(2,3)])
  have nb: "\<not> isBroadcasting s1"
    using onResult_radio [OF r] inv(1) by (simp add: same_radio_def relay_inv_def radio_ok_def)
  have c1: "cache_inv (relay_cache s1)" using inv1 by (simp add: relay_inv_def)
  have lk: "look (leg_heard l) (relay_cache s1) (hmac_sig p) = Some e" using e(1) q(5) by simp
  have b: "length (heard e) < REDUNDANCY" "broadcast_time e \<le> leg_poll l"
    using e(2,4) q(6) by (simp_all add: REDUNDANCY_def)
  obtain k where k: "k < CACHE_SIZE" "starts (leg_poll l) (entries (relay_cache s1) ! k)"
    by (rule starts_of_look [OF c1 lk e(3) b])
  obtain s2 evs2 where s2: "relay_loop s1 (leg_poll l) = Some (s2, evs2)" "advertising s2" "advData s2 = frame_bytes q"
  proof (rule relay_loop_cases [OF inv1, of "leg_poll l"])
    fix i c evs assume i: "i < CACHE_SIZE" "starts (leg_poll l) (entries (relay_cache s1) ! i)"
      "relay_loop s1 (leg_poll l) = Some (burst (s1\<lparr>relay_cache := c\<rparr>) (leg_poll l) (entries (relay_cache s1) ! i) i, evs)"
    have "entry_packet (entries (relay_cache s1) ! i) = q"
      using inv1 i(1,2) by (auto simp: relay_inv_def queue_ok_def starts_def due_def)
    with i(3) show thesis by (intro that) (auto simp: burst_def)
  qed (use nb k in auto)
  have "task_step t (Callback (Some (frame_bytes p)) (leg_mac l) (leg_heard l) False (leg_jitter l))
      [StatusLine (cacheMacStatus ?s), QueueLine (leg_jitter l)] (t\<lparr>shared := s1\<rparr>)"
    by (rule task_step.callback [OF r q(3,4)])
  moreover have "task_step (t\<lparr>shared := s1\<rparr>) (LoopPass (leg_poll l)) evs2 (t\<lparr>shared := s1, shared := s2\<rparr>)"
    by (rule task_step.loop_pass) (use inv(2) nb s2(1) in simp_all)
  ultimately show thesis by (rule that) (use s2 in simp_all)
qed

section \<open>The whole chain\<close>

lemma moved_simps [simp]:
  "nodes (moved N i t evs) = (nodes N)(i := t)" "udp_sent (moved N i t evs) = udp_sent N @ udp_packets evs"
  by (simp_all add: moved_def)

lemma last_node_simps [simp]: "last_node k [] = k" "last_node k (l # ls) = last_node (leg_node l) ls"
  by (simp_all add: last_node_def)

lemma distinct_legs: "distinct (map f (l # ls)) \<Longrightarrow> x \<in> set ls \<Longrightarrow> f x \<noteq> f l"
  by (metis distinct.simps(2) imageI list.simps(9) list.set_map)

definition airs :: "esp_net \<Rightarrow> nat \<Rightarrow> emergencyPacket \<Rightarrow> bool" where
  "airs N k p \<longleftrightarrow> advertising (shared (nodes N k)) \<and> advData (shared (nodes N k)) = frame_bytes p"

text \<open>The first relay's reception is a parameter: from outside, or from another relay.\<close>

lemma leg_run:
  assumes "esp_run in_range as N" "leg_ok (hmac_sig p) l (nodes N (leg_node l))" "wf_packet p" "hop_packet p = Some q"
    "\<And>evs t. task_step (nodes N (leg_node l)) (Callback (Some (frame_bytes p)) (leg_mac l) (leg_heard l) False (leg_jitter l)) evs t \<Longrightarrow>
       esp_step in_range N a (moved N (leg_node l) t evs)"
  obtains N' where "esp_run in_range (as @ [a, Loops (leg_node l) (LoopPass (leg_poll l))]) N'" "airs N' (leg_node l) q"
    "udp_sent N' = udp_sent N" "\<And>i. i \<noteq> leg_node l \<Longrightarrow> nodes N' i = nodes N i"
proof -
  let ?i = "leg_node l"
  obtain t1 evs1 t2 evs2 where
    st: "task_step (nodes N ?i) (Callback (Some (frame_bytes p)) (leg_mac l) (leg_heard l) False (leg_jitter l)) evs1 t1"
      "task_step t1 (LoopPass (leg_poll l)) evs2 t2"
    and r: "udp_packets evs1 = []" "advertising (shared t2)" "advData (shared t2) = frame_bytes q"
    by (rule leg_step [OF assms(2-4)])
  let ?N1 = "moved N ?i t1 evs1"
  have "esp_run in_range (as @ [a]) ?N1"
    by (rule esp_run.esp_snoc [OF assms(1) assms(5) [OF st(1)]])
  moreover have "esp_step in_range ?N1 (Loops ?i (LoopPass (leg_poll l))) (moved ?N1 ?i t2 evs2)"
    by (rule esp_step.loops) (use st(2) in simp_all)
  ultimately have "esp_run in_range ((as @ [a]) @ [Loops ?i (LoopPass (leg_poll l))]) (moved ?N1 ?i t2 evs2)"
    by (rule esp_run.esp_snoc)
  then have "esp_run in_range (as @ [a, Loops ?i (LoopPass (leg_poll l))]) (moved ?N1 ?i t2 evs2)" by simp
  then show thesis by (rule that) (use r loop_udp [OF st(2)] in \<open>simp_all add: airs_def\<close>)
qed

lemma chain_run:
  assumes "esp_run in_range as N" "airs N k p" "wf_packet p" "relay_chain hop_packet (length ls) p = Some q"
    "chain_in_range in_range k ls" "distinct (map leg_node ls)" "\<forall>l \<in> set ls. leg_ok (hmac_sig p) l (nodes N (leg_node l))"
  shows "\<exists>N'. esp_run in_range (as @ chain_actions k ls) N' \<and> airs N' (last_node k ls) q \<and> udp_sent N' = udp_sent N \<and>
    (\<forall>i. i \<notin> leg_node ` set ls \<longrightarrow> nodes N' i = nodes N i)"
  using assms
proof (induction ls arbitrary: as N k p)
  case Nil
  then show ?case by auto
next
  case (Cons l ls)
  from Cons.prems(4) obtain p1 where p1: "hop_packet p = Some p1" "relay_chain hop_packet (length ls) p1 = Some q"
    by (auto simp: bind_eq_Some_conv)
  note w = hop_wf [OF p1(1) Cons.prems(3)]
  have leg: "leg_ok (hmac_sig p) l (nodes N (leg_node l))" using Cons.prems(7) by simp
  have "esp_step in_range N (Hears (leg_node l) k (leg_mac l) (leg_heard l) False (leg_jitter l)) (moved N (leg_node l) t evs)"
    if "task_step (nodes N (leg_node l)) (Callback (Some (frame_bytes p)) (leg_mac l) (leg_heard l) False (leg_jitter l)) evs t" for evs t
    using that Cons.prems(2,5) by (intro esp_step.hears) (simp_all add: airs_def)
  from leg_run [OF Cons.prems(1) leg Cons.prems(3) p1(1) this]
  obtain N1 where N1: "esp_run in_range (as @ leg_actions k l) N1" "airs N1 (leg_node l) p1"
    "udp_sent N1 = udp_sent N" "\<And>i. i \<noteq> leg_node l \<Longrightarrow> nodes N1 i = nodes N i"
    unfolding leg_actions_def by metis
  have "\<forall>x \<in> set ls. leg_ok (hmac_sig p1) x (nodes N1 (leg_node x))"
  proof
    fix x assume x: "x \<in> set ls"
    with Cons.prems(6) have "leg_node x \<noteq> leg_node l" by (rule distinct_legs)
    with N1(4) w Cons.prems(7) x show "leg_ok (hmac_sig p1) x (nodes N1 (leg_node x))" by simp
  qed
  with Cons.IH [OF N1(1,2) _ p1(2)] w Cons.prems(5,6) obtain N' where
    "esp_run in_range ((as @ leg_actions k l) @ chain_actions (leg_node l) ls) N'" "airs N' (last_node (leg_node l) ls) q"
    "udp_sent N' = udp_sent N1" "\<forall>i. i \<notin> leg_node ` set ls \<longrightarrow> nodes N' i = nodes N1 i"
    by auto
  with N1(3,4) show ?case by (intro exI [of _ N']) auto
qed

section \<open>To the gateway\<close>

text \<open>
  The journey of a packet: the first node of the chain hears the frame \<open>x\<close> from outside, the last
  step is that of the gateway \<open>g\<close>.
\<close>

fun to_gateway :: "u8 list \<Rightarrow> leg list \<Rightarrow> esp_action list" where
  "to_gateway x [] = []"
| "to_gateway x (l # ls) =
     [Outside (leg_node l) (Some x) (leg_mac l) (leg_heard l) False (leg_jitter l), Loops (leg_node l) (LoopPass (leg_poll l))] @
     chain_actions (leg_node l) ls"

fun arrival :: "u8 list \<Rightarrow> leg list \<Rightarrow> leg \<Rightarrow> esp_action" where
  "arrival x [] g = Outside (leg_node g) (Some x) (leg_mac g) (leg_heard g) True (leg_jitter g)"
| "arrival x (l # ls) g = Hears (leg_node g) (last_node (leg_node l) ls) (leg_mac g) (leg_heard g) True (leg_jitter g)"

definition journey :: "u8 list \<Rightarrow> leg list \<Rightarrow> leg \<Rightarrow> esp_action list" where
  "journey x ls g = to_gateway x ls @ [arrival x ls g]"

fun path_in_range :: "(nat \<Rightarrow> nat \<Rightarrow> bool) \<Rightarrow> leg list \<Rightarrow> bool" where
  "path_in_range in_range [] \<longleftrightarrow> True"
| "path_in_range in_range (l # ls) \<longleftrightarrow> chain_in_range in_range (leg_node l) ls"

definition gateway_ok :: "u8 list \<Rightarrow> leg \<Rightarrow> tasks \<Rightarrow> bool" where
  "gateway_ok v g t \<longleftrightarrow> look (leg_heard g) (relay_cache (shared t)) v = None \<and> wf_mac (leg_mac g) \<and> jitter_ok (leg_jitter g)"

lemma chain_in_range_append:
  "chain_in_range in_range k (ls @ [g]) \<longleftrightarrow> chain_in_range in_range k ls \<and> in_range (last_node k ls) (leg_node g)"
  by (induction ls arbitrary: k) auto

lemma tasks_cache_inv: "tasks_inv H t \<Longrightarrow> cache_inv (relay_cache (shared t))"
  by (auto simp: tasks_inv_def relay_inv_def split: if_splits)

lemma gateway_hop:
  assumes "esp_run in_range as N" "gateway_ok (hmac_sig q) g (nodes N (leg_node g))" "wf_packet q"
    "\<And>evs t. task_step (nodes N (leg_node g)) (Callback (Some (frame_bytes q)) (leg_mac g) (leg_heard g) True (leg_jitter g)) evs t \<Longrightarrow>
       esp_step in_range N a (moved N (leg_node g) t evs)"
  shows "\<exists>N'. esp_step in_range N a N' \<and> udp_sent N' = udp_sent N @ replicate 3 (frame_bytes q)"
proof -
  let ?t = "nodes N (leg_node g)"
  have "tasks_inv (relayed (outside_packets as)) ?t" using esp_run_inv [OF assms(1)] by (simp add: esp_inv_def)
  then have c: "cache_inv (relay_cache (shared ?t))" by (rule tasks_cache_inv)
  have g: "wf_mac (leg_mac g)" "jitter_ok (leg_jitter g)" "look (leg_heard g) (relay_cache (shared ?t)) (hmac_sig q) = None"
    using assms(2) by (simp_all add: gateway_ok_def)
  obtain s evs where r: "onResult (shared ?t) (Some (frame_bytes q)) (leg_mac g) (leg_heard g) True (leg_jitter g) = Some (s, evs)"
    "udp_packets evs = replicate 3 (frame_bytes q)"
    by (rule onResult_gateway [OF c assms(3) g(1,3), of "leg_jitter g"]) (auto simp: numeral_eq_Suc)
  from assms(4) [OF task_step.callback [OF r(1) g(1,2)]] r(2) show ?thesis by (intro exI conjI) auto
qed

lemma chain_reaches_gateway:
  assumes "esp_run in_range as N" "wf_packet p" "relay_chain hop_packet (length ls) p = Some q"
    "path_in_range in_range (ls @ [g])" "distinct (map leg_node (ls @ [g]))"
    "\<forall>l \<in> set ls. leg_ok (hmac_sig p) l (nodes N (leg_node l))" "gateway_ok (hmac_sig p) g (nodes N (leg_node g))"
  shows "\<exists>M N'. esp_run in_range (as @ to_gateway (frame_bytes p) ls) M \<and> esp_step in_range M (arrival (frame_bytes p) ls g) N' \<and>
    udp_sent N' = udp_sent M @ replicate 3 (frame_bytes q)"
proof (cases ls)
  case Nil
  with assms(3,7) gateway_hop [OF assms(1), of q g] assms(1,2) esp_step.outside show ?thesis by fastforce
next
  case (Cons l ls')
  from assms(3) Cons obtain p1 where p1: "hop_packet p = Some p1" "relay_chain hop_packet (length ls') p1 = Some q"
    by (auto simp: bind_eq_Some_conv)
  note w = hop_wf [OF p1(1) assms(2)]
  have path: "chain_in_range in_range (leg_node l) ls'" "in_range (last_node (leg_node l) ls') (leg_node g)"
    using assms(4) Cons by (simp_all add: chain_in_range_append)
  have leg: "leg_ok (hmac_sig p) l (nodes N (leg_node l))" using assms(6) Cons by simp
  from leg_run [OF assms(1) leg assms(2) p1(1) esp_step.outside] obtain N1 where
    N1: "esp_run in_range (as @ [Outside (leg_node l) (Some (frame_bytes p)) (leg_mac l) (leg_heard l) False (leg_jitter l),
      Loops (leg_node l) (LoopPass (leg_poll l))]) N1" "airs N1 (leg_node l) p1" "udp_sent N1 = udp_sent N"
    "\<And>i. i \<noteq> leg_node l \<Longrightarrow> nodes N1 i = nodes N i" by metis
  have ok: "\<forall>x \<in> set ls'. leg_ok (hmac_sig p1) x (nodes N1 (leg_node x))"
  proof
    fix x assume x: "x \<in> set ls'"
    have "distinct (map leg_node (l # ls'))" using assms(5) Cons by simp
    from this x have "leg_node x \<noteq> leg_node l" by (rule distinct_legs)
    with N1(4) w assms(6) Cons x show "leg_ok (hmac_sig p1) x (nodes N1 (leg_node x))" by simp
  qed
  have dist: "distinct (map leg_node ls')" "leg_node g \<notin> leg_node ` set ls'" "leg_node g \<noteq> leg_node l"
    using assms(5) Cons by auto
  from chain_run [OF N1(1,2) _ p1(2) path(1) dist(1) ok] w obtain N2 where
    N2: "esp_run in_range (as @ [Outside (leg_node l) (Some (frame_bytes p)) (leg_mac l) (leg_heard l) False (leg_jitter l),
      Loops (leg_node l) (LoopPass (leg_poll l))] @ chain_actions (leg_node l) ls') N2" "airs N2 (last_node (leg_node l) ls') q"
    "udp_sent N2 = udp_sent N" "nodes N2 (leg_node g) = nodes N (leg_node g)"
    using N1(3,4) dist(2,3) by auto
  have q: "wf_packet q" "hmac_sig q = hmac_sig p"
    using packet_core_eqs [OF ttl.chain_core [OF assms(3)]] verify_core(1) [OF ttl.chain_core [OF assms(3)] assms(2)] by simp_all
  have "esp_step in_range N2 (Hears (leg_node g) (last_node (leg_node l) ls') (leg_mac g) (leg_heard g) True (leg_jitter g)) (moved N2 (leg_node g) t evs)"
    if "task_step (nodes N2 (leg_node g)) (Callback (Some (frame_bytes q)) (leg_mac g) (leg_heard g) True (leg_jitter g)) evs t" for evs t
    using that N2(2) path(2) by (intro esp_step.hears) (simp_all add: airs_def)
  with gateway_hop [OF N2(1), of q g] assms(7) N2(1,3,4) q Cons show ?thesis by auto
qed

section \<open>Among the steps of others\<close>

text \<open>Who makes a step. A run can be read off its actions: every step has one outcome.\<close>

fun actor :: "esp_action \<Rightarrow> nat" where
  "actor (Outside i _ _ _ _ _) = i"
| "actor (Hears i _ _ _ _ _) = i"
| "actor (Loops i _) = i"

fun sources_in :: "nat set \<Rightarrow> esp_action \<Rightarrow> bool" where
  "sources_in C (Hears i k _ _ _ _) \<longleftrightarrow> k \<in> C"
| "sources_in C _ \<longleftrightarrow> True"

lemma task_step_det: "task_step t x evs t' \<Longrightarrow> task_step t x evs' t'' \<Longrightarrow> evs' = evs \<and> t'' = t'"
  by (induction rule: task_step.induct)
    (auto elim!: task_step_CallbackE task_step_LoopPassE task_step_LoopRestE)

text \<open>A step looks at its node, and at the node that is heard, and changes its node only.\<close>

lemma esp_step_local:
  assumes "esp_step in_range N a N'" "nodes M (actor a) = nodes N (actor a)"
    "\<And>k. k \<in> C \<Longrightarrow> nodes M k = nodes N k" "sources_in C a"
  shows "\<exists>M' new. esp_step in_range M a M' \<and> nodes M' (actor a) = nodes N' (actor a) \<and>
    (\<forall>i. i \<noteq> actor a \<longrightarrow> nodes M' i = nodes M i \<and> nodes N' i = nodes N i) \<and>
    udp_sent N' = udp_sent N @ new \<and> udp_sent M' = udp_sent M @ new"
  using assms(1)
proof cases
  case (outside i mfr mac now wifi j evs t)
  with assms(2) have "esp_step in_range M a (moved M i t evs)" by (auto intro: esp_step.outside)
  with outside show ?thesis by (intro exI [of _ "moved M i t evs"] exI [of _ "udp_packets evs"]) simp
next
  case (hears k i mac now wifi j evs t)
  with assms(2-4) have "esp_step in_range M a (moved M i t evs)" by (auto intro: esp_step.hears)
  with hears show ?thesis by (intro exI [of _ "moved M i t evs"] exI [of _ "udp_packets evs"]) simp
next
  case (loops x i evs t)
  with assms(2) have "esp_step in_range M a (moved M i t evs)" by (auto intro: esp_step.loops)
  with loops show ?thesis by (intro exI [of _ "moved M i t evs"] exI [of _ "udp_packets evs"]) simp
qed

lemma esp_step_det: "esp_step in_range N a N' \<Longrightarrow> esp_step in_range N a N'' \<Longrightarrow> N'' = N'"
  by (induction rule: esp_step.induct; erule esp_step.cases; auto dest: task_step_det)

lemma esp_run_snocE:
  assumes "esp_run in_range (as @ [a]) N'"
  obtains N where "esp_run in_range as N" "esp_step in_range N a N'"
  using assms by (cases rule: esp_run.cases) auto

lemma esp_run_det: "esp_run in_range as N \<Longrightarrow> esp_run in_range as N' \<Longrightarrow> N' = N"
proof (induction arbitrary: N' rule: esp_run.induct)
  case esp_start
  then show ?case by (cases rule: esp_run.cases) auto
next
  case (esp_snoc as N a N1)
  from esp_snoc.prems obtain M where "esp_run in_range as M" "esp_step in_range M a N'" by (rule esp_run_snocE)
  with esp_snoc show ?case by (metis esp_step_det)
qed

lemma esp_run_prefix: "esp_run in_range (as @ bs) N' \<Longrightarrow> \<exists>N. esp_run in_range as N"
proof (induction bs arbitrary: N' rule: rev_induct)
  case (snoc b bs)
  from snoc.prems have "esp_run in_range ((as @ bs) @ [b]) N'" by simp
  then show ?case by (rule esp_run_snocE) (rule snoc.IH)
qed auto

text \<open>
  What the nodes of \<open>C\<close> do, when they hear only each other and senders outside, does not depend on
  the other nodes: without these, they reach the same states.
\<close>

abbreviation of_nodes :: "nat set \<Rightarrow> esp_action list \<Rightarrow> esp_action list" where
  "of_nodes C \<equiv> filter (\<lambda>a. actor a \<in> C)"

lemma run_of_nodes:
  assumes "esp_run in_range (as @ bs) N'" "\<forall>a \<in> set (of_nodes C bs). sources_in C a"
  shows "\<exists>M. esp_run in_range (as @ of_nodes C bs) M \<and> (\<forall>i \<in> C. nodes M i = nodes N' i)"
  using assms
proof (induction bs arbitrary: N' rule: rev_induct)
  case Nil
  then show ?case by auto
next
  case (snoc b bs)
  from snoc.prems(1) have "esp_run in_range ((as @ bs) @ [b]) N'" by simp
  then obtain N where N: "esp_run in_range (as @ bs) N" "esp_step in_range N b N'" by (rule esp_run_snocE)
  from snoc.IH [OF N(1)] snoc.prems(2) obtain M where
    M: "esp_run in_range (as @ of_nodes C bs) M" "\<forall>i \<in> C. nodes M i = nodes N i" by auto
  show ?case
  proof (cases "actor b \<in> C")
    case True
    then have "sources_in C b" using snoc.prems(2) by simp
    from esp_step_local [OF N(2) _ _ this, of M] M(2) True obtain M' where M': "esp_step in_range M b M'"
      "nodes M' (actor b) = nodes N' (actor b)" "\<forall>i. i \<noteq> actor b \<longrightarrow> nodes M' i = nodes M i \<and> nodes N' i = nodes N i" by auto
    have "\<forall>i \<in> C. nodes M' i = nodes N' i" using M(2) M'(2,3) by metis
    with esp_run.esp_snoc [OF M(1) M'(1)] True show ?thesis by auto
  next
    case False
    from N(2) have "\<forall>i. i \<noteq> actor b \<longrightarrow> nodes N' i = nodes N i"
      by (auto simp: moved_def elim: esp_step.cases)
    with M False have "\<forall>i \<in> C. nodes M i = nodes N' i" by metis
    with M(1) False show ?thesis by auto
  qed
qed

text \<open>All steps of a journey are made by the nodes of its chain, and they hear only each other.\<close>

lemma chain_sources: "k \<in> C \<Longrightarrow> leg_node ` set ls \<subseteq> C \<Longrightarrow> \<forall>a \<in> set (chain_actions k ls). sources_in C a"
  by (induction ls arbitrary: k) (auto simp: leg_actions_def)

lemma last_node_in: "last_node k ls \<in> insert k (leg_node ` set ls)"
  by (induction ls arbitrary: k) auto

lemma journey_sources: "\<forall>a \<in> set (journey x ls g). sources_in (leg_node ` set (ls @ [g])) a"
proof (cases ls)
  case (Cons l ls')
  with last_node_in [of "leg_node l" ls'] chain_sources [of "leg_node l" "leg_node ` set (ls @ [g])" ls'] show ?thesis
    by (auto simp: journey_def)
qed (simp add: journey_def)

lemma journey_actors: "actor ` set (journey x ls g) \<subseteq> leg_node ` set (ls @ [g])"
proof -
  have "actor ` set (chain_actions k ls) \<subseteq> leg_node ` set ls" for k ls
    by (induction ls arbitrary: k) (auto simp: leg_actions_def)
  then show ?thesis by (cases ls) (auto simp: journey_def)
qed

text \<open>
  A packet on its way, with the steps of all other nodes in between: the next step of the journey
  is always possible, and with the last one the gateway has sent the packet three times.
\<close>

lemma journey_goes_on:
  assumes "esp_run in_range as N" "wf_packet p" "relay_chain hop_packet (length ls) p = Some q"
    "path_in_range in_range (ls @ [g])" "distinct (map leg_node (ls @ [g]))"
    "\<forall>l \<in> set ls. leg_ok (hmac_sig p) l (nodes N (leg_node l))" "gateway_ok (hmac_sig p) g (nodes N (leg_node g))"
    "esp_run in_range (as @ bs) N1" "journey (frame_bytes p) ls g = of_nodes (leg_node ` set (ls @ [g])) bs @ a # rest"
  shows "\<exists>N2. esp_step in_range N1 a N2 \<and> (rest = [] \<longrightarrow> udp_sent N2 = udp_sent N1 @ replicate 3 (frame_bytes q))"
proof -
  let ?C = "leg_node ` set (ls @ [g])" and ?x = "frame_bytes p"
  let ?js = "of_nodes ?C bs"
  obtain G N' where G: "esp_run in_range (as @ to_gateway ?x ls) G" "esp_step in_range G (arrival ?x ls g) N'"
    "udp_sent N' = udp_sent G @ replicate 3 (frame_bytes q)"
    using chain_reaches_gateway [OF assms(1-7)] by blast
  have "esp_run in_range (as @ journey ?x ls g) N'"
    using esp_run.esp_snoc [OF G(1,2)] by (simp add: journey_def)
  then have "esp_run in_range ((as @ ?js @ [a]) @ rest) N'" by (simp add: assms(9))
  then obtain M' where "esp_run in_range ((as @ ?js) @ [a]) M'" using esp_run_prefix by fastforce
  then obtain M where M: "esp_run in_range (as @ ?js) M" "esp_step in_range M a M'" by (rule esp_run_snocE)
  have src: "\<forall>b \<in> set (journey ?x ls g). sources_in ?C b" by (rule journey_sources)
  then have "\<forall>b \<in> set ?js. sources_in ?C b" "sources_in ?C a" unfolding assms(9) by simp_all
  from run_of_nodes [OF assms(8) this(1)] esp_run_det [OF M(1)] have same: "\<forall>i \<in> ?C. nodes N1 i = nodes M i" by metis
  have "actor a \<in> ?C" using journey_actors [of ?x ls g] unfolding assms(9) by auto
  then obtain N2 new where N2: "esp_step in_range N1 a N2" "udp_sent M' = udp_sent M @ new" "udp_sent N2 = udp_sent N1 @ new"
    using esp_step_local [OF M(2), of N1 ?C] same \<open>sources_in ?C a\<close> by auto
  have "new = replicate 3 (frame_bytes q)" if "rest = []"
  proof -
    from assms(9) that have "to_gateway ?x ls = ?js" "arrival ?x ls g = a" by (simp_all add: journey_def)
    with G M esp_run_det esp_step_det have "M = G" "M' = N'" by metis+
    with G(3) N2(2) show ?thesis by simp
  qed
  with N2 show ?thesis by auto
qed

lemma journey_completes:
  assumes "esp_run in_range as N" "wf_packet p" "relay_chain hop_packet (length ls) p = Some q"
    "path_in_range in_range (ls @ [g])" "distinct (map leg_node (ls @ [g]))"
    "\<forall>l \<in> set ls. leg_ok (hmac_sig p) l (nodes N (leg_node l))" "gateway_ok (hmac_sig p) g (nodes N (leg_node g))"
    "esp_run in_range (as @ bs) N1" "journey (frame_bytes p) ls g = of_nodes (leg_node ` set (ls @ [g])) bs @ rest"
  shows "\<exists>N2. esp_run in_range (as @ bs @ rest) N2"
  using assms(8,9)
proof (induction rest arbitrary: bs N1)
  case (Cons a rest)
  from journey_goes_on [OF assms(1-7) Cons.prems] obtain N2 where "esp_step in_range N1 a N2" by blast
  with Cons.prems(1) have run: "esp_run in_range (as @ bs @ [a]) N2" by (metis append.assoc esp_run.esp_snoc)
  have "actor a \<in> leg_node ` set (ls @ [g])" using journey_actors [of "frame_bytes p" ls g] unfolding Cons.prems(2) by auto
  then have "journey (frame_bytes p) ls g = of_nodes (leg_node ` set (ls @ [g])) (bs @ [a]) @ rest"
    using Cons.prems(2) by simp
  from Cons.IH [OF run this] show ?case by simp
qed auto

end
