(* ===== verification/EspStorm.thy ===== *)
theory EspStorm
  imports EspTasks
begin

text \<open>
  Storm suppression in esp-relay.cpp, over whole runs of the two tasks: while the entry of a
  signature lives, whatever is received, queued, sent or cancelled in between, its counter goes on
  counting the senders, and once it has counted four the main loop starts no burst for it.
\<close>

section \<open>Runs from a state\<close>

inductive tasks_from :: "tasks \<Rightarrow> task_input list \<Rightarrow> tasks \<Rightarrow> bool" for t0 where
  from_start: "tasks_from t0 [] t0"
| from_snoc: "tasks_from t0 xs t \<Longrightarrow> task_step t x evs t' \<Longrightarrow> tasks_from t0 (xs @ [x]) t'"

lemma task_run_from: "tasks_from t0 xs t \<Longrightarrow> task_run ys t0 \<Longrightarrow> task_run (ys @ xs) t"
proof (induction rule: tasks_from.induct)
  case (from_snoc xs t x evs t')
  from task_run.task_snoc [OF from_snoc.IH [OF from_snoc.prems] from_snoc.hyps(2)] show ?case by simp
qed simp

text \<open>Who a signature was heard from, what came in at all, and when.\<close>

definition senders :: "u8 list \<Rightarrow> task_input list \<Rightarrow> u8 list set" where
  "senders h xs = {mac. \<exists>p now wifi j. wf_packet p \<and> hmac_sig p = h \<and> Callback (Some (frame_bytes p)) mac now wifi j \<in> set xs}"

definition came_in :: "task_input list \<Rightarrow> u8 list set" where
  "came_in xs = {hmac_sig p | p. wf_packet p \<and> (\<exists>mac now wifi j. Callback (Some (frame_bytes p)) mac now wifi j \<in> set xs)}"

fun heard_before :: "u32 \<Rightarrow> task_input \<Rightarrow> bool" where
  "heard_before T (Callback mfr mac now wifi j) \<longleftrightarrow> now < T"
| "heard_before T _ \<longleftrightarrow> True"

definition table_sigs :: "timeAwareCache \<Rightarrow> u8 list set" where
  "table_sigs c = {entry_hmac (entries c ! k) | k. k < CACHE_SIZE \<and> active (entries c ! k)}"

section \<open>What is kept\<close>

text \<open>
  The row of the signature is there until \<open>T\<close> and has counted the senders in \<open>S\<close>, or four; and
  all signatures of the table are in \<open>V\<close>.
\<close>

definition counts :: "u8 list \<Rightarrow> u32 \<Rightarrow> u8 list set \<Rightarrow> cacheEntry \<Rightarrow> bool" where
  "counts h T S e \<longleftrightarrow> active e \<and> entry_hmac e = h \<and> expires_at e = T \<and>
     (set (heard e) = S \<or> unat (rx_count e) = MAX_TRACKED_MACS)"

definition counted :: "u8 list set \<Rightarrow> u8 list \<Rightarrow> u32 \<Rightarrow> u8 list set \<Rightarrow> timeAwareCache \<Rightarrow> bool" where
  "counted V h T S c \<longleftrightarrow> table_sigs c \<subseteq> V \<and> (\<exists>k < CACHE_SIZE. counts h T S (entries c ! k))"

lemma counts_hear:
  assumes "wf_entry e" "wf_mac mac" "counts h T S e"
  shows "counts h T (insert mac S) (hear_mac e mac)"
proof (cases "mac \<in> set (heard e) \<or> unat (rx_count e) = MAX_TRACKED_MACS")
  case True
  with assms hear_mac_same [OF assms(1,2)] show ?thesis by (auto simp: counts_def)
next
  case False
  then have "unat (rx_count e) < MAX_TRACKED_MACS" using assms(1) by (simp add: wf_entry_def)
  with False assms hear_mac_new [OF assms(1,2)] show ?thesis by (auto simp: counts_def)
qed

lemma counts_live: "counts h T S e \<Longrightarrow> now < T \<Longrightarrow> live now e"
  by (simp add: counts_def live_def)

text \<open>Operations that change neither signatures nor counters of active rows, but may clear dead ones.\<close>

lemma counted_rows:
  assumes "counted V h T S c"
    "\<And>k. k < CACHE_SIZE \<Longrightarrow> active (entries c' ! k) \<Longrightarrow> active (entries c ! k) \<and> entry_hmac (entries c' ! k) = entry_hmac (entries c ! k)"
    "\<And>k. k < CACHE_SIZE \<Longrightarrow> counts h T S (entries c ! k) \<Longrightarrow> counts h T S' (entries c' ! k)"
  shows "counted V h T S' c'"
proof -
  have "table_sigs c' \<subseteq> table_sigs c" using assms(2) unfolding table_sigs_def by blast
  with assms(1,3) show ?thesis unfolding counted_def by blast
qed

lemma counted_check:
  assumes "counted V h T S c" "cache_inv c" "wf_hash g" "wf_mac mac" "now < T"
  shows "counted V h T (if g = h then insert mac S else S) (note_sighting now c g mac)"
proof -
  have wf: "wf_cache c" using assms(2) by (simp add: cache_inv_def)
  have len: "length (entries c) = CACHE_SIZE" using wf by (simp add: wf_cache_def)
  show ?thesis
  proof (rule checkCache_cases [OF wf assms(3), of now mac None])
    fix j c'
    assume hit: "j < CACHE_SIZE" "known_as now g (entries c ! j)" "checkCache c g now mac None = (c', Some StatusDrop, int j)"
      and nth: "\<And>k. k < CACHE_SIZE \<Longrightarrow> entries c' ! k =
         (if k = j then hear_mac (entries c ! j) mac else if k < j then purge now (entries c ! k) else entries c ! k)"
    have "counts h T (if g = h then insert mac S else S) (entries c' ! k)"
      if k: "k < CACHE_SIZE" "counts h T S (entries c ! k)" for k
    proof (cases "k = j")
      case True
      then have "g = h" using k(2) hit(2) by (simp add: counts_def known_as_def)
      with True nth [OF k(1)] counts_hear [OF wf_cache_nth [OF wf k(1)] assms(4) k(2)] show ?thesis by simp
    next
      case False
      have "entry_hmac (entries c ! k) \<noteq> entry_hmac (entries c ! j)"
        using False k hit(1,2) assms(2) by (auto simp: cache_inv_def unique_hashes_def counts_def known_as_def live_def)
      then have "g \<noteq> h" using k(2) hit(2) by (simp add: counts_def known_as_def)
      with False nth [OF k(1)] purge_live [OF counts_live [OF k(2) assms(5)]] k(2) show ?thesis by simp
    qed
    then have "counted V h T (if g = h then insert mac S else S) c'"
      by (rule_tac counted_rows [OF assms(1)]) (use nth in \<open>auto simp: live_def split: if_splits\<close>)
    with hit(3) show ?thesis by (simp add: note_sighting_def)
  next
    fix c'
    assume miss: "\<And>k. k < CACHE_SIZE \<Longrightarrow> \<not> known_as now g (entries c ! k)"
      "checkCache c g now mac None = (c', None, -1)" "entries c' = map (purge now) (entries c)"
    have "counts h T (if g = h then insert mac S else S) (entries c' ! k)"
      if k: "k < CACHE_SIZE" "counts h T S (entries c ! k)" for k
    proof -
      note l = counts_live [OF k(2) assms(5)]
      then have "g \<noteq> h" using miss(1) [OF k(1)] k(2) by (auto simp: known_as_def counts_def)
      with miss(3) k len purge_live [OF l] show ?thesis by simp
    qed
    then have "counted V h T (if g = h then insert mac S else S) c'"
      by (rule_tac counted_rows [OF assms(1)]) (use miss(3) len in \<open>auto simp: live_def\<close>)
    with miss(2) show ?thesis by (simp add: note_sighting_def)
  qed
qed

text \<open>With at most 256 signatures in play, a new one finds a dead row.\<close>

lemma dead_row:
  assumes "cache_inv c" "table_sigs c \<subseteq> V" "g \<in> V" "finite V" "card V \<le> CACHE_SIZE" "look now c g = None"
  obtains k where "k < CACHE_SIZE" "\<not> live now (entries c ! k)"
proof (rule ccontr)
  assume "\<not> thesis"
  with that have all: "\<And>k. k < CACHE_SIZE \<Longrightarrow> live now (entries c ! k)" by blast
  let ?f = "\<lambda>k. entry_hmac (entries c ! k)"
  have "inj_on ?f {..<CACHE_SIZE}"
    using all assms(1) by (auto simp: inj_on_def cache_inv_def unique_hashes_def live_def)
  then have "card (?f ` {..<CACHE_SIZE}) = CACHE_SIZE" by (simp add: card_image)
  moreover have "?f ` {..<CACHE_SIZE} \<subseteq> V - {g}"
    using all assms(2,6) by (auto simp: look_None_iff [OF assms(1)] table_sigs_def known_as_def live_def)
  then have "card (?f ` {..<CACHE_SIZE}) \<le> card (V - {g})" using assms(4) by (intro card_mono) simp_all
  ultimately show False using assms(3-5) card_Diff1_less [of V g] by simp
qed

lemma counted_add:
  assumes "counted V h T S c" "cache_inv c" "wf_packet q" "wf_mac mac" "now < T" "look now c (hmac_sig q) = None"
    "hmac_sig q \<in> V" "finite V" "card V \<le> CACHE_SIZE"
  shows "counted V h T S (fst (addToCache c (hmac_sig q) q now jitter mac))"
proof -
  have wf: "wf_cache c" "wf_hash (hmac_sig q)" using assms(2,3) by (simp_all add: cache_inv_def)
  obtain d where d: "d < CACHE_SIZE" "\<not> live now (entries c ! d)"
    using dead_row [OF assms(2) _ assms(7-9,6)] assms(1) by (auto simp: counted_def)
  obtain idx c' where a: "idx < CACHE_SIZE" "addToCache c (hmac_sig q) q now jitter mac = (c', int idx)"
    "entries c' ! idx = fill_entry (purge now (entries c ! idx)) (hmac_sig q) q now jitter mac"
    and other: "\<And>k. k < CACHE_SIZE \<Longrightarrow> k \<noteq> idx \<Longrightarrow> entries c' ! k = purge now (entries c ! k)"
    and vict: "\<not> live now (entries c ! idx)"
    by (rule addToCache_cases [OF wf assms(3,4), of now jitter]) (use d in blast)
  have "entry_hmac (entries c' ! idx) = hmac_sig q"
    using fill_entry_wf(1) [OF wf_purge [OF wf_cache_nth [OF wf(1) a(1)]] wf(2) assms(3,4)] a(3) by simp
  then have "entry_hmac (entries c' ! k) \<in> V" if "k < CACHE_SIZE" "active (entries c' ! k)" for k
    using that other [OF that(1)] assms(1,7) by (cases "k = idx") (auto simp: counted_def table_sigs_def live_def)
  moreover obtain k where k: "k < CACHE_SIZE" "counts h T S (entries c ! k)" using assms(1) by (auto simp: counted_def)
  then have "counts h T S (entries c' ! k)"
    using counts_live [OF k(2) assms(5)] vict other [OF k(1)] by (cases "k = idx") (simp_all add: purge_live)
  ultimately show ?thesis using k(1) a(2) by (auto simp: counted_def table_sigs_def)
qed

lemma counted_mark:
  assumes "counted V h T S c" "wf_cache c" "mark_broadcasted c loc = Some c'"
  shows "counted V h T S c'"
  by (rule counted_rows [OF assms(1)])
    (use assms(2,3) in \<open>auto simp: mark_broadcasted_def wf_cache_def counts_def heard_def nth_list_update split: if_splits\<close>)

lemma counted_gateway:
  assumes "counted V h T S c" "cache_inv c" "wf_packet p" "wf_mac mac" "now < T" "look now c (hmac_sig p) = None"
    "hmac_sig p \<in> V" "finite V" "card V \<le> CACHE_SIZE" "gateway_cache c st p now mac = Some (c3, st3)"
  shows "counted V h T S c3"
proof -
  let ?g = "hmac_sig p"
  let ?c1 = "fst (addToCache c ?g p now 0 mac)"
  have g: "wf_hash ?g" "?g \<noteq> h"
  proof -
    from assms(1) obtain k where k: "k < CACHE_SIZE" "counts h T S (entries c ! k)" by (auto simp: counted_def)
    with assms(6) counts_live [OF k(2) assms(5)] show "?g \<noteq> h"
      by (auto simp: look_None_iff [OF assms(2)] known_as_def counts_def)
  qed (use assms(3) in simp)
  have inv1: "cache_inv ?c1" using assms(2-4,6) by (rule addToCache_inv_look)
  have c1: "counted V h T S ?c1" using assms by (intro counted_add)
  let ?c2 = "note_sighting now ?c1 ?g mac"
  have c2: "counted V h T S ?c2" using counted_check [OF c1 inv1 g(1) assms(4,5)] g(2) by simp
  have wf2: "wf_cache ?c2" using cache.inv_touch [OF inv1 g(1) assms(4)] by (simp add: cache_inv_def)
  obtain st2 loc where r: "checkCache ?c1 ?g now mac st = (?c2, st2, loc)"
    using fst_checkCache [of ?c1 ?g now mac st] by (metis prod.collapse)
  then have "gateway_cache c st p now mac =
      (if loc \<noteq> -1 then map_option (\<lambda>c3. (c3, st2)) (mark_broadcasted ?c2 loc) else Some (?c2, st2))"
    by (simp add: gateway_cache_def Let_def split_beta)
  with assms(10) c2 counted_mark [OF c2 wf2] show ?thesis by (auto split: if_splits)
qed

section \<open>The steps\<close>

lemma counted_callback:
  assumes "counted V h T S (relay_cache s)" "cache_inv (relay_cache s)" "wf_mac mac" "now < T"
    "onResult s mfr mac now wifi j = Some (s', evs)" "came_in [Callback mfr mac now wifi j] \<subseteq> V" "finite V" "card V \<le> CACHE_SIZE"
  shows "counted V h T (S \<union> senders h [Callback mfr mac now wifi j]) (relay_cache s')"
proof (cases "\<exists>raw. mfr = Some raw \<and> length raw = 2 + PACKET_SIZE \<and> received_cid raw = TARGET_CID")
  case False
  then have "onResult s mfr mac now wifi j = Some (s, [])" by (intro onResult_other) (cases mfr, auto)
  moreover have "senders h [Callback mfr mac now wifi j] = {}" using False by (auto simp: senders_def)
  ultimately show ?thesis using assms(1,5) by simp
next
  case True
  then obtain p where p: "wf_packet p" "mfr = Some (frame_bytes p)" by (metis frame_cases)
  let ?g = "hmac_sig p" and ?c = "relay_cache s"
  let ?S = "S \<union> senders h [Callback mfr mac now wifi j]" and ?c1 = "note_sighting now ?c ?g mac"
  have g: "wf_hash ?g" "?g \<in> V" using p assms(6) by (auto simp: came_in_def)
  have "senders h [Callback mfr mac now wifi j] = (if ?g = h then {mac} else {})"
    using p frame_packet by (auto simp: senders_def) (metis frame_packet)+
  then have S: "?S = (if ?g = h then insert mac S else S)" by simp
  have c1: "counted V h T ?S ?c1" unfolding S by (rule counted_check [OF assms(1,2) g(1) assms(3,4)])
  have inv1: "cache_inv ?c1" using cache.inv_touch [OF assms(2) g(1) assms(3)] .
  have look1: "look now ?c ?g = None \<Longrightarrow> look now ?c1 ?g = None"
    using cache.known_touch [OF assms(2) g(1) assms(3), of now ?g] by simp
  show ?thesis
  proof (rule onResult_frame [OF assms(2) p(1) assms(3), where now = now and wifi = wifi and j = j])
    fix c2 st2
    assume g2: "look now ?c ?g = None" "gateway_cache ?c1 (cacheMacStatus s) p now mac = Some (c2, st2)"
      "onResult s (Some (frame_bytes p)) mac now wifi j = Some (s\<lparr>relay_cache := c2, cacheMacStatus := st2\<rparr>, [StatusLine (cacheMacStatus s),
           UdpPacket (frame_bytes p), UdpPacket (frame_bytes p), UdpPacket (frame_bytes p), ExitLine])"
    with counted_gateway [OF c1 inv1 p(1) assms(3,4) look1 [OF g2(1)] g(2) assms(7,8) g2(2)] assms(5) p(2)
    show ?thesis by auto
  next
    fix q
    assume q: "look now ?c ?g = None" "hop_packet p = Some q"
      "onResult s (Some (frame_bytes p)) mac now wifi j =
         Some (s\<lparr>relay_cache := fst (addToCache ?c1 (hmac_sig q) q now j mac)\<rparr>, [StatusLine (cacheMacStatus s), QueueLine j])"
    have wq: "wf_packet q" "hmac_sig q = ?g" using hop_wf [OF q(2) p(1)] by simp_all
    with counted_add [OF c1 inv1 wq(1) assms(3,4)] look1 [OF q(1)] g(2) assms(5,7,8) p(2) q(3) show ?thesis by auto
  qed (use c1 assms(5) p(2) in auto)
qed

lemma counted_cancelled:
  "counted V h T S c \<Longrightarrow> cancelled now c c' i j \<Longrightarrow> counted V h T S c'"
  by (rule counted_rows [of V h T S c])
    (auto simp: cancelled_def counts_def heard_def cancel_def split: if_splits)

lemma counted_loop:
  assumes "counted V h T S (relay_cache s)" "wf_cache (relay_cache s)" "relay_loop s now = Some (s', evs)"
  shows "counted V h T S (relay_cache s')"
proof (cases "isBroadcasting s")
  case True
  with assms(3) counted_mark [OF assms(1,2)] assms(1) show ?thesis
    by (auto simp: relay_loop_def split: if_splits)
next
  case False
  have len: "length (entries (relay_cache s)) = CACHE_SIZE" using assms(2) by (simp add: wf_cache_def)
  from False assms(3) have l: "loop_from s now 0 = (s', evs)" by (simp add: relay_loop_def)
  with loop_from_spec [OF len, of 0 now] counted_cancelled [OF assms(1)] show ?thesis
    by (auto simp: loop_result_def burst_def)
qed

lemma counted_step:
  assumes "task_step t x evs t'" "counted V h T S (relay_cache (shared t))" "tasks_inv H t" "heard_before T x"
    "came_in [x] \<subseteq> V" "finite V" "card V \<le> CACHE_SIZE"
  shows "counted V h T (S \<union> senders h [x]) (relay_cache (shared t'))"
proof -
  have inv: "cache_inv (relay_cache (shared t))"
    using assms(3) by (auto simp: tasks_inv_def relay_inv_def split: if_splits)
  then have wf: "wf_cache (relay_cache (shared t))" by (simp add: cache_inv_def)
  from assms(1) show ?thesis
  proof cases
    case (callback mfr mac now wifi j s')
    with counted_callback [OF assms(2) inv callback(4) _ callback(3)] assms(4-7) show ?thesis by simp
  next
    case (loop_pass now s')
    with counted_loop [OF assms(2) wf loop_pass(5)] show ?thesis by (simp add: senders_def)
  next
    case (loop_end now)
    with assms(2) show ?thesis by (simp add: senders_def end_air_def)
  next
    case (loop_rest s')
    with assms(2) counted_mark [OF assms(2) wf] show ?thesis by (auto simp: senders_def end_mark_def)
  qed
qed

lemma senders_snoc: "senders h (xs @ [x]) = senders h xs \<union> senders h [x]"
  by (auto simp: senders_def)

lemma came_in_snoc: "came_in (xs @ [x]) = came_in xs \<union> came_in [x]"
  unfolding came_in_def set_append Un_iff by blast

lemma counted_run:
  assumes "tasks_from t0 xs t" "task_run ys t0" "counted V h T S (relay_cache (shared t0))"
    "\<forall>x \<in> set xs. heard_before T x" "came_in xs \<subseteq> V" "finite V" "card V \<le> CACHE_SIZE"
  shows "counted V h T (S \<union> senders h xs) (relay_cache (shared t))"
  using assms
proof (induction rule: tasks_from.induct)
  case from_start
  then show ?case by (simp add: senders_def)
next
  case (from_snoc xs t x evs t')
  note inv = task_run_inv [OF task_run_from [OF from_snoc.hyps(1) from_snoc.prems(1)]]
  have c: "counted V h T (S \<union> senders h xs) (relay_cache (shared t))"
    by (rule from_snoc.IH) (use from_snoc.prems in \<open>auto simp: came_in_snoc [of xs x]\<close>)
  have "counted V h T (S \<union> senders h xs \<union> senders h [x]) (relay_cache (shared t'))"
    by (rule counted_step [OF from_snoc.hyps(2) c inv]) (use from_snoc.prems in \<open>auto simp: came_in_snoc [of xs x]\<close>)
  then show ?case by (simp only: senders_snoc [of h xs x] Un_assoc)
qed

lemma counts_stops: "counts h T S e \<Longrightarrow> wf_entry e \<Longrightarrow> REDUNDANCY \<le> card S \<Longrightarrow> \<not> starts now e"
  using distinct_card [of "heard e"] length_heard [of e]
  by (auto simp: counts_def wf_entry_def starts_def REDUNDANCY_def MAX_TRACKED_MACS_def)

lemma table_sigs_zero: "table_sigs (relay_cache relay_init) = {}"
  by (auto simp: table_sigs_def relay_init_def zero_cache_def zero_entry_def)

section \<open>Property\<close>

text \<open>
  Property C12. Storm suppression. Take a state the two tasks can reach in which a signature is
  known, and any further run, with all its receptions, stores, bursts and cancellations, whose
  receptions fall into the life of the entry (2 seconds as a 32-bit clock counts them). Once the
  frames with this signature have come from four different senders, counting those noted before,
  no pass of the main loop starts a burst for it; it can only be sent again after its entry has
  expired and it is received anew. The table must not be full of other packets: at most 256
  signatures are in it or come in.
\<close>

theorem relay_storm_suppressed:
  assumes "task_run ys t0" "look now0 (relay_cache (shared t0)) h = Some e0" "tasks_from t0 xs t"
    "\<forall>x \<in> set xs. heard_before (expires_at e0) x"
    "table_sigs (relay_cache (shared t0)) \<union> came_in xs \<subseteq> V" "finite V" "card V \<le> CACHE_SIZE"
    "REDUNDANCY \<le> card (set (heard e0) \<union> senders h xs)"
    "task_step t (LoopPass now) evs t'"
  shows "\<forall>k. ForwardLine k \<in> set evs \<longrightarrow> entry_hmac (entries (relay_cache (shared t)) ! k) \<noteq> h"
proof (intro allI impI notI)
  fix k
  assume f: "ForwardLine k \<in> set evs" and eq: "entry_hmac (entries (relay_cache (shared t)) ! k) = h"
  have inv0: "cache_inv (relay_cache (shared t0))"
    using task_run_inv [OF assms(1)] by (auto simp: tasks_inv_def relay_inv_def split: if_splits)
  then have "counted V h (expires_at e0) (set (heard e0)) (relay_cache (shared t0))"
    using assms(2,5) by (auto simp: counted_def counts_def look_Some_iff known_as_def live_def)
  from counted_run [OF assms(3,1) this assms(4) _ assms(6,7)] assms(5) obtain i where
    i: "i < CACHE_SIZE" "counts h (expires_at e0) (set (heard e0) \<union> senders h xs) (entries (relay_cache (shared t)) ! i)"
    by (auto simp: counted_def)
  note inv = task_run_inv [OF task_run_from [OF assms(3,1)]]
  from assms(9) f have nb: "\<not> ending t" and loop: "\<not> (isBroadcasting (shared t) \<and> broadcastEndTime (shared t) \<le> now)"
    "\<exists>s'. relay_loop (shared t) now = Some (s', evs)" by (auto elim: task_step_LoopPassE)
  then have rinv: "relay_inv (task_hopped (ys @ xs)) (shared t)" using inv by (simp add: tasks_inv_def)
  have k: "k < CACHE_SIZE \<and> starts now (entries (relay_cache (shared t)) ! k)"
    by (rule relay_loop_cases [OF rinv, of now]) (use f loop in auto)
  have c: "cache_inv (relay_cache (shared t))" using rinv by (simp add: relay_inv_def)
  have "k = i"
    using c k i eq unfolding cache_inv_def unique_hashes_def
    by (metis counts_def due_def starts_def waiting_def)
  with k counts_stops [OF i(2) _ assms(8)] c i(1) show False by (auto simp: cache_inv_def wf_cache_nth)
qed

text \<open>A packet is queued, and heard from three more senders before its delay is over.\<close>

definition storm_inputs :: "task_input list" where
  "storm_inputs = map (\<lambda>m. Callback (Some (frame_bytes sample_packet)) m 1010 False 60)
     [[1, 2, 3, 4, 5, 6], [2, 2, 3, 4, 5, 6], [3, 2, 3, 4, 5, 6]]"

lemma storm_input:
  "Callback mfr m now wifi j \<in> set storm_inputs \<Longrightarrow> mfr = Some (frame_bytes sample_packet) \<and>
     m \<in> {[1, 2, 3, 4, 5, 6], [2, 2, 3, 4, 5, 6], [3, 2, 3, 4, 5, 6]}"
  unfolding storm_inputs_def list.map list.set by blast

lemma callback_possible:
  assumes "task_run xs t" "wf_mac mac" "jitter_ok j"
  obtains evs t' where "task_step t (Callback mfr mac now wifi j) evs t'"
  by (rule callback_inv [OF task_run_inv [OF assms(1)] assms(2), of mfr now wifi j])
    (use task_step.callback [OF _ assms(2,3)] that in blast)

lemma callbacks_possible:
  assumes "task_run ys t0" "\<forall>x \<in> set xs. \<exists>mfr mac now wifi j. x = Callback mfr mac now wifi j \<and> wf_mac mac \<and> jitter_ok j"
  shows "\<exists>t. tasks_from t0 xs t \<and> ending t = ending t0 \<and> isBroadcasting (shared t) = isBroadcasting (shared t0)"
  using assms(2)
proof (induction xs rule: rev_induct)
  case Nil
  show ?case by (blast intro: tasks_from.from_start)
next
  case (snoc x xs)
  then obtain t where t: "tasks_from t0 xs t" "ending t = ending t0" "isBroadcasting (shared t) = isBroadcasting (shared t0)" by auto
  from snoc.prems obtain mfr mac now wifi j where x: "x = Callback mfr mac now wifi j" "wf_mac mac" "jitter_ok j" by auto
  obtain evs t' where t': "task_step t x evs t'"
    using callback_possible [OF task_run_from [OF t(1) assms(1)] x(2,3), of mfr now wifi] x(1) by metis
  then have "ending t' = ending t \<and> isBroadcasting (shared t') = isBroadcasting (shared t)"
    unfolding x(1) using onResult_radio by (auto elim!: task_step_CallbackE simp: same_radio_def)
  with t t' show ?case by (metis tasks_from.from_snoc)
qed

lemma table_sigs_card: "finite (table_sigs c) \<and> card (table_sigs c) \<le> CACHE_SIZE"
proof -
  have s: "table_sigs c \<subseteq> (\<lambda>k. entry_hmac (entries c ! k)) ` {..<CACHE_SIZE}" by (auto simp: table_sigs_def)
  have "card ((\<lambda>k. entry_hmac (entries c ! k)) ` {..<CACHE_SIZE}) \<le> card {..<CACHE_SIZE}" by (rule card_image_le) simp
  with finite_subset [OF s] card_mono [OF _ s] show ?thesis by simp
qed

theorem relay_storm_suppressed_witness:
  "\<exists>t0 t evs t'. task_run [Callback (Some (frame_bytes sample_packet)) sample_mac 1000 False 60] t0 \<and>
     tasks_from t0 storm_inputs t \<and> task_step t (LoopPass 1500) evs t' \<and>
     (\<forall>k. ForwardLine k \<in> set evs \<longrightarrow> entry_hmac (entries (relay_cache (shared t)) ! k) \<noteq> hmac_sig sample_packet)"
proof -
  let ?h = "hmac_sig sample_packet" and ?first = "Callback (Some (frame_bytes sample_packet)) sample_mac 1000 False 60"
  have init: "cache_inv (relay_cache relay_init)" "look 1000 (relay_cache relay_init) ?h = None" "1 < packet_ttl sample_packet"
    by (simp_all add: relay_init_def zero_cache_inv)
  from onResult_queues [OF init(1) wf_sample_packet sample_shapes(1) init(2,3), of 60] obtain s e evs0 where
    r: "onResult relay_init (Some (frame_bytes sample_packet)) sample_mac 1000 False 60 = Some (s, evs0)"
    and l: "\<forall>t. look t (relay_cache s) ?h = (if t < 1000 + CACHE_TTL_MS then Some e else None)" "heard e = [sample_mac]" by blast
  let ?t0 = "tasks_init\<lparr>shared := s\<rparr>"
  have "task_step tasks_init ?first evs0 ?t0"
    by (rule task_step.callback) (simp_all add: tasks_init_def r jitter_ok_def)
  from task_run.task_snoc [OF task_run.task_start this] have t0: "task_run [?first] ?t0" by simp
  have look0: "look 1000 (relay_cache (shared ?t0)) ?h = Some e" using l(1) by (simp add: CACHE_TTL_MS_def)
  have inv0: "cache_inv (relay_cache s)"
    using task_run_inv [OF t0] by (simp add: tasks_inv_def tasks_init_def relay_inv_def)
  have look1: "look 1010 (relay_cache s) ?h = Some e" using l(1) by (simp add: CACHE_TTL_MS_def)
  then have before: "\<forall>x \<in> set storm_inputs. heard_before (expires_at e) x"
    by (auto simp: look_Some_iff [OF inv0] known_as_def live_def storm_inputs_def)
  have sig: "hmac_sig p = ?h" if "wf_packet p" "frame_bytes p = frame_bytes sample_packet" for p
    using frame_packet [OF that(1)] frame_packet [OF wf_sample_packet] that(2) by simp
  obtain k where "k < CACHE_SIZE" "active (entries (relay_cache s) ! k)" "entry_hmac (entries (relay_cache s) ! k) = ?h"
    using look1 by (auto simp: look_Some_iff [OF inv0] known_as_def live_def)
  then have "?h \<in> table_sigs (relay_cache s)" unfolding table_sigs_def mem_Collect_eq by (intro exI [of _ k]) simp
  moreover have "came_in storm_inputs \<subseteq> {?h}"
  proof
    fix g assume "g \<in> came_in storm_inputs"
    then obtain p mac now wifi j where p: "g = hmac_sig p" "wf_packet p"
      "Callback (Some (frame_bytes p)) mac now wifi j \<in> set storm_inputs" unfolding came_in_def by blast
    from storm_input [OF p(3)] have "frame_bytes p = frame_bytes sample_packet" by blast
    with sig [OF p(2)] p(1) show "g \<in> {?h}" by (simp only: singleton_iff)
  qed
  ultimately have V: "table_sigs (relay_cache (shared ?t0)) \<union> came_in storm_inputs \<subseteq> table_sigs (relay_cache s)" by auto
  have "{[1, 2, 3, 4, 5, 6], [2, 2, 3, 4, 5, 6], [3, 2, 3, 4, 5, 6]} \<subseteq> senders ?h storm_inputs"
    unfolding senders_def storm_inputs_def list.map list.set using wf_sample_packet by blast
  then have sub: "{sample_mac, [1, 2, 3, 4, 5, 6], [2, 2, 3, 4, 5, 6], [3, 2, 3, 4, 5, 6]} \<subseteq> set (heard e) \<union> senders ?h storm_inputs"
    by (auto simp: l(2))
  have fin: "finite (set (heard e) \<union> senders ?h storm_inputs)"
  proof -
    have "senders ?h storm_inputs \<subseteq> {[1, 2, 3, 4, 5, 6], [2, 2, 3, 4, 5, 6], [3, 2, 3, 4, 5, 6]}"
      using storm_input unfolding senders_def by blast
    from finite_subset [OF this] show ?thesis by simp
  qed
  have four: "REDUNDANCY \<le> card (set (heard e) \<union> senders ?h storm_inputs)"
    using card_mono [OF fin sub] by (simp add: REDUNDANCY_def sample_mac_def card_insert_if)
  have m: "\<forall>x \<in> set storm_inputs. \<exists>mfr mac now wifi j. x = Callback mfr mac now wifi j \<and> wf_mac mac \<and> jitter_ok j"
    by (simp add: storm_inputs_def wf_mac_def MAC_LEN_def jitter_ok_def) blast
  obtain t where t: "tasks_from ?t0 storm_inputs t" "\<not> ending t" "\<not> isBroadcasting (shared t)"
    using callbacks_possible [OF t0 m] onResult_radio [OF r] by (auto simp: tasks_init_def relay_init_def same_radio_def)
  have "relay_inv (task_hopped ([?first] @ storm_inputs)) (shared t)"
    using task_run_inv [OF task_run_from [OF t(1) t0]] t(2) by (simp add: tasks_inv_def)
  then obtain s' evs where "relay_loop (shared t) 1500 = Some (s', evs)" by (rule relay_loop_inv)
  with t(2,3) have st: "task_step t (LoopPass 1500) evs (t\<lparr>shared := s'\<rparr>)" by (intro task_step.loop_pass) simp_all
  from relay_storm_suppressed [OF t0 look0 t(1) before V _ _ four st] table_sigs_card t0 t(1) st show ?thesis by blast
qed

end
