(* ===== verification/CacheBounds.thy ===== *)
theory CacheBounds
  imports EspTasks "HOL-Library.Monad_Syntax"
begin

text \<open>
  timeAwareCache.cpp and the two tasks of esp-relay.cpp once more, with every array access checked:
  the table, its rows of sender addresses, the addresses, the hashes and the received bytes. An
  access outside of an array, which in the code would read or corrupt other memory, is None. The
  lemmas show that on well-formed tables each checked operation returns what the unchecked one of
  TimeAwareCache and EspRelay returns, so the silent treatment of a bad index there (\<open>xs ! i\<close>,
  \<open>xs[i := x]\<close>) never matters; the property says so for every state the tasks can reach.
\<close>

section \<open>Checked accesses\<close>

definition elem_at :: "'a list \<Rightarrow> int \<Rightarrow> 'a option" where
  "elem_at xs i = (if 0 \<le> i \<and> i < int (length xs) then Some (xs ! nat i) else None)"

definition elem_put :: "'a list \<Rightarrow> int \<Rightarrow> 'a \<Rightarrow> 'a list option" where
  "elem_put xs i x = (if 0 \<le> i \<and> i < int (length xs) then Some (xs[nat i := x]) else None)"

definition chk_memeq :: "nat \<Rightarrow> 'a list \<Rightarrow> 'a list \<Rightarrow> bool option" where
  "chk_memeq n a b = (if n \<le> length a \<and> n \<le> length b then Some (memeq n a b) else None)"

definition chk_memcpy :: "'a list \<Rightarrow> 'a list \<Rightarrow> nat \<Rightarrow> 'a list option" where
  "chk_memcpy dst src n = (if n \<le> length dst \<and> n \<le> length src then Some (memcpy dst src n) else None)"

definition put_entry :: "timeAwareCache \<Rightarrow> int \<Rightarrow> cacheEntry \<Rightarrow> timeAwareCache option" where
  "put_entry c i e = map_option (\<lambda>es. c\<lparr>entries := es\<rparr>) (elem_put (entries c) i e)"

section \<open>The cache\<close>

function chk_mac_known_from :: "cacheEntry \<Rightarrow> u8 list \<Rightarrow> nat \<Rightarrow> bool option" where
  "chk_mac_known_from e mac j =
     (if j < unat (rx_count e) \<and> j < MAX_TRACKED_MACS
      then do {
        row \<leftarrow> elem_at (seen_macs e) (int j);
        same \<leftarrow> chk_memeq MAC_LEN row mac;
        if same then Some True else chk_mac_known_from e mac (Suc j)
      }
      else Some False)"
  by pat_completeness auto
termination
  by (relation "measure (\<lambda>(e, mac, j). MAX_TRACKED_MACS - j)") auto

declare chk_mac_known_from.simps [simp del]

definition chk_hear_mac :: "cacheEntry \<Rightarrow> u8 list \<Rightarrow> cacheEntry option" where
  "chk_hear_mac e mac = do {
     mac_known \<leftarrow> chk_mac_known_from e mac 0;
     if \<not> mac_known \<and> unat (rx_count e) < MAX_TRACKED_MACS
     then do {
       row \<leftarrow> elem_at (seen_macs e) (uint (rx_count e));
       row' \<leftarrow> chk_memcpy row mac MAC_LEN;
       macs \<leftarrow> elem_put (seen_macs e) (uint (rx_count e)) row';
       Some (e\<lparr>seen_macs := macs, rx_count := rx_count e + 1\<rparr>)
     }
     else Some e
   }"

function chk_checkCache_from :: "timeAwareCache \<Rightarrow> u8 list \<Rightarrow> u32 \<Rightarrow> u8 list \<Rightarrow> mac_status option \<Rightarrow> nat \<Rightarrow>
    (timeAwareCache \<times> mac_status option \<times> int) option" where
  "chk_checkCache_from c h now mac st i =
     (if i < CACHE_SIZE
      then do {
        e \<leftarrow> elem_at (entries c) (int i);
        if active e
        then (if now \<ge> expires_at e
              then do {
                c' \<leftarrow> put_entry c (int i) (e\<lparr>active := False\<rparr>);
                chk_checkCache_from c' h now mac st (Suc i)
              }
              else do {
                same \<leftarrow> chk_memeq HASH_SIZE (entry_hmac e) h;
                if same
                then do {
                  e' \<leftarrow> chk_hear_mac e mac;
                  c' \<leftarrow> put_entry c (int i) e';
                  Some (c', mac_status_after e mac st, int i)
                }
                else chk_checkCache_from c h now mac st (Suc i)
              })
        else chk_checkCache_from c h now mac st (Suc i)
      }
      else Some (c, st, -1))"
  by pat_completeness auto
termination
  by (relation "measure (\<lambda>(c, h, now, mac, st, i). CACHE_SIZE - i)") auto

declare chk_checkCache_from.simps [simp del]

definition chk_checkCache :: "timeAwareCache \<Rightarrow> u8 list \<Rightarrow> u32 \<Rightarrow> u8 list \<Rightarrow> mac_status option \<Rightarrow>
    (timeAwareCache \<times> mac_status option \<times> int) option" where
  "chk_checkCache c h now mac st = chk_checkCache_from c h now mac st 0"

function chk_purge_from :: "timeAwareCache \<Rightarrow> u32 \<Rightarrow> int \<Rightarrow> nat \<Rightarrow> (timeAwareCache \<times> int) option" where
  "chk_purge_from c now target i =
     (if i < CACHE_SIZE
      then do {
        e \<leftarrow> elem_at (entries c) (int i);
        if \<not> active e \<or> now \<ge> expires_at e
        then do {
          c' \<leftarrow> put_entry c (int i) (e\<lparr>active := False\<rparr>);
          chk_purge_from c' now (if target = -1 then int i else target) (Suc i)
        }
        else chk_purge_from c now target (Suc i)
      }
      else Some (c, target))"
  by pat_completeness auto
termination
  by (relation "measure (\<lambda>(c, now, target, i). CACHE_SIZE - i)") auto

declare chk_purge_from.simps [simp del]

function chk_oldest_from :: "timeAwareCache \<Rightarrow> u32 \<Rightarrow> int \<Rightarrow> nat \<Rightarrow> int option" where
  "chk_oldest_from c oldest_time target i =
     (if i < CACHE_SIZE
      then do {
        e \<leftarrow> elem_at (entries c) (int i);
        if expires_at e < oldest_time
        then chk_oldest_from c (expires_at e) (int i) (Suc i)
        else chk_oldest_from c oldest_time target (Suc i)
      }
      else Some target)"
  by pat_completeness auto
termination
  by (relation "measure (\<lambda>(c, t, target, i). CACHE_SIZE - i)") auto

declare chk_oldest_from.simps [simp del]

definition chk_fill_entry :: "cacheEntry \<Rightarrow> u8 list \<Rightarrow> emergencyPacket \<Rightarrow> u32 \<Rightarrow> u32 \<Rightarrow> u8 list \<Rightarrow> cacheEntry option" where
  "chk_fill_entry e h p now jitter mac = do {
     hmac \<leftarrow> chk_memcpy (entry_hmac e) h HASH_SIZE;
     row \<leftarrow> elem_at (seen_macs e) 0;
     row' \<leftarrow> chk_memcpy row mac MAC_LEN;
     macs \<leftarrow> elem_put (seen_macs e) 0 row';
     Some (e\<lparr>entry_hmac := hmac, entry_packet := p, expires_at := now + CACHE_TTL_MS,
       broadcast_time := now + jitter, rx_count := 1, seen_macs := macs, active := True, broadcasted := False\<rparr>)
   }"

definition chk_addToCache :: "timeAwareCache \<Rightarrow> u8 list \<Rightarrow> emergencyPacket \<Rightarrow> u32 \<Rightarrow> u32 \<Rightarrow> u8 list \<Rightarrow>
    (timeAwareCache \<times> int) option" where
  "chk_addToCache c h p now jitter mac = do {
     (c1, target) \<leftarrow> chk_purge_from c now (-1) 0;
     idx \<leftarrow> (if target = -1 then chk_oldest_from c1 0xFFFFFFFF 0 0 else Some target);
     e \<leftarrow> elem_at (entries c1) idx;
     e' \<leftarrow> chk_fill_entry e h p now jitter mac;
     c2 \<leftarrow> put_entry c1 idx e';
     Some (c2, idx)
   }"

section \<open>The tasks\<close>

definition chk_received_cid :: "u8 list \<Rightarrow> u16 option" where
  "chk_received_cid raw = do {
     lo \<leftarrow> elem_at raw 0;
     hi \<leftarrow> elem_at raw 1;
     Some (ucast lo OR push_bit 8 (ucast hi))
   }"

text \<open>\<open>memcpy(&packet, payloadRaw + 2, sizeof(emergencyPacket))\<close>\<close>

definition chk_packet_at :: "u8 list \<Rightarrow> emergencyPacket option" where
  "chk_packet_at raw = (if 2 + PACKET_SIZE \<le> length raw then Some (bytes_packet (take PACKET_SIZE (drop 2 raw))) else None)"

definition chk_mark :: "timeAwareCache \<Rightarrow> int \<Rightarrow> timeAwareCache option" where
  "chk_mark c loc = do {
     e \<leftarrow> elem_at (entries c) loc;
     put_entry c loc (e\<lparr>broadcasted := True\<rparr>)
   }"

definition chk_gateway_cache :: "timeAwareCache \<Rightarrow> mac_status option \<Rightarrow> emergencyPacket \<Rightarrow> u32 \<Rightarrow> u8 list \<Rightarrow>
    (timeAwareCache \<times> mac_status option) option" where
  "chk_gateway_cache c st p now mac = do {
     (c1, _) \<leftarrow> chk_addToCache c (hmac_sig p) p now 0 mac;
     (c2, st2, newLoc) \<leftarrow> chk_checkCache c1 (hmac_sig p) now mac st;
     if newLoc \<noteq> -1 then map_option (\<lambda>c3. (c3, st2)) (chk_mark c2 newLoc) else Some (c2, st2)
   }"

definition chk_onResult :: "relay \<Rightarrow> u8 list option \<Rightarrow> u8 list \<Rightarrow> u32 \<Rightarrow> bool \<Rightarrow> u32 \<Rightarrow>
    (relay \<times> relay_event list) option" where
  "chk_onResult s mfr senderMAC now wifi randomJitter =
     (case mfr of
        None \<Rightarrow> Some (s, [])
      | Some raw \<Rightarrow>
          if length raw = 2 + PACKET_SIZE
          then do {
            cid \<leftarrow> chk_received_cid raw;
            if cid = TARGET_CID
            then do {
              p \<leftarrow> chk_packet_at raw;
              (c1, st1, location) \<leftarrow> chk_checkCache (relay_cache s) (hmac_sig p) now senderMAC (cacheMacStatus s);
              let s1 = s\<lparr>relay_cache := c1, cacheMacStatus := st1\<rparr> in
              if location = -1
              then (if wifi
                    then do {
                      (c2, st2) \<leftarrow> chk_gateway_cache c1 st1 p now senderMAC;
                      Some (s1\<lparr>relay_cache := c2, cacheMacStatus := st2\<rparr>,
                        [StatusLine st1, UdpPacket raw, UdpPacket raw, UdpPacket raw, ExitLine])
                    }
                    else (case ttl_hop p of
                        HopForward q \<Rightarrow> do {
                          (c2, _) \<leftarrow> chk_addToCache c1 (hmac_sig q) q now randomJitter senderMAC;
                          Some (s1\<lparr>relay_cache := c2\<rparr>, [StatusLine st1, QueueLine randomJitter])
                        }
                      | HopExpired \<Rightarrow> Some (s1, [StatusLine st1, TtlExpiredLine])
                      | HopIgnored \<Rightarrow> Some (s1, [StatusLine st1])))
              else Some (s1, [StatusLine st1, InCacheLine])
            }
            else Some (s, [])
          }
          else Some (s, []))"

function chk_loop_from :: "relay \<Rightarrow> u32 \<Rightarrow> nat \<Rightarrow> (relay \<times> relay_event list) option" where
  "chk_loop_from s now i =
     (if i < CACHE_SIZE
      then do {
        e \<leftarrow> elem_at (entries (relay_cache s)) (int i);
        if active e \<and> \<not> broadcasted e \<and> now \<ge> broadcast_time e
        then (if unat (rx_count e) < REDUNDANCY
              then Some (s\<lparr>scanning := False, advData := frame_bytes (entry_packet e), led := True,
                           advertising := True, isBroadcasting := True,
                           broadcastEndTime := now + BROADCAST_BURST, currentBroadcastIndex := int i\<rparr>,
                         [StartLine, ForwardLine i])
              else do {
                c' \<leftarrow> chk_mark (relay_cache s) (int i);
                (s2, evs) \<leftarrow> chk_loop_from (s\<lparr>relay_cache := c'\<rparr>) now (Suc i);
                Some (s2, CancelLine i # evs)
              })
        else chk_loop_from s now (Suc i)
      }
      else Some (s, []))"
  by pat_completeness auto
termination
  by (relation "measure (\<lambda>(s, now, i). CACHE_SIZE - i)") auto

declare chk_loop_from.simps [simp del]

definition chk_relay_loop :: "relay \<Rightarrow> u32 \<Rightarrow> (relay \<times> relay_event list) option" where
  "chk_relay_loop s now =
     (if isBroadcasting s
      then (if now \<ge> broadcastEndTime s
            then do {
              c \<leftarrow> chk_mark (relay_cache s) (currentBroadcastIndex s);
              Some (s\<lparr>advertising := False, led := False, scanning := True, isBroadcasting := False, relay_cache := c\<rparr>,
                [CompletedLine])
            }
            else Some (s, []))
      else chk_loop_from s now 0)"

section \<open>On well-formed tables nothing is out of range\<close>

named_theorems in_range "accesses inside their arrays"

lemma elem_at_nat [in_range]: "i < length xs \<Longrightarrow> elem_at xs (int i) = Some (xs ! i)"
  by (simp add: elem_at_def)

lemma elem_put_nat [in_range]: "i < length xs \<Longrightarrow> elem_put xs (int i) x = Some (xs[i := x])"
  by (simp add: elem_put_def)

lemma put_entry_nat [in_range]: "i < length (entries c) \<Longrightarrow> put_entry c (int i) e = Some (c\<lparr>entries := (entries c)[i := e]\<rparr>)"
  by (simp add: put_entry_def elem_put_nat)

lemma wf_cache_length [in_range]: "wf_cache c \<Longrightarrow> length (entries c) = CACHE_SIZE"
  by (simp add: wf_cache_def)

lemma wf_entry_shape [in_range]:
  "wf_entry e \<Longrightarrow> length (seen_macs e) = MAX_TRACKED_MACS" "wf_entry e \<Longrightarrow> length (entry_hmac e) = HASH_SIZE"
  "wf_entry e \<Longrightarrow> j < MAX_TRACKED_MACS \<Longrightarrow> length (seen_macs e ! j) = MAC_LEN"
  using wf_entry_mac_row [of e j] by (simp_all add: wf_entry_def wf_hash_def wf_mac_def)

lemma chk_mac_known:
  assumes "wf_entry e" "wf_mac mac"
  shows "chk_mac_known_from e mac j = Some (mac_known_from e mac j)"
  using assms
proof (induction e mac j rule: chk_mac_known_from.induct)
  case (1 e mac j)
  then show ?case
    by (subst chk_mac_known_from.simps, subst mac_known_from.simps)
      (auto simp: in_range chk_memeq_def wf_mac_def)
qed

lemma chk_hear:
  assumes "wf_entry e" "wf_mac mac"
  shows "chk_hear_mac e mac = Some (hear_mac e mac)"
  using assms elem_at_nat [of "unat (rx_count e)" "seen_macs e"] elem_put_nat [of "unat (rx_count e)" "seen_macs e"]
  by (simp add: chk_hear_mac_def hear_mac_def chk_mac_known in_range chk_memcpy_def wf_mac_def Let_def)

lemma chk_checkCache_from_ok:
  assumes "wf_cache c" "wf_hash h" "wf_mac mac"
  shows "chk_checkCache_from c h now mac st i = Some (checkCache_from c h now mac st i)"
  using assms
proof (induction c h now mac st i rule: checkCache_from.induct)
  case (1 c h now mac st i)
  show ?case
  proof (cases "i < CACHE_SIZE")
    case True
    note wfe = wf_cache_nth [OF "1.prems"(1) True]
    have len: "i < length (entries c)" using "1.prems"(1) True by (simp add: in_range)
    have "wf_entry ((entries c ! i)\<lparr>active := False\<rparr>)"
      using wfe by (simp add: wf_entry_def heard_def)
    then have wf: "wf_cache (c\<lparr>entries := (entries c)[i := (entries c ! i)\<lparr>active := False\<rparr>]\<rparr>)"
      by (rule wf_cache_update [OF "1.prems"(1)])
    have m: "chk_memeq HASH_SIZE (entry_hmac (entries c ! i)) h = Some (memeq HASH_SIZE (entry_hmac (entries c ! i)) h)"
      using wfe "1.prems"(2) by (simp add: chk_memeq_def in_range wf_hash_def)
    show ?thesis
      using True len wf m "1.IH" [OF True refl] "1.prems" chk_hear [OF wfe "1.prems"(3)]
      by (simp add: chk_checkCache_from.simps [of c h now mac st i] checkCache_from.simps [of c h now mac st i] in_range Let_def)
  qed (simp add: chk_checkCache_from.simps [of c h now mac st i] checkCache_from.simps [of c h now mac st i])
qed

lemma chk_checkCache_ok:
  "wf_cache c \<Longrightarrow> wf_hash h \<Longrightarrow> wf_mac mac \<Longrightarrow> chk_checkCache c h now mac st = Some (checkCache c h now mac st)"
  by (simp add: chk_checkCache_def checkCache_def chk_checkCache_from_ok)

lemma chk_purge_from_ok:
  "length (entries c) = CACHE_SIZE \<Longrightarrow> chk_purge_from c now t i = Some (purge_from c now t i)"
proof (induction c now t i rule: purge_from.induct)
  case (1 c now t i)
  then show ?case
    by (cases "i < CACHE_SIZE")
      (simp_all add: chk_purge_from.simps [of c now t i] purge_from.simps [of c now t i] in_range Let_def)
qed

lemma chk_oldest_from_ok:
  "length (entries c) = CACHE_SIZE \<Longrightarrow> chk_oldest_from c T (int t) i = Some (int (oldest_from c T t i))"
proof (induction c T t i rule: oldest_from.induct)
  case (1 c T t i)
  then show ?case
    by (cases "i < CACHE_SIZE")
      (simp_all add: chk_oldest_from.simps [of c T "int t" i] oldest_from.simps [of c T t i] in_range)
qed

lemma chk_fill_entry_ok:
  "wf_entry e \<Longrightarrow> wf_hash h \<Longrightarrow> wf_mac mac \<Longrightarrow> chk_fill_entry e h p now jitter mac = Some (fill_entry e h p now jitter mac)"
  using elem_at_nat [of 0 "seen_macs e"] elem_put_nat [of 0 "seen_macs e"]
  by (simp add: chk_fill_entry_def fill_entry_def in_range chk_memcpy_def wf_hash_def wf_mac_def MAX_TRACKED_MACS_def)

lemma chk_addToCache_ok:
  assumes "wf_cache c" "wf_hash h" "wf_packet p" "wf_mac mac"
  shows "chk_addToCache c h p now jitter mac = Some (addToCache c h p now jitter mac)"
proof -
  have len: "length (entries c) = CACHE_SIZE" using assms(1) by (simp add: in_range)
  obtain c1 t where ct: "purge_from c now (-1) 0 = (c1, t)" by (cases "purge_from c now (-1) 0")
  from purge_from_spec [OF len, of 0 now "-1"] ct
  have pr: "purged now c c1 0 CACHE_SIZE" and t: "t = -1 \<or> (\<exists>j. t = int j \<and> j < CACHE_SIZE)"
    unfolding purge_result_def by auto
  note c1 = purged_all [OF pr len]
  obtain idx c' where a: "idx < CACHE_SIZE" "addToCache c h p now jitter mac = (c', int idx)"
    by (rule addToCache_cases [OF assms, of now jitter]) blast
  have idx: "idx = (if t = -1 then oldest_from c1 0xFFFFFFFF 0 0 else nat t)"
    using a(2) by (simp add: addToCache_def ct Let_def)
  have "(if t = -1 then chk_oldest_from c1 0xFFFFFFFF 0 0 else Some t) = Some (int idx)"
    using t chk_oldest_from_ok [of c1 "0xFFFFFFFF" 0 0] len c1 by (auto simp: idx)
  moreover have "wf_entry (entries c1 ! idx)"
    using c1 len a(1) wf_purge [OF wf_cache_nth [OF assms(1) a(1)]] by simp
  moreover have "idx < length (entries c1)" using c1 len a(1) by simp
  ultimately show ?thesis
    using assms by (simp add: chk_addToCache_def addToCache_def chk_purge_from_ok [OF len] ct in_range chk_fill_entry_ok
        idx [symmetric] Let_def)
qed

lemma chk_mark_ok:
  assumes "wf_cache c"
  shows "chk_mark c loc = mark_broadcasted c loc"
  using assms by (auto simp: chk_mark_def mark_broadcasted_def elem_at_def elem_put_def put_entry_def in_range)

lemma chk_gateway_cache_ok:
  assumes "cache_inv c" "wf_packet p" "wf_mac mac" "look now c (hmac_sig p) = None"
  shows "chk_gateway_cache c st p now mac = gateway_cache c st p now mac"
proof -
  have wf: "wf_cache c" "wf_hash (hmac_sig p)" using assms(1,2) by (simp_all add: cache_inv_def)
  let ?c1 = "fst (addToCache c (hmac_sig p) p now 0 mac)"
  have inv1: "cache_inv ?c1" using assms by (rule addToCache_inv_look)
  then have wf1: "wf_cache ?c1" by (simp add: cache_inv_def)
  have "wf_cache (fst (checkCache ?c1 (hmac_sig p) now mac st))"
    using checkCache_inv [OF inv1 wf(2) assms(3)] by (simp add: cache_inv_def)
  then show ?thesis
    by (simp add: chk_gateway_cache_def gateway_cache_def chk_addToCache_ok [OF wf(1,2) assms(2,3)]
        chk_checkCache_ok [OF wf1 wf(2) assms(3)] chk_mark_ok split_beta Let_def)
qed

lemma chk_received_cid_ok: "2 \<le> length raw \<Longrightarrow> chk_received_cid raw = Some (received_cid raw)"
  by (cases raw; cases "tl raw") (auto simp: chk_received_cid_def received_cid_def elem_at_def)

lemma chk_onResult_ok:
  assumes "cache_inv (relay_cache s)" "wf_mac mac"
  shows "chk_onResult s mfr mac now wifi j = onResult s mfr mac now wifi j"
proof (cases "\<exists>raw. mfr = Some raw \<and> length raw = 2 + PACKET_SIZE \<and> received_cid raw = TARGET_CID")
  case False
  then show ?thesis
    by (auto simp: chk_onResult_def onResult_def chk_received_cid_ok split: option.split)
next
  case True
  then obtain p where p: "wf_packet p" "mfr = Some (frame_bytes p)" by (metis frame_cases)
  have h: "wf_hash (hmac_sig p)" and wf: "wf_cache (relay_cache s)" using p(1) assms(1) by (simp_all add: cache_inv_def)
  obtain c1 st1 location where r: "checkCache (relay_cache s) (hmac_sig p) now mac (cacheMacStatus s) = (c1, st1, location)"
    by (cases "checkCache (relay_cache s) (hmac_sig p) now mac (cacheMacStatus s)")
  have inv1: "cache_inv c1" using checkCache_inv [OF assms(1) h assms(2), of now "cacheMacStatus s"] r by simp
  then have wf1: "wf_cache c1" by (simp add: cache_inv_def)
  have n1: "look now c1 (hmac_sig p) = None" if "location = -1"
    using that checkCache_hit_iff [OF assms(1) h, of now mac "cacheMacStatus s"]
      checkCache_look [OF assms(1) h assms(2), of now "cacheMacStatus s" "hmac_sig p"] r by auto
  have f: "chk_packet_at (frame_bytes p) = Some p" "chk_received_cid (frame_bytes p) = Some TARGET_CID"
    using p(1) by (simp_all add: chk_packet_at_def chk_received_cid_ok)
  have q: "wf_packet q \<and> hmac_sig q = hmac_sig p" if "ttl_hop p = HopForward q" for q
    using that hop_wf [of p q] p(1) by (simp add: hop_packet_def)
  show ?thesis
    using p f r n1 chk_gateway_cache_ok [OF inv1 p(1) assms(2)] q chk_addToCache_ok [OF wf1 _ _ assms(2)]
    by (auto simp: chk_onResult_def onResult_def chk_checkCache_ok [OF wf h assms(2)] h Let_def split_beta
        split: option.split hop.split Option.bind_split)
qed

lemma chk_loop_from_ok:
  "length (entries (relay_cache s)) = CACHE_SIZE \<Longrightarrow> chk_loop_from s now i = Some (loop_from s now i)"
proof (induction s now i rule: loop_from.induct)
  case (1 s now i)
  have m: "i < CACHE_SIZE \<Longrightarrow> chk_mark (relay_cache s) (int i) =
      Some ((relay_cache s)\<lparr>entries := (entries (relay_cache s))[i := (entries (relay_cache s) ! i)\<lparr>broadcasted := True\<rparr>]\<rparr>)"
    using "1.prems" by (simp add: chk_mark_def in_range)
  show ?case
    using "1.prems" "1.IH" m
    by (cases "i < CACHE_SIZE")
      (simp_all add: chk_loop_from.simps [of s now i] loop_from.simps [of s now i] in_range Let_def split_beta)
qed

lemma chk_relay_loop_ok: "wf_cache (relay_cache s) \<Longrightarrow> chk_relay_loop s now = relay_loop s now"
  by (cases "mark_broadcasted (relay_cache s) (currentBroadcastIndex s)")
    (simp_all add: chk_relay_loop_def relay_loop_def chk_mark_ok chk_loop_from_ok wf_cache_length)

section \<open>Property\<close>

text \<open>The end of a burst as EspTasks splits it, with the mark checked.\<close>

definition chk_end_mark :: "relay \<Rightarrow> (relay \<times> relay_event list) option" where
  "chk_end_mark s = do {
     c \<leftarrow> chk_mark (relay_cache s) (currentBroadcastIndex s);
     Some (s\<lparr>isBroadcasting := False, relay_cache := c\<rparr>, [CompletedLine])
   }"

lemma chk_end_mark_ok: "wf_cache (relay_cache s) \<Longrightarrow> chk_end_mark s = end_mark s"
  by (cases "mark_broadcasted (relay_cache s) (currentBroadcastIndex s)")
    (simp_all add: chk_end_mark_def end_mark_def chk_mark_ok)

text \<open>
  Property C19. No step leaves an array and neither task gets stuck. In every state that the two
  tasks can reach, whatever has been received, the scan callback with every access checked (the
  received bytes, the 256 rows, the four sender addresses of a row, the bytes of hashes and
  addresses) returns, and what it returns is the next step of the task; and so does the pass of
  the main loop, the second half of the end of a burst included.
\<close>

theorem tasks_never_stuck:
  assumes "task_run xs t" "wf_mac mac" "jitter_ok j"
  shows "(\<exists>s' evs. chk_onResult (shared t) mfr mac now wifi j = Some (s', evs) \<and>
      task_step t (Callback mfr mac now wifi j) evs (t\<lparr>shared := s'\<rparr>)) \<and>
    (if ending t
     then \<exists>s' evs. chk_end_mark (shared t) = Some (s', evs) \<and> task_step t LoopRest evs \<lparr>shared = s', ending = False\<rparr>
     else if isBroadcasting (shared t) \<and> broadcastEndTime (shared t) \<le> now
     then task_step t (LoopPass now) [] \<lparr>shared = end_air (shared t), ending = True\<rparr>
     else \<exists>s' evs. chk_relay_loop (shared t) now = Some (s', evs) \<and> task_step t (LoopPass now) evs (t\<lparr>shared := s'\<rparr>))"
proof
  note inv = task_run_inv [OF assms(1)]
  have c: "cache_inv (relay_cache (shared t))"
    using inv by (auto simp: tasks_inv_def relay_inv_def split: if_splits)
  then have wf: "wf_cache (relay_cache (shared t))" by (simp add: cache_inv_def)
  show "\<exists>s' evs. chk_onResult (shared t) mfr mac now wifi j = Some (s', evs) \<and>
      task_step t (Callback mfr mac now wifi j) evs (t\<lparr>shared := s'\<rparr>)"
    by (rule callback_inv [OF inv assms(2), of mfr now wifi j])
      (use assms task_step.callback in \<open>auto simp: chk_onResult_ok [OF c assms(2)]\<close>)
  show "if ending t
     then \<exists>s' evs. chk_end_mark (shared t) = Some (s', evs) \<and> task_step t LoopRest evs \<lparr>shared = s', ending = False\<rparr>
     else if isBroadcasting (shared t) \<and> broadcastEndTime (shared t) \<le> now
     then task_step t (LoopPass now) [] \<lparr>shared = end_air (shared t), ending = True\<rparr>
     else \<exists>s' evs. chk_relay_loop (shared t) now = Some (s', evs) \<and> task_step t (LoopPass now) evs (t\<lparr>shared := s'\<rparr>)"
  proof (cases "ending t")
    case True
    from end_mark_inv [OF inv True] obtain s' where e: "end_mark (shared t) = Some (s', [CompletedLine])" .
    from task_step.loop_rest [OF True e] True e show ?thesis by (auto simp: chk_end_mark_ok [OF wf])
  next
    case False
    then have "relay_inv (task_hopped xs) (shared t)" using inv by (simp add: tasks_inv_def)
    then obtain s' evs where "relay_loop (shared t) now = Some (s', evs)" by (rule relay_loop_inv)
    with False show ?thesis
      by (auto simp: chk_relay_loop_ok [OF wf] intro: task_step.loop_pass task_step.loop_end)
  qed
qed

text \<open>A relay with a burst on air that hears its packet again.\<close>

theorem tasks_never_stuck_witness:
  "\<exists>t s' evs s2 evs2. task_run race_inputs t \<and> advertising (shared t) \<and>
     chk_onResult (shared t) (Some (frame_bytes sample_packet)) [1, 2, 3, 4, 5, 6] 1100 False 60 = Some (s', evs) \<and>
     chk_relay_loop (shared t) 0 = Some (s2, evs2)"
proof -
  obtain t where t: "task_run race_inputs t" "advertising (shared t)" "\<not> ending t" "broadcastEndTime (shared t) \<noteq> 0"
    by (rule race_burst) simp
  have m: "wf_mac [1, 2, 3, 4, 5, 6]" "jitter_ok 60" by (simp_all add: wf_mac_def MAC_LEN_def jitter_ok_def)
  from tasks_never_stuck [OF t(1) m, of "Some (frame_bytes sample_packet)" 1100 False]
    tasks_never_stuck [OF t(1) m, of "Some (frame_bytes sample_packet)" 0 False] t show ?thesis by auto
qed

end
