(* ===== verification/EspDrain.thy ===== *)
theory EspDrain
  imports EspRelay
begin

text \<open>
  The main loop of the relay over a stretch of passes without a reception in between: it works
  off the table. \<open>loop_run\<close> runs the passes at the given times and collects the frames that go on
  air.
\<close>

section \<open>Passes of the loop\<close>

definition pending :: "relay \<Rightarrow> cacheEntry list" where
  "pending s = filter (\<lambda>e. waiting e \<and> unat (rx_count e) < REDUNDANCY) (entries (relay_cache s))"

fun loop_run :: "relay \<Rightarrow> u32 list \<Rightarrow> (relay \<times> u8 list list) option" where
  "loop_run s [] = Some (s, [])"
| "loop_run s (t # ts) =
     (case relay_loop s t of
        None \<Rightarrow> None
      | Some (s1, evs) \<Rightarrow>
          map_option (\<lambda>(s2, fs). (s2, (if \<not> isBroadcasting s \<and> isBroadcasting s1 then [advData s1] else []) @ fs)) (loop_run s1 ts))"

definition all_due :: "u32 \<Rightarrow> relay \<Rightarrow> bool" where
  "all_due a s \<longleftrightarrow> (\<forall>e \<in> set (entries (relay_cache s)). waiting e \<longrightarrow> broadcast_time e \<le> a)"

text \<open>A pass at \<open>a\<close> starts the first pending row, the pass at \<open>b\<close> ends it.\<close>

lemma filter_eq_upt: "i < n \<Longrightarrow> filter (\<lambda>k. k = i) [0..<n] = [i]"
  by (induction n) (auto simp: less_Suc_eq)

lemma drain_start:
  assumes "length (entries (relay_cache s)) = CACHE_SIZE" "\<not> isBroadcasting s" "all_due a s" "pending s \<noteq> []"
  obtains pre e post c evs where "entries (relay_cache s) = pre @ e # post" "e = hd (pending s)"
    "tl (pending s) = filter (\<lambda>e. waiting e \<and> unat (rx_count e) < REDUNDANCY) post"
    "relay_loop s a = Some (burst (s\<lparr>relay_cache := c\<rparr>) a e (length pre), evs)" "entries c = map (cancel a) pre @ e # post"
proof -
  let ?es = "entries (relay_cache s)" and ?P = "\<lambda>e. waiting e \<and> unat (rx_count e) < REDUNDANCY"
  have st: "starts a e \<longleftrightarrow> ?P e" if "e \<in> set ?es" for e
    using assms(3) that by (auto simp: starts_def due_def all_due_def)
  obtain s1 evs where r: "loop_from s a 0 = (s1, evs)" by fastforce
  have "loop_result a s 0 (s1, evs)" using loop_from_spec [OF assms(1), of 0 a] r by simp
  moreover have "\<exists>k < CACHE_SIZE. starts a (?es ! k)"
  proof -
    from assms(4) obtain e where "e \<in> set ?es" "?P e" unfolding pending_def by (auto simp: filter_empty_conv)
    with st assms(1) show ?thesis by (metis in_set_conv_nth)
  qed
  ultimately obtain i c where i: "i < CACHE_SIZE" "starts a (?es ! i)" "\<forall>k < i. \<not> starts a (?es ! k)"
    "cancelled a (relay_cache s) c 0 i" "s1 = burst (s\<lparr>relay_cache := c\<rparr>) a (?es ! i) i"
    unfolding loop_result_def by fastforce
  let ?pre = "take i ?es" and ?e = "?es ! i" and ?post = "drop (Suc i) ?es"
  have l: "length ?pre = i" using i(1) assms(1) by simp
  have es: "?es = ?pre @ ?e # ?post" using i(1) assms(1) by (simp add: id_take_nth_drop [symmetric])
  have none: "filter ?P ?pre = []"
  proof -
    have "\<not> ?P x" if "x \<in> set ?pre" for x
    proof -
      from that obtain k where "k < i" "x = ?es ! k" using l by (auto simp: in_set_conv_nth)
      with i(3) st [of x] in_set_takeD [OF that] show ?thesis by blast
    qed
    then show ?thesis by (simp add: filter_empty_conv)
  qed
  have "?P ?e" using st [of ?e] i(1,2) assms(1) by simp
  then have p: "pending s = ?e # filter ?P ?post"
    unfolding pending_def by (subst es) (simp only: filter_append none filter.simps simp_thms if_True append_Nil)
  have c: "entries c = map (cancel a) ?pre @ ?e # ?post"
  proof (rule nth_equalityI)
    show "length (entries c) = length (map (cancel a) ?pre @ ?e # ?post)"
      using i(1,4) assms(1) by (simp add: cancelled_def)
    fix k assume "k < length (entries c)"
    then have k: "k < CACHE_SIZE" using i(4) assms(1) by (simp add: cancelled_def)
    have "entries c ! k = (if k < i then cancel a (?es ! k) else ?es ! k)" using i(4) k by (simp add: cancelled_def)
    moreover have "(map (cancel a) ?pre @ ?e # ?post) ! k = (if k < i then cancel a (?es ! k) else ?es ! k)"
      using k i(1) assms(1) by (auto simp: nth_append nth_Cons' l)
    ultimately show "entries c ! k = (map (cancel a) ?pre @ ?e # ?post) ! k" by simp
  qed
  show thesis
    by (rule that [OF es _ _ _ c]) (use p i(5) r l assms(2) in \<open>simp_all add: relay_loop_def\<close>)
qed

lemma drain_two:
  assumes "length (entries (relay_cache s)) = CACHE_SIZE" "\<not> isBroadcasting s" "all_due a s" "pending s \<noteq> []"
    "a + BROADCAST_BURST \<le> b"
  obtains s1 s2 evs1 evs2 where "relay_loop s a = Some (s1, evs1)" "isBroadcasting s1"
    "advData s1 = frame_bytes (entry_packet (hd (pending s)))" "relay_loop s1 b = Some (s2, evs2)"
    "length (entries (relay_cache s2)) = CACHE_SIZE" "\<not> isBroadcasting s2" "scanning s2" "pending s2 = tl (pending s)"
    "\<And>t. all_due t s \<Longrightarrow> all_due t s2"
proof -
  let ?P = "\<lambda>e. waiting e \<and> unat (rx_count e) < REDUNDANCY"
  obtain pre e post c evs where d: "entries (relay_cache s) = pre @ e # post" "e = hd (pending s)" "tl (pending s) = filter ?P post"
    "relay_loop s a = Some (burst (s\<lparr>relay_cache := c\<rparr>) a e (length pre), evs)" "entries c = map (cancel a) pre @ e # post"
    using drain_start [OF assms(1-4)] .
  let ?s1 = "burst (s\<lparr>relay_cache := c\<rparr>) a e (length pre)" and ?e = "e\<lparr>broadcasted := True\<rparr>"
  let ?c2 = "c\<lparr>entries := map (cancel a) pre @ ?e # post\<rparr>"
  have l: "length pre < CACHE_SIZE" using assms(1) d(1) by simp
  have m: "mark_broadcasted c (int (length pre)) = Some ?c2"
    using l by (simp add: mark_broadcasted_def d(5) nth_append list_update_append)
  let ?s2 = "?s1\<lparr>advertising := False, led := False, scanning := True, isBroadcasting := False, relay_cache := ?c2\<rparr>"
  have gone: "\<not> waiting x" if "x \<in> set (map (cancel a) pre)" for x
    using that assms(3) d(1) by (auto simp: waiting_cancel all_due_def due_def)
  then have "filter ?P (map (cancel a) pre) = []" unfolding filter_empty_conv by blast
  then have "filter ?P (map (cancel a) pre @ ?e # post) = filter ?P post"
    by (simp only: filter_append filter.simps append_Nil) (simp add: waiting_def)
  moreover have "entries (relay_cache ?s2) = map (cancel a) pre @ ?e # post" by simp
  ultimately have p: "pending ?s2 = tl (pending s)" by (simp only: pending_def [of ?s2] d(3))
  have due: "all_due t ?s2" if "all_due t s" for t
    using that gone d(1) by (auto simp: all_due_def waiting_def)
  have loop: "relay_loop ?s1 b = Some (?s2, [CompletedLine])"
    using assms(5) m by (simp add: relay_loop_def burst_def)
  show thesis
    by (rule that [OF d(4) _ _ loop _ _ _ p due]) (use assms(1) d(1,2) in \<open>simp_all add: burst_def\<close>)
qed

lemma drain_run:
  assumes "length (entries (relay_cache s)) = CACHE_SIZE" "\<not> isBroadcasting s" "scanning s" "length ps = length (pending s)"
    "\<forall>(a, b) \<in> set ps. a + BROADCAST_BURST \<le> b \<and> all_due a s"
  shows "\<exists>s'. loop_run s (concat (map (\<lambda>(a, b). [a, b]) ps)) = Some (s', map (\<lambda>e. frame_bytes (entry_packet e)) (pending s)) \<and>
    pending s' = [] \<and> \<not> isBroadcasting s' \<and> scanning s'"
  using assms
proof (induction ps arbitrary: s)
  case Nil
  then show ?case by simp
next
  case (Cons ab ps)
  obtain a b where ab: "ab = (a, b)" by (cases ab)
  from Cons.prems(4) have ne: "pending s \<noteq> []" by auto
  from Cons.prems(5) ab have t: "all_due a s" "a + BROADCAST_BURST \<le> b" by auto
  obtain s1 s2 evs1 evs2 where r: "relay_loop s a = Some (s1, evs1)" "isBroadcasting s1"
    "advData s1 = frame_bytes (entry_packet (hd (pending s)))" "relay_loop s1 b = Some (s2, evs2)"
    and q: "length (entries (relay_cache s2)) = CACHE_SIZE" "\<not> isBroadcasting s2" "scanning s2" "pending s2 = tl (pending s)"
    "\<And>t. all_due t s \<Longrightarrow> all_due t s2"
    using drain_two [OF Cons.prems(1,2) t(1) ne t(2)] by metis
  have "\<exists>s'. loop_run s2 (concat (map (\<lambda>(a, b). [a, b]) ps)) = Some (s', map (\<lambda>e. frame_bytes (entry_packet e)) (pending s2)) \<and>
    pending s' = [] \<and> \<not> isBroadcasting s' \<and> scanning s'"
    by (rule Cons.IH [OF q(1-3)]) (use Cons.prems(4,5) q(4,5) in auto)
  moreover have "pending s = hd (pending s) # pending s2" using ne q(4) by simp
  ultimately show ?case using r q(2) Cons.prems(2) by (auto simp: ab) (metis list.simps(9))
qed

section \<open>Properties\<close>

text \<open>
  Property C21. The queue drains: a relay between bursts whose waiting packets are all due needs, with
  no reception in between, one pass to start and one to end a burst for every packet that was heard
  from fewer than four senders; it sends each of them exactly once, in the order of the rows, and
  then none is left.
\<close>

theorem relay_drains_queue:
  assumes "relay_inv H s" "\<not> isBroadcasting s" "length ps = length (pending s)"
    "\<forall>(a, b) \<in> set ps. a + BROADCAST_BURST \<le> b \<and> all_due a s"
  shows "\<exists>s'. loop_run s (concat (map (\<lambda>(a, b). [a, b]) ps)) = Some (s', map (\<lambda>e. frame_bytes (entry_packet e)) (pending s)) \<and>
    pending s' = [] \<and> \<not> isBroadcasting s' \<and> scanning s'"
proof -
  have "length (entries (relay_cache s)) = CACHE_SIZE" "scanning s"
    using assms(1,2) by (simp_all add: relay_inv_def cache_inv_def wf_cache_def radio_ok_def)
  with assms show ?thesis by (intro drain_run)
qed

text \<open>A relay that has heard one frame.\<close>

theorem relay_drains_queue_witness:
  "\<exists>s s' p. relay_cache s = fst (addToCache zero_cache (hmac_sig sample_packet) sample_packet 1000 60 sample_mac) \<and>
     loop_run s [1060, 1560] = Some (s', [frame_bytes p]) \<and> pending s' = [] \<and> scanning s'"
proof -
  let ?h = "hmac_sig sample_packet"
  let ?c = "fst (addToCache zero_cache ?h sample_packet 1000 60 sample_mac)"
  let ?s = "relay_init\<lparr>relay_cache := ?c\<rparr>"
  let ?P = "\<lambda>e. waiting e \<and> unat (rx_count e) < REDUNDANCY"
  have "queue_ok {sample_packet} zero_cache"
    using relay_init_inv [of "{sample_packet}"] by (simp add: relay_inv_def relay_init_def)
  from addToCache_queue_ok [OF zero_cache_inv this _ wf_sample_packet sample_shapes(1) look_zero_cache, of 1000 60]
    addToCache_inv_look [OF zero_cache_inv wf_sample_packet sample_shapes(1) look_zero_cache]
  have inv: "relay_inv {sample_packet} ?s" by (simp add: relay_inv_def radio_ok_def relay_init_def)
  have wz: "wf_cache zero_cache" using zero_cache_inv by (simp add: cache_inv_def)
  obtain idx c' where r: "idx < CACHE_SIZE" "addToCache zero_cache ?h sample_packet 1000 60 sample_mac = (c', int idx)"
    "length (entries c') = CACHE_SIZE"
    "entries c' ! idx = fill_entry (purge 1000 (entries zero_cache ! idx)) ?h sample_packet 1000 60 sample_mac"
    and other: "\<And>k. k < CACHE_SIZE \<Longrightarrow> k \<noteq> idx \<Longrightarrow> entries c' ! k = purge 1000 (entries zero_cache ! k)"
    by (rule addToCache_cases [OF wz sample_shapes(2) wf_sample_packet sample_shapes(1), of 1000 60]) blast
  have e: "?P (entries c' ! idx)" "broadcast_time (entries c' ! idx) = 1060"
    by (simp_all add: r(4) fill_entry_def waiting_def REDUNDANCY_def)
  have dead: "\<not> waiting (entries c' ! k)" if "k < CACHE_SIZE" "k \<noteq> idx" for k
    using other [OF that] that(1) by (simp add: waiting_purge) (simp add: zero_cache_def zero_entry_def waiting_def)
  have due: "all_due 1060 ?s" using dead e(2) r(2,3) by (auto simp: all_due_def in_set_conv_nth) (metis order_refl)
  have "pending ?s = map ((!) (entries c')) (filter (\<lambda>k. k = idx) [0..<CACHE_SIZE])"
  proof -
    have "pending ?s = map ((!) (entries c')) (filter (?P \<circ> (!) (entries c')) [0..<CACHE_SIZE])"
      by (simp add: pending_def r(2) filter_map [symmetric]) (metis map_nth r(3))
    also have "filter (?P \<circ> (!) (entries c')) [0..<CACHE_SIZE] = filter (\<lambda>k. k = idx) [0..<CACHE_SIZE]"
      by (rule filter_cong) (use dead e(1) in auto)
    finally show ?thesis .
  qed
  then have p: "pending ?s = [entries c' ! idx]" using r(1) by (simp add: filter_eq_upt)
  have nb: "\<not> isBroadcasting ?s" by (simp add: relay_init_def)
  have l: "length [(1060 :: u32, 1560 :: u32)] = length (pending ?s)" by (simp add: p)
  have ps: "\<forall>(a, b) \<in> set [(1060 :: u32, 1560 :: u32)]. a + BROADCAST_BURST \<le> b \<and> all_due a ?s"
    using due by (simp add: BROADCAST_BURST_def)
  from relay_drains_queue [OF inv nb l ps] obtain s' where
    "loop_run ?s [1060, 1560] = Some (s', [frame_bytes (entry_packet (entries c' ! idx))])" "pending s' = []" "scanning s'"
    unfolding p by (auto simp del: loop_run.simps)
  then show ?thesis by (intro exI [of _ ?s] exI conjI; (assumption | simp del: loop_run.simps))
qed

end
