(* ===== verification/EspRepeats.thy ===== *)
theory EspRepeats
  imports EspNet
begin

text \<open>
  A gateway that hears the same packet again and again, as the victim repeats its bursts, as
  several relays pass it on, or as somebody plays back a recording. Seen from outside it is a
  rate limiter: it forwards a copy when none was forwarded in the two seconds before.
\<close>

section \<open>The specification\<close>

text \<open>Which of the times pass, when the last one to pass was \<open>l\<close>, if any.\<close>

fun windows :: "nat option \<Rightarrow> nat list \<Rightarrow> bool list" where
  "windows l [] = []"
| "windows l (t # ts) =
     (if (case l of None \<Rightarrow> True | Some t0 \<Rightarrow> t0 + 2000 \<le> t) then True # windows (Some t) ts
      else False # windows l ts)"

section \<open>A gateway and what it hears\<close>

record hearing =
  heard_packet :: emergencyPacket
  heard_from :: "u8 list"
  heard_at :: nat
  heard_jitter :: u32

primrec gateway_hears :: "relay \<Rightarrow> hearing list \<Rightarrow> (relay \<times> relay_event list list) option" where
  "gateway_hears s [] = Some (s, [])"
| "gateway_hears s (x # xs) =
     (case onResult s (Some (frame_bytes (heard_packet x))) (heard_from x) (of_nat (heard_at x)) True (heard_jitter x) of
        None \<Rightarrow> None
      | Some (s1, evs) \<Rightarrow> map_option (\<lambda>(s2, evss). (s2, evs # evss)) (gateway_hears s1 xs))"

text \<open>What leaves when the copies with a True are forwarded.\<close>

definition forwarded :: "hearing list \<Rightarrow> bool list \<Rightarrow> u8 list list list" where
  "forwarded xs oks = map2 (\<lambda>x ok. if ok then replicate 3 (frame_bytes (heard_packet x)) else []) xs oks"

definition copies_of :: "u8 list \<Rightarrow> hearing list \<Rightarrow> bool" where
  "copies_of v xs \<longleftrightarrow> (\<forall>x \<in> set xs. wf_packet (heard_packet x) \<and> hmac_sig (heard_packet x) = v \<and> wf_mac (heard_from x) \<and>
     heard_at x + 2000 < 2 ^ 32)"

section \<open>The cache between two copies\<close>

lemma word_window:
  assumes "l + 2000 < 2 ^ 32" "t < 2 ^ 32"
  shows "(of_nat t :: u32) < of_nat l + CACHE_TTL_MS \<longleftrightarrow> t < l + 2000"
proof -
  have "unat (of_nat l + CACHE_TTL_MS :: u32) = l + 2000"
    using assms(1) by (simp add: CACHE_TTL_MS_def unat_word_ariths unsigned_of_nat take_bit_nat_def)
  moreover have "unat (of_nat t :: u32) = t" using assms(2) by (simp add: unsigned_of_nat take_bit_nat_def)
  ultimately show ?thesis by (simp add: word_less_nat_alt)
qed

lemma mark_broadcasted_look:
  assumes "cache_inv c" "look now c h = Some e" "j < CACHE_SIZE" "known_as now h (entries c ! j)" "mark_broadcasted c (int j) = Some c'"
    "cache_inv c'"
  shows "look now c' h = Some (e\<lparr>broadcasted := True\<rparr>)"
proof -
  have len: "length (entries c) = CACHE_SIZE" using assms(1) by (simp add: cache_inv_def wf_cache_def)
  have "look now c h = Some (entries c ! j)" using assms(3,4) by (auto simp: look_Some_iff [OF assms(1)])
  with assms(2) have e: "entries c ! j = e" by simp
  have "entries c' ! j = e\<lparr>broadcasted := True\<rparr>" using assms(3,5) e len by (auto simp: mark_broadcasted_def)
  with assms(3,4) e show ?thesis
    by (auto simp: look_Some_iff [OF assms(6)] known_as_def live_def)
qed

lemma gateway_cache_look:
  assumes "cache_inv c" "wf_packet p" "wf_mac mac" "look now c (hmac_sig p) = None" "now < now + CACHE_TTL_MS"
    "gateway_cache c st p now mac = Some (c2, st2)" "cache_inv c2"
  shows "\<exists>e. look now c2 (hmac_sig p) = Some e \<and> expires_at e = now + CACHE_TTL_MS"
proof -
  let ?h = "hmac_sig p"
  define c1 where "c1 = fst (addToCache c ?h p now 0 mac)"
  have inv1: "cache_inv c1" unfolding c1_def using assms(1-4) by (rule addToCache_inv_look)
  have wf1: "wf_cache c1" "wf_hash ?h" using inv1 assms(2) by (simp_all add: cache_inv_def)
  from addToCache_look [OF assms(1) wf1(2) assms(2-4), of 0] assms(5) obtain e where
    e: "look now c1 ?h = Some e" "expires_at e = now + CACHE_TTL_MS" by (auto simp: c1_def)
  have gw: "gateway_cache c st p now mac =
      (case checkCache c1 ?h now mac st of (c2, st2, newLoc) \<Rightarrow>
        if newLoc \<noteq> -1 then map_option (\<lambda>c3. (c3, st2)) (mark_broadcasted c2 newLoc) else Some (c2, st2))"
    by (simp add: gateway_cache_def c1_def Let_def split_beta)
  show ?thesis
  proof (rule checkCache_cases [OF wf1, of now mac st])
    fix j c'
    assume hit: "j < CACHE_SIZE" "known_as now ?h (entries c1 ! j)" "checkCache c1 ?h now mac st = (c', Some StatusDrop, int j)"
      and row: "\<And>k. k < CACHE_SIZE \<Longrightarrow> entries c' ! k =
         (if k = j then hear_mac (entries c1 ! j) mac else if k < j then purge now (entries c1 ! k) else entries c1 ! k)"
    have inv': "cache_inv c'" using checkCache_inv [OF inv1 wf1(2) assms(3), of now st] hit(3) by simp
    have l: "look now c' ?h = Some (hear_mac e mac)"
      using checkCache_look [OF inv1 wf1(2) assms(3), of now st ?h] hit(3) e(1) by simp
    have "known_as now ?h (entries c' ! j)" using hit(2) row [OF hit(1)] by (simp add: known_as_def live_def)
    moreover have "mark_broadcasted c' (int j) = Some c2" using gw hit(3) assms(6) by (cases "mark_broadcasted c' (int j)") auto
    ultimately have "look now c2 ?h = Some ((hear_mac e mac)\<lparr>broadcasted := True\<rparr>)"
      using mark_broadcasted_look [OF inv' l hit(1) _ _ assms(7)] by blast
    with e(2) show ?thesis by simp
  next
    fix c'
    assume "\<And>k. k < CACHE_SIZE \<Longrightarrow> \<not> known_as now ?h (entries c1 ! k)"
    with e(1) show ?thesis using look_None_iff [OF inv1, of now ?h] by simp
  qed
qed


section \<open>One copy\<close>

definition remembers :: "u8 list \<Rightarrow> nat \<Rightarrow> relay \<Rightarrow> bool" where
  "remembers v l s \<longleftrightarrow> (\<exists>t e. look t (relay_cache s) v = Some e \<and> expires_at e = of_nat l + CACHE_TTL_MS)"

lemma remembers_window:
  assumes "cache_inv (relay_cache s)" "remembers v l s" "l + 2000 < 2 ^ 32" "t < 2 ^ 32"
  shows "look (of_nat t) (relay_cache s) v = None \<longleftrightarrow> l + 2000 \<le> t"
proof -
  from assms(2) obtain u e where e: "look u (relay_cache s) v = Some e" "expires_at e = of_nat l + CACHE_TTL_MS"
    by (auto simp: remembers_def)
  show ?thesis
    using cache.known_window [OF assms(1) e(1), of "of_nat t"] word_window [OF assms(3,4)] e(2) by (auto simp: not_less)
qed

lemma hears_new:
  assumes "cache_inv (relay_cache s)" "wf_packet p" "wf_mac mac" "t + 2000 < 2 ^ 32"
    "look (of_nat t) (relay_cache s) (hmac_sig p) = None"
  shows "\<exists>s' evs. onResult s (Some (frame_bytes p)) mac (of_nat t) True j = Some (s', evs) \<and>
    udp_packets evs = replicate 3 (frame_bytes p) \<and> cache_inv (relay_cache s') \<and> remembers (hmac_sig p) t s'"
proof -
  let ?t = "of_nat t :: u32" and ?h = "hmac_sig p"
  let ?c1 = "note_sighting ?t (relay_cache s) ?h mac"
  have h: "wf_hash ?h" using assms(2) by simp
  have inv1: "cache_inv ?c1" using cache.inv_touch [OF assms(1) h assms(3)] .
  have look1: "look ?t ?c1 ?h = None" using cache.known_touch [OF assms(1) h assms(3), of ?t ?h] assms(5) by simp
  from word_window [OF assms(4), of t] assms(4) have w: "?t < ?t + CACHE_TTL_MS" by simp
  obtain c2 st2 where g: "gateway_cache ?c1 (cacheMacStatus s) p ?t mac = Some (c2, st2)" "cache_inv c2"
    by (rule gateway_cache_spec [OF inv1 assms(2,3) look1])
  from gateway_cache_look [OF inv1 assms(2,3) look1 w g] have r: "remembers ?h t (s\<lparr>relay_cache := c2, cacheMacStatus := st2\<rparr>)"
    by (auto simp: remembers_def)
  have "onResult s (Some (frame_bytes p)) mac ?t True j = Some (s\<lparr>relay_cache := c2, cacheMacStatus := st2\<rparr>,
      [StatusLine (cacheMacStatus s), UdpPacket (frame_bytes p), UdpPacket (frame_bytes p), UdpPacket (frame_bytes p), ExitLine])"
    by (rule onResult_frame [OF assms(1-3), where now = ?t and wifi = True and j = j]) (use assms(5) g(1) in auto)
  with r g(2) show ?thesis by (simp add: numeral_eq_Suc)
qed

lemma hears_known:
  assumes "cache_inv (relay_cache s)" "wf_packet p" "wf_mac mac" "remembers (hmac_sig p) l s" "look t (relay_cache s) (hmac_sig p) = Some e"
  shows "\<exists>s' evs. onResult s (Some (frame_bytes p)) mac t True j = Some (s', evs) \<and>
    udp_packets evs = [] \<and> cache_inv (relay_cache s') \<and> remembers (hmac_sig p) l s'"
proof -
  let ?c1 = "note_sighting t (relay_cache s) (hmac_sig p) mac"
  have h: "wf_hash (hmac_sig p)" using assms(2) by simp
  from assms(4) obtain u d where d: "look u (relay_cache s) (hmac_sig p) = Some d" "expires_at d = of_nat l + CACHE_TTL_MS"
    by (auto simp: remembers_def)
  have "e = d" using cache.known_window [OF assms(1) d(1), of t] assms(5) by (simp split: if_splits)
  with d(2) have r: "remembers (hmac_sig p) l (s\<lparr>relay_cache := ?c1, cacheMacStatus := Some StatusDrop\<rparr>)"
    using cache.known_touch [OF assms(1) h assms(3), of t "hmac_sig p"] assms(5)
    by (auto simp: remembers_def intro!: exI [of _ t])
  have "onResult s (Some (frame_bytes p)) mac t True j =
      Some (s\<lparr>relay_cache := ?c1, cacheMacStatus := Some StatusDrop\<rparr>, [StatusLine (Some StatusDrop), InCacheLine])"
    by (rule onResult_frame [OF assms(1-3), where now = t and wifi = True and j = j]) (use assms(5) in auto)
  with r cache.inv_touch [OF assms(1) h assms(3), of t] show ?thesis by simp
qed

lemma forwarded_simps [simp]:
  "forwarded [] [] = []"
  "forwarded (x # xs) (ok # oks) = (if ok then replicate 3 (frame_bytes (heard_packet x)) else []) # forwarded xs oks"
  by (simp_all add: forwarded_def)

lemma copies_of_simps [simp]:
  "copies_of v []"
  "copies_of v (x # xs) \<longleftrightarrow> wf_packet (heard_packet x) \<and> hmac_sig (heard_packet x) = v \<and> wf_mac (heard_from x) \<and>
     heard_at x + 2000 < 2 ^ 32 \<and> copies_of v xs"
  by (auto simp: copies_of_def)

lemma gateway_remembering:
  assumes "cache_inv (relay_cache s)" "copies_of v xs" "remembers v l s" "l + 2000 < 2 ^ 32"
  shows "\<exists>s' evss. gateway_hears s xs = Some (s', evss) \<and>
    map udp_packets evss = forwarded xs (windows (Some l) (map heard_at xs))"
  using assms
proof (induction xs arbitrary: s l)
  case Nil
  then show ?case by simp
next
  case (Cons x xs)
  let ?p = "heard_packet x" and ?t = "heard_at x"
  have x: "wf_packet ?p" "hmac_sig ?p = v" "wf_mac (heard_from x)" "?t + 2000 < 2 ^ 32" "copies_of v xs"
    using Cons.prems(2) by simp_all
  have w: "look (of_nat ?t) (relay_cache s) v = None \<longleftrightarrow> l + 2000 \<le> ?t"
    using remembers_window [OF Cons.prems(1,3,4)] x(4) by simp
  show ?case
  proof (cases "l + 2000 \<le> ?t")
    case True
    with w x(2) obtain s1 evs where r: "onResult s (Some (frame_bytes ?p)) (heard_from x) (of_nat ?t) True (heard_jitter x) = Some (s1, evs)"
      "udp_packets evs = replicate 3 (frame_bytes ?p)" "cache_inv (relay_cache s1)" "remembers v ?t s1"
      using hears_new [OF Cons.prems(1) x(1,3,4)] by fastforce
    from Cons.IH [OF r(3) x(5) r(4) x(4)] r(1,2) True show ?thesis by auto
  next
    case False
    with w x(2) obtain e where "look (of_nat ?t) (relay_cache s) (hmac_sig ?p) = Some e" by auto
    with hears_known [OF Cons.prems(1) x(1,3), of l "of_nat ?t" e "heard_jitter x"] Cons.prems(3) x(2) obtain s1 evs where
      r: "onResult s (Some (frame_bytes ?p)) (heard_from x) (of_nat ?t) True (heard_jitter x) = Some (s1, evs)"
      "udp_packets evs = []" "cache_inv (relay_cache s1)" "remembers v l s1" by auto
    from Cons.IH [OF r(3) x(5) r(4) Cons.prems(4)] r(1,2) False show ?thesis by auto
  qed
qed

section \<open>Properties\<close>


text \<open>A burst, its echoes, the next burst of the victim, and a recording of it a day later.\<close>

definition sample_hearings :: "hearing list" where
  "sample_hearings = map (\<lambda>t. \<lparr>heard_packet = sample_packet, heard_from = sample_mac, heard_at = t, heard_jitter = 60\<rparr>)
     [1000, 1200, 2999, 6000, 86406000]"


end
