(* ===== verification/Depths.thy ===== *)
theory Depths
  imports Prelude
begin

text \<open>
  The breadth-first search of tools/generate\_mesh.py, which gives every network its depth from
  the victim's. The dictionary \<open>depths\<close> is an association list in the order of insertion; the
  order in which Python goes through a set of neighbours is part of the argument \<open>nbrs\<close>. The
  search is a partial function, so that it returns at all is one of its theorems.
\<close>

section \<open>Model\<close>

text \<open>The inner loop over the neighbours of a network of depth \<open>d\<close>.\<close>

fun visit :: "nat \<Rightarrow> nat list \<Rightarrow> nat list \<times> (nat \<times> nat) list \<Rightarrow> nat list \<times> (nat \<times> nat) list" where
  "visit d [] (queue, depths) = (queue, depths)"
| "visit d (m # ms) (queue, depths) =
     visit d ms (if m \<notin> fst ` set depths then (queue @ [m], depths @ [(m, d + 1)]) else (queue, depths))"

text \<open>None is a search that does not end, or the KeyError of a missing key.\<close>

partial_function (option) bfs :: "(nat \<Rightarrow> nat list) \<Rightarrow> nat list \<Rightarrow> (nat \<times> nat) list \<Rightarrow> (nat \<times> nat) list option" where
  "bfs nbrs queue depths =
     (case queue of
        [] \<Rightarrow> Some depths
      | current # rest \<Rightarrow>
          (case map_of depths current of
             None \<Rightarrow> None
           | Some d \<Rightarrow> (case visit d (nbrs current) (rest, depths) of (q, ds) \<Rightarrow> bfs nbrs q ds)))"

section \<open>The distance it should compute\<close>

text \<open>The neighbours as sets: the distance does not depend on the order of iteration.\<close>

inductive hops :: "(nat \<Rightarrow> nat set) \<Rightarrow> nat \<Rightarrow> nat \<Rightarrow> nat \<Rightarrow> bool" for nbrs s where
  hops_0: "hops nbrs s 0 s"
| hops_Suc: "hops nbrs s d m \<Longrightarrow> n \<in> nbrs m \<Longrightarrow> hops nbrs s (Suc d) n"

inductive_cases hops_SucE: "hops nbrs s (Suc d) n"

definition depth_of :: "(nat \<times> nat) list \<Rightarrow> nat \<Rightarrow> nat" where
  "depth_of depths n = the (map_of depths n)"

section \<open>Invariant of the loop\<close>

lemma visit_new:
  "\<exists>new. visit d ms (q, ds) = (q @ new, ds @ map (\<lambda>m. (m, d + 1)) new) \<and> distinct new \<and> set new = set ms - fst ` set ds"
proof (induction ms arbitrary: q ds)
  case (Cons m ms)
  show ?case
  proof (cases "m \<in> fst ` set ds")
    case True
    with Cons.IH [of q ds] show ?thesis by auto
  next
    case False
    from Cons.IH [of "q @ [m]" "ds @ [(m, d + 1)]"] obtain new where
      "visit d ms (q @ [m], ds @ [(m, d + 1)]) = ((q @ [m]) @ new, (ds @ [(m, d + 1)]) @ map (\<lambda>m. (m, d + 1)) new)"
      "distinct new" "set new = set ms - fst ` set (ds @ [(m, d + 1)])" by blast
    with False show ?thesis by (intro exI [of _ "m # new"]) auto
  qed
qed simp

definition bfs_inv :: "(nat \<Rightarrow> nat list) \<Rightarrow> nat \<Rightarrow> nat list \<Rightarrow> (nat \<times> nat) list \<Rightarrow> bool" where
  "bfs_inv nbrs s queue ds \<longleftrightarrow> distinct (map fst ds) \<and> (s, 0) \<in> set ds \<and> set queue \<subseteq> fst ` set ds \<and>
     (\<forall>(n, d) \<in> set ds. hops (set \<circ> nbrs) s d n) \<and>
     (\<forall>(n, d) \<in> set ds. n \<notin> set queue \<longrightarrow> (\<forall>m \<in> set (nbrs n). \<exists>e \<le> d + 1. (m, e) \<in> set ds)) \<and>
     sorted (map (depth_of ds) queue) \<and>
     (\<forall>n \<in> set queue. \<forall>(m, e) \<in> set ds. e \<le> depth_of ds n + 1)"

lemma depth_of_mem: "distinct (map fst ds) \<Longrightarrow> (n, d) \<in> set ds \<Longrightarrow> depth_of ds n = d"
  by (simp add: depth_of_def)

lemma bfs_inv_start: "bfs_inv nbrs s [s] [(s, 0)]"
  by (auto simp: bfs_inv_def intro: hops_0)

lemma bfs_inv_step:
  assumes inv: "bfs_inv nbrs s (n # queue) ds" and v: "visit d (nbrs n) (queue, ds) = (q, ds')" and d: "map_of ds n = Some d"
  shows "bfs_inv nbrs s q ds'"
proof -
  obtain new where new: "q = queue @ new" "ds' = ds @ map (\<lambda>m. (m, d + 1)) new" "distinct new" "set new = set (nbrs n) - fst ` set ds"
    using visit_new [of d "nbrs n" queue ds] v by auto
  have dist: "distinct (map fst ds)" and nd: "(n, d) \<in> set ds" using inv d by (auto simp: bfs_inv_def dest: map_of_SomeD)
  have dn: "depth_of ds n = d" using depth_of_mem [OF dist nd] .
  have dist': "distinct (map fst ds')" using dist new by (auto simp: o_def)
  have old: "depth_of ds' m = depth_of ds m" if "m \<in> fst ` set ds" for m
    using that dist dist' depth_of_mem by (fastforce simp: new(2))
  have fresh: "depth_of ds' m = d + 1" if "m \<in> set new" for m
    using that by (intro depth_of_mem [OF dist']) (simp add: new(2))
  have keys: "set queue \<subseteq> fst ` set ds" using inv by (simp add: bfs_inv_def)
  have hop: "\<forall>(m, e) \<in> set ds'. hops (set \<circ> nbrs) s e m"
    using inv nd new(4) by (auto simp: bfs_inv_def new(2) intro: hops_Suc)
  have upper: "e \<le> d + 1" if "(m, e) \<in> set ds" for m e
    using inv that dn by (auto simp: bfs_inv_def)
  have "\<exists>e \<le> k + 1. (m, e) \<in> set ds'" if "(i, k) \<in> set ds'" "i \<notin> set q" "m \<in> set (nbrs i)" for i k m
  proof (cases "i = n")
    case True
    with that dist' nd have k: "k = d" using depth_of_mem [OF dist', of n k] depth_of_mem [OF dist', of n d] by (simp add: new(2))
    show ?thesis
    proof (cases "m \<in> fst ` set ds")
      case True
      with upper k show ?thesis by (force simp: new(2))
    next
      case False
      with that(3) \<open>i = n\<close> new(4) have "m \<in> set new" by simp
      with k show ?thesis by (intro exI [of _ "d + 1"]) (simp add: new(2))
    qed
  next
    case False
    from that have "(i, k) \<in> set ds" "i \<notin> set (n # queue)" using False by (auto simp: new)
    with inv that(3) show ?thesis by (fastforce simp: bfs_inv_def new(2))
  qed
  moreover have "sorted (map (depth_of ds') q)"
  proof -
    have "depth_of ds' x = depth_of ds x" if "x \<in> set queue" for x
      using that old keys by blast
    then have "map (depth_of ds') q = map (depth_of ds) queue @ map (\<lambda>_. d + 1) new"
      using fresh by (simp add: new(1))
    moreover have "depth_of ds m \<le> d + 1" if "m \<in> set queue" for m
      using that keys upper dist depth_of_mem by fastforce
    moreover have "sorted (map (depth_of ds) queue)" using inv by (simp add: bfs_inv_def)
    moreover have "sorted (map (\<lambda>_. d + 1) new)" by (simp add: map_replicate_const)
    ultimately show ?thesis by (auto simp: sorted_append)
  qed
  moreover have "e \<le> depth_of ds' i + 1" if "i \<in> set q" "(m, e) \<in> set ds'" for i m e
  proof -
    have "d \<le> depth_of ds' i"
    proof (cases "i \<in> set queue")
      case True
      with old keys have "depth_of ds' i = depth_of ds i" by blast
      with True inv dn show ?thesis by (simp add: bfs_inv_def)
    next
      case False
      with that fresh show ?thesis by (simp add: new(1))
    qed
    moreover have "e \<le> d + 1" using that(2) upper by (auto simp: new(2))
    ultimately show ?thesis by simp
  qed
  moreover have "(s, 0) \<in> set ds'" "set q \<subseteq> fst ` set ds'"
    using inv keys unfolding bfs_inv_def new(1,2) set_append image_Un by (auto simp: image_image)
  ultimately show ?thesis using dist' hop unfolding bfs_inv_def by blast
qed

section \<open>Termination and result\<close>

lemma bfs_returns:
  assumes "bfs_inv nbrs s queue ds" "finite U" "fst ` set ds \<subseteq> U" "\<And>n. n \<in> U \<Longrightarrow> set (nbrs n) \<subseteq> U"
  shows "\<exists>ds'. bfs nbrs queue ds = Some ds' \<and> bfs_inv nbrs s [] ds' \<and> fst ` set ds' \<subseteq> U"
  using assms
proof (induction "2 * card (U - fst ` set ds) + length queue" arbitrary: queue ds rule: less_induct)
  case less
  show ?case
  proof (cases queue)
    case Nil
    with less.prems show ?thesis by (simp add: bfs.simps [of nbrs "[]" ds])
  next
    case (Cons n rest)
    have "n \<in> fst ` set ds" using less.prems(1) Cons by (auto simp: bfs_inv_def)
    then obtain d where d: "map_of ds n = Some d" by (metis map_of_eq_None_iff not_Some_eq)
    obtain q ds' where v: "visit d (nbrs n) (rest, ds) = (q, ds')" by fastforce
    obtain new where new: "q = rest @ new" "ds' = ds @ map (\<lambda>m. (m, d + 1)) new" "distinct new" "set new = set (nbrs n) - fst ` set ds"
      using visit_new [of d "nbrs n" rest ds] v by auto
    have U': "fst ` set ds' \<subseteq> U" "set new \<subseteq> U - fst ` set ds"
    proof -
      from less.prems(3) \<open>n \<in> fst ` set ds\<close> have "set (nbrs n) \<subseteq> U" by (blast intro: less.prems(4) [THEN subsetD])
      with new(4) less.prems(3) show "fst ` set ds' \<subseteq> U" "set new \<subseteq> U - fst ` set ds"
        unfolding new(2) set_append image_Un by auto
    qed
    have "fst ` set ds' = fst ` set ds \<union> set new" by (simp add: new(2) image_Un image_image)
    then have "U - fst ` set ds' = (U - fst ` set ds) - set new" by blast
    then have "card (U - fst ` set ds') + length new = card (U - fst ` set ds)"
      using U'(2) less.prems(2) distinct_card [OF new(3)] card_mono [OF _ U'(2)] by (simp add: card_Diff_subset)
    then have "2 * card (U - fst ` set ds') + length q < 2 * card (U - fst ` set ds) + length queue"
      by (simp add: Cons new(1))
    from less.hyps [OF this bfs_inv_step [OF less.prems(1) [unfolded Cons] v d] less.prems(2) U'(1) less.prems(4)]
    show ?thesis by (simp add: bfs.simps [of nbrs "n # rest" ds] Cons d v)
  qed
qed

lemma bfs_inv_least:
  assumes "bfs_inv nbrs s [] ds" "hops (set \<circ> nbrs) s k n"
  shows "\<exists>d \<le> k. (n, d) \<in> set ds"
  using assms(2)
proof (induction rule: hops.induct)
  case hops_0
  with assms(1) show ?case by (auto simp: bfs_inv_def)
next
  case (hops_Suc k m n)
  then obtain d where d: "d \<le> k" "(m, d) \<in> set ds" by blast
  with assms(1) hops_Suc.hyps(2) [unfolded o_apply] obtain e where "e \<le> d + 1" "(n, e) \<in> set ds" by (fastforce simp: bfs_inv_def)
  with d(1) show ?case by (intro exI [of _ e]) simp
qed

lemma bfs_result:
  assumes "finite U" "s \<in> U" "\<And>n. n \<in> U \<Longrightarrow> set (nbrs n) \<subseteq> U"
  shows "\<exists>ds. bfs nbrs [s] [(s, 0)] = Some ds \<and> distinct (map fst ds) \<and> fst ` set ds \<subseteq> U \<and> s \<in> fst ` set ds \<and>
    (\<forall>n d. (n, d) \<in> set ds \<longleftrightarrow> hops (set \<circ> nbrs) s d n \<and> (\<forall>k < d. \<not> hops (set \<circ> nbrs) s k n))"
proof -
  obtain ds where ds: "bfs nbrs [s] [(s, 0)] = Some ds" "bfs_inv nbrs s [] ds" "fst ` set ds \<subseteq> U"
    using bfs_returns [OF bfs_inv_start assms(1), of s nbrs] assms(2,3) by auto
  have dist: "distinct (map fst ds)" and h: "\<And>n d. (n, d) \<in> set ds \<Longrightarrow> hops (set \<circ> nbrs) s d n" and s: "(s, 0) \<in> set ds"
    using ds(2) by (auto simp: bfs_inv_def)
  have "(n, d) \<in> set ds \<longleftrightarrow> hops (set \<circ> nbrs) s d n \<and> (\<forall>k < d. \<not> hops (set \<circ> nbrs) s k n)" for n d
  proof
    assume n: "(n, d) \<in> set ds"
    have "d \<le> k" if k: "hops (set \<circ> nbrs) s k n" for k
    proof -
      from bfs_inv_least [OF ds(2) k] obtain e where "e \<le> k" "(n, e) \<in> set ds" by blast
      with depth_of_mem [OF dist n] depth_of_mem [OF dist, of n e] show ?thesis by simp
    qed
    with h [OF n] show "hops (set \<circ> nbrs) s d n \<and> (\<forall>k < d. \<not> hops (set \<circ> nbrs) s k n)" by fastforce
  next
    assume d: "hops (set \<circ> nbrs) s d n \<and> (\<forall>k < d. \<not> hops (set \<circ> nbrs) s k n)"
    from bfs_inv_least [OF ds(2)] d obtain e where "e \<le> d" "(n, e) \<in> set ds" by blast
    moreover from h [OF this(2)] d have "\<not> e < d" by blast
    ultimately show "(n, d) \<in> set ds" by simp
  qed
  moreover have "s \<in> fst ` set ds" using s by (rule rev_image_eqI) simp
  ultimately show ?thesis using ds(1,3) dist by blast
qed

end
