(* ===== verification/Generator.thy ===== *)
theory Generator
  imports Depths
begin

text \<open>
  The topology generator tools/generate\_mesh.py: the dialogue with its user, the random placement
  of the relays on networks, the search for the depth of every network, the placement of the exit
  nodes and the services and networks of the compose file. Networks stand for their numbers
  (\<open>n\<close> for zone\_n). What the module \<open>random\<close> returns is one \<open>draw\<close> per relay, and \<open>draws_ok\<close> is
  what its documentation promises of it; the order in which Python goes through a set is \<open>ord\<close>.
  The theorems say that the file defines every network a service uses, that every network of the
  main mesh can be reached from the victim's, and that the exit nodes stand on the furthest
  reachable networks.
\<close>

section \<open>Model: the dialogue\<close>

definition py_space :: "char \<Rightarrow> bool" where
  "py_space c \<longleftrightarrow> c = CHR '' '' \<or> (9 \<le> (of_char c :: nat) \<and> (of_char c :: nat) \<le> 13) \<or>
     (28 \<le> (of_char c :: nat) \<and> (of_char c :: nat) \<le> 31)"

definition py_strip :: "string \<Rightarrow> string" where
  "py_strip s = rev (dropWhile py_space (rev (dropWhile py_space s)))"

definition py_lower :: "string \<Rightarrow> string" where
  "py_lower s = map (\<lambda>c. if 65 \<le> (of_char c :: nat) \<and> (of_char c :: nat) \<le> 90 then char_of ((of_char c :: nat) + 32) else c) s"

definition py_digit :: "char \<Rightarrow> bool" where
  "py_digit c \<longleftrightarrow> 48 \<le> (of_char c :: nat) \<and> (of_char c :: nat) \<le> 57"

definition digit_value :: "char \<Rightarrow> nat" where
  "digit_value c = of_char c - 48"

text \<open>Digits with single underscores between them, after a first digit.\<close>

fun py_digits :: "nat \<Rightarrow> string \<Rightarrow> nat option" where
  "py_digits acc [] = Some acc"
| "py_digits acc (c # cs) =
     (if py_digit c then py_digits (10 * acc + digit_value c) cs
      else if c = CHR ''_'' then
        (case cs of
           [] \<Rightarrow> None
         | d # ds \<Rightarrow> if py_digit d then py_digits (10 * acc + digit_value d) ds else None)
      else None)"

fun py_nat :: "string \<Rightarrow> nat option" where
  "py_nat [] = None"
| "py_nat (c # cs) =
     (if py_digit c \<and> length (filter py_digit (c # cs)) \<le> 4300 then py_digits (digit_value c) cs else None)"

text \<open>\<open>int\<close> of an ASCII string; None is its ValueError.\<close>

fun py_int_from :: "string \<Rightarrow> int option" where
  "py_int_from [] = None"
| "py_int_from (c # cs) =
     (if c = CHR ''-'' then map_option (\<lambda>n. - int n) (py_nat cs)
      else if c = CHR ''+'' then map_option int (py_nat cs)
      else map_option int (py_nat (c # cs)))"

definition py_int :: "string \<Rightarrow> int option" where
  "py_int s = py_int_from (py_strip s)"

text \<open>The lines the user still types are state; None is the EOFError of \<open>input\<close>.\<close>

fun get_user_input :: "string list \<Rightarrow> (nat \<times> string list) option" where
  "get_user_input [] = None"
| "get_user_input (line # rest) =
     (case py_int line of
        None \<Rightarrow> get_user_input rest
      | Some n \<Rightarrow> if n \<le> 0 then get_user_input rest else Some (nat n, rest))"

definition WARNING_LIMIT :: nat where
  "WARNING_LIMIT = 50"

fun confirm :: "nat \<Rightarrow> string list \<Rightarrow> (bool \<times> string list) option" where
  "confirm num_relays ls =
     (if num_relays > WARNING_LIMIT then
        (case ls of
           [] \<Rightarrow> None
         | line # rest \<Rightarrow> Some (py_lower (py_strip line) = ''y'', rest))
      else Some (True, ls))"

section \<open>Model: the relays\<close>

record draw =
  is_main_mesh :: bool
  num_extra :: nat
  anchor :: nat
  sampled :: "nat list"

record placement =
  active_networks :: "nat set"
  all_generated_networks :: "nat set"
  relay_networks :: "nat list list"

datatype set_site =
    RelaySet nat
  | GraphSet nat

type_synonym set_order = "set_site \<Rightarrow> nat set \<Rightarrow> nat list"

definition max_extra_interfaces :: "nat \<Rightarrow> nat" where
  "max_extra_interfaces num_relays = max 2 (num_relays div 10)"

definition inactive_pool :: "nat \<Rightarrow> nat set \<Rightarrow> nat set" where
  "inactive_pool total_networks active = {2..total_networks} - active"

definition island_pool :: "nat \<Rightarrow> nat \<Rightarrow> nat set \<Rightarrow> nat set" where
  "island_pool total_networks extra active =
     (if card (inactive_pool total_networks active) < extra + 1 then {2..total_networks} else inactive_pool total_networks active)"

text \<open>The results of \<open>random.choice\<close> and \<open>random.sample\<close> are in the draw.\<close>

definition relay_nets :: "nat \<Rightarrow> draw \<Rightarrow> nat set \<Rightarrow> nat set" where
  "relay_nets total_networks d active =
     (if is_main_mesh d
      then {anchor d} \<union> (if inactive_pool total_networks active \<noteq> {} then set (sampled d) else {})
      else if island_pool total_networks (num_extra d) active \<noteq> {} then set (sampled d) else {})"

definition add_relay :: "set_order \<Rightarrow> nat \<Rightarrow> draw \<Rightarrow> placement \<Rightarrow> placement" where
  "add_relay ord total_networks d P =
     (let nets = relay_nets total_networks d (active_networks P)
      in \<lparr>active_networks = (if is_main_mesh d then active_networks P \<union> nets else active_networks P),
          all_generated_networks = all_generated_networks P \<union> nets,
          relay_networks = relay_networks P @ [ord (RelaySet (length (relay_networks P) + 1)) nets]\<rparr>)"

fun add_relays :: "set_order \<Rightarrow> nat \<Rightarrow> draw list \<Rightarrow> placement \<Rightarrow> placement" where
  "add_relays ord total_networks [] P = P"
| "add_relays ord total_networks (d # ds) P = add_relays ord total_networks ds (add_relay ord total_networks d P)"

definition no_relays :: placement where
  "no_relays = \<lparr>active_networks = {1}, all_generated_networks = {}, relay_networks = []\<rparr>"

text \<open>What \<open>random\<close> promises of the draws.\<close>

definition draw_ok :: "nat \<Rightarrow> nat \<Rightarrow> draw \<Rightarrow> nat set \<Rightarrow> bool" where
  "draw_ok num_relays total_networks d active \<longleftrightarrow>
     1 \<le> num_extra d \<and> num_extra d \<le> max_extra_interfaces num_relays \<and> distinct (sampled d) \<and>
     (if is_main_mesh d
      then anchor d \<in> active \<and> set (sampled d) \<subseteq> inactive_pool total_networks active \<and>
        length (sampled d) = min (num_extra d) (card (inactive_pool total_networks active))
      else set (sampled d) \<subseteq> island_pool total_networks (num_extra d) active \<and>
        length (sampled d) = min (num_extra d + 1) (card (island_pool total_networks (num_extra d) active)))"

fun draws_ok :: "nat \<Rightarrow> set_order \<Rightarrow> nat \<Rightarrow> draw list \<Rightarrow> placement \<Rightarrow> bool" where
  "draws_ok num_relays ord total_networks [] P \<longleftrightarrow> True"
| "draws_ok num_relays ord total_networks (d # ds) P \<longleftrightarrow>
     draw_ok num_relays total_networks d (active_networks P) \<and> draws_ok num_relays ord total_networks ds (add_relay ord total_networks d P)"

section \<open>Model: the depths, the exit nodes and the compose file\<close>

definition graph :: "nat list list \<Rightarrow> nat \<Rightarrow> nat set" where
  "graph relays n1 = \<Union> (set (map (\<lambda>nets. if n1 \<in> set nets then set nets - {n1} else {}) relays))"

definition network_depths :: "set_order \<Rightarrow> nat list list \<Rightarrow> (nat \<times> nat) list option" where
  "network_depths ord relays = bfs (\<lambda>n. ord (GraphSet n) (graph relays n)) [1] [(1, 0)]"

definition reachable_networks :: "(nat \<times> nat) list \<Rightarrow> nat list" where
  "reachable_networks depths = sort_key (\<lambda>n. - int (depth_of depths n)) (map fst depths)"

definition exit_nodes :: "nat list \<Rightarrow> nat \<Rightarrow> nat list" where
  "exit_nodes reachable num_exits =
     (let target_networks = (if reachable \<noteq> [] then take num_exits reachable else [1])
      in map (\<lambda>i. target_networks ! ((i - 1) mod length target_networks)) [1..<num_exits + 1])"

datatype service_name =
    Victim
  | Relay nat
  | Exit nat

record compose =
  services :: "(service_name \<times> nat list) list"
  compose_networks :: "nat list"

text \<open>The template adds the victim on zone 1.\<close>

definition render :: "nat list list \<Rightarrow> nat list \<Rightarrow> nat list \<Rightarrow> compose" where
  "render relays exits nets =
     \<lparr>services = (Victim, [1]) # map (\<lambda>i. (Relay (i + 1), relays ! i)) [0..<length relays] @
        map (\<lambda>i. (Exit (i + 1), [exits ! i])) [0..<length exits],
      compose_networks = nets\<rparr>"

definition generate :: "set_order \<Rightarrow> nat \<Rightarrow> nat \<Rightarrow> draw list \<Rightarrow> compose option" where
  "generate ord num_relays num_exits draws =
     (let P = add_relays ord (num_relays * 2) draws no_relays
      in map_option
           (\<lambda>depths.
              let exits = exit_nodes (reachable_networks depths) num_exits
              in render (relay_networks P) exits (sorted_list_of_set (all_generated_networks P \<union> set exits)))
           (network_depths ord (relay_networks P)))"

datatype outcome =
    Generated compose
  | Aborted
  | EndOfInput
  | NoResult

text \<open>The whole program; \<open>draws n\<close> are the draws for \<open>n\<close> relays.\<close>

definition build_mesh :: "set_order \<Rightarrow> (nat \<Rightarrow> draw list) \<Rightarrow> string list \<Rightarrow> outcome" where
  "build_mesh ord draws ls =
     (case get_user_input ls of
        None \<Rightarrow> EndOfInput
      | Some (num_relays, ls1) \<Rightarrow>
          (case confirm num_relays ls1 of
             None \<Rightarrow> EndOfInput
           | Some (False, ls2) \<Rightarrow> Aborted
           | Some (True, ls2) \<Rightarrow>
               (case get_user_input ls2 of
                  None \<Rightarrow> EndOfInput
                | Some (num_exits, ls3) \<Rightarrow>
                    (case generate ord num_relays num_exits (draws num_relays) of
                       None \<Rightarrow> NoResult
                     | Some c \<Rightarrow> Generated c))))"

section \<open>The dialogue\<close>

definition rejected :: "string \<Rightarrow> bool" where
  "rejected line \<longleftrightarrow> (case py_int line of None \<Rightarrow> True | Some n \<Rightarrow> n \<le> 0)"

lemma get_user_input_split:
  "get_user_input ls =
     (case dropWhile rejected ls of [] \<Rightarrow> None | line # rest \<Rightarrow> Some (nat (the (py_int line)), rest))"
  by (induction ls) (auto simp: rejected_def split: option.split)

lemma get_user_input_positive: "get_user_input ls = Some (n, rest) \<Longrightarrow> 0 < n"
  by (induction ls) (auto split: option.splits if_splits)

section \<open>The graph of the networks\<close>

definition order_ok :: "set_order \<Rightarrow> bool" where
  "order_ok ord \<longleftrightarrow> (\<forall>site S. finite S \<longrightarrow> set (ord site S) = S \<and> distinct (ord site S))"

definition sorted_order :: set_order where
  "sorted_order site S = sorted_list_of_set S"

lemma order_ok_sorted: "order_ok sorted_order"
  by (simp add: order_ok_def sorted_order_def)

lemma order_okD: "order_ok ord \<Longrightarrow> finite S \<Longrightarrow> set (ord site S) = S"
  by (simp add: order_ok_def)

lemma in_graph: "m \<in> graph relays n \<longleftrightarrow> (\<exists>nets \<in> set relays. n \<in> set nets \<and> m \<in> set nets \<and> m \<noteq> n)"
  by (auto simp: graph_def split: if_splits)

lemma finite_graph [simp]: "finite (graph relays n)"
  by (auto simp: graph_def)

lemma graph_mono: "set relays \<subseteq> set relays' \<Longrightarrow> hops (graph relays) s d n \<Longrightarrow> hops (graph relays') s d n"
proof (rotate_tac, induction rule: hops.induct)
  case (hops_Suc d m n)
  then have "n \<in> graph relays' m" by (auto simp: in_graph)
  with hops_Suc show ?case by (blast intro: hops.hops_Suc)
qed (rule hops_0)

lemma graph_hop: "hops (graph relays) s d m \<Longrightarrow> nets \<in> set relays \<Longrightarrow> m \<in> set nets \<Longrightarrow> n \<in> set nets \<Longrightarrow>
    \<exists>e \<le> d + 1. hops (graph relays) s e n"
proof (cases "n = m")
  case False
  assume "hops (graph relays) s d m" "nets \<in> set relays" "m \<in> set nets" "n \<in> set nets"
  with False have "hops (graph relays) s (Suc d) n" by (intro hops_Suc [where m = m]) (auto simp: in_graph)
  then show ?thesis by (intro exI [of _ "Suc d"]) simp
qed (auto intro: exI [of _ d])

text \<open>The depths of the generator are the distances from zone 1.\<close>

definition distances :: "nat list list \<Rightarrow> (nat \<times> nat) list \<Rightarrow> bool" where
  "distances relays depths \<longleftrightarrow> distinct (map fst depths) \<and>
     (\<forall>n d. (n, d) \<in> set depths \<longleftrightarrow> hops (graph relays) 1 d n \<and> (\<forall>k < d. \<not> hops (graph relays) 1 k n))"

lemma network_depths_distances:
  assumes "order_ok ord"
  obtains depths where "network_depths ord relays = Some depths" "distances relays depths"
proof -
  let ?nbrs = "\<lambda>n. ord (GraphSet n) (graph relays n)" and ?U = "insert 1 (\<Union> (set (map set relays)))"
  have s: "set (?nbrs n) = graph relays n" for n using order_okD [OF assms finite_graph] .
  have "set (?nbrs n) \<subseteq> ?U" for n by (auto simp: s in_graph)
  then have "\<exists>ds. bfs ?nbrs [1] [(1, 0)] = Some ds \<and> distinct (map fst ds) \<and> fst ` set ds \<subseteq> ?U \<and> 1 \<in> fst ` set ds \<and>
    (\<forall>n d. (n, d) \<in> set ds \<longleftrightarrow> hops (set \<circ> ?nbrs) 1 d n \<and> (\<forall>k < d. \<not> hops (set \<circ> ?nbrs) 1 k n))"
    by (intro bfs_result) auto
  moreover have "set \<circ> ?nbrs = graph relays" by (simp add: fun_eq_iff s)
  ultimately show thesis using that by (auto simp: network_depths_def distances_def)
qed

lemma distances_key:
  assumes "distances relays depths"
  shows "n \<in> fst ` set depths \<longleftrightarrow> (\<exists>d. hops (graph relays) 1 d n)"
proof
  assume "\<exists>d. hops (graph relays) 1 d n"
  then have "hops (graph relays) 1 (LEAST d. hops (graph relays) 1 d n) n" by (rule LeastI_ex)
  moreover have "\<forall>k < (LEAST d. hops (graph relays) 1 d n). \<not> hops (graph relays) 1 k n" by (auto dest: not_less_Least)
  ultimately show "n \<in> fst ` set depths" using assms unfolding distances_def by (metis fst_conv image_eqI)
qed (use assms in \<open>auto simp: distances_def\<close>)

lemma distances_start: "distances relays depths \<Longrightarrow> 1 \<in> fst ` set depths"
  by (auto simp: distances_key intro: hops_0)

section \<open>The placement of the relays\<close>

lemma finite_relay_nets [simp]: "finite (relay_nets total_networks d active)"
  by (simp add: relay_nets_def)

lemma add_relay_nets:
  assumes "order_ok ord"
  shows "relay_networks (add_relay ord total_networks d P) = relay_networks P @ [ord (RelaySet (length (relay_networks P) + 1)) (relay_nets total_networks d (active_networks P))]"
    "set (ord (RelaySet i) (relay_nets total_networks d active)) = relay_nets total_networks d active"
  using order_okD [OF assms finite_relay_nets] by (simp_all add: add_relay_def Let_def)

lemma add_relays_length: "length (relay_networks (add_relays ord total_networks ds P)) = length (relay_networks P) + length ds"
  by (induction ds arbitrary: P) (simp_all add: add_relay_def Let_def)

text \<open>The networks that \<open>all_generated_networks\<close> collects are those of the relays.\<close>

definition placement_inv :: "placement \<Rightarrow> bool" where
  "placement_inv P \<longleftrightarrow> finite (active_networks P) \<and> 1 \<in> active_networks P \<and>
     all_generated_networks P = \<Union> (set (map set (relay_networks P)))"

lemma add_relays_inv: "order_ok ord \<Longrightarrow> placement_inv P \<Longrightarrow> placement_inv (add_relays ord total_networks ds P)"
proof (induction ds arbitrary: P)
  case (Cons d ds)
  have "placement_inv (add_relay ord total_networks d P)"
    using Cons.prems(2) add_relay_nets(2) [OF Cons.prems(1)]
    by (simp add: placement_inv_def add_relay_def Let_def Un_commute)
  with Cons show ?case by simp
qed simp

lemma no_relays_inv: "placement_inv no_relays"
  by (simp add: placement_inv_def no_relays_def)

text \<open>A network is active only if it can be reached from zone 1.\<close>

definition anchored :: "placement \<Rightarrow> bool" where
  "anchored P \<longleftrightarrow> (\<forall>n \<in> active_networks P. \<exists>d. hops (graph (relay_networks P)) 1 d n)"

lemma add_relay_anchored:
  assumes "order_ok ord" "anchored P" "draw_ok num_relays total_networks d (active_networks P)"
  shows "anchored (add_relay ord total_networks d P)"
proof -
  let ?nets = "relay_nets total_networks d (active_networks P)" and ?P = "add_relay ord total_networks d P"
  have old: "\<exists>k. hops (graph (relay_networks ?P)) 1 k n" if "n \<in> active_networks P" for n
    using assms(2) that graph_mono [of "relay_networks P" "relay_networks ?P"]
    by (fastforce simp: anchored_def add_relay_nets [OF assms(1)])
  show ?thesis
  proof (cases "is_main_mesh d")
    case True
    have a: "anchor d \<in> active_networks P" "anchor d \<in> ?nets"
      using assms(3) True by (simp_all add: draw_ok_def relay_nets_def)
    have r: "ord (RelaySet (length (relay_networks P) + 1)) ?nets \<in> set (relay_networks ?P)"
      by (simp add: add_relay_nets [OF assms(1)])
    from old [OF a(1)] obtain k where k: "hops (graph (relay_networks ?P)) 1 k (anchor d)" by blast
    have "\<exists>k. hops (graph (relay_networks ?P)) 1 k n" if "n \<in> ?nets" for n
      using graph_hop [OF k r] a(2) that by (auto simp: add_relay_nets(2) [OF assms(1)])
    with old True show ?thesis by (auto simp: anchored_def add_relay_def Let_def)
  next
    case False
    then have "active_networks ?P = active_networks P" by (simp add: add_relay_def Let_def)
    with old show ?thesis by (simp add: anchored_def)
  qed
qed

lemma add_relays_anchored:
  "order_ok ord \<Longrightarrow> anchored P \<Longrightarrow> draws_ok num_relays ord total_networks ds P \<Longrightarrow> anchored (add_relays ord total_networks ds P)"
  by (induction ds arbitrary: P) (auto intro: add_relay_anchored)

lemma no_relays_anchored: "anchored no_relays"
  by (auto simp: anchored_def no_relays_def intro: hops_0)

section \<open>The exit nodes\<close>

lemma exit_nodes_length [simp]: "length (exit_nodes reachable num_exits) = num_exits"
  by (simp add: exit_nodes_def Let_def)

lemma exit_nodes_nth:
  assumes "reachable \<noteq> []" "i < num_exits"
  shows "exit_nodes reachable num_exits ! i = reachable ! (i mod min num_exits (length reachable))"
proof -
  have "i mod min num_exits (length reachable) < min num_exits (length reachable)"
    using assms by (intro mod_less_divisor) auto
  with assms show ?thesis by (simp add: exit_nodes_def Let_def min.commute del: upt_Suc)
qed

lemma exit_nodes_set:
  assumes "reachable \<noteq> []"
  shows "set (exit_nodes reachable num_exits) = set (take num_exits reachable)"
proof -
  let ?m = "min num_exits (length reachable)"
  have "set (exit_nodes reachable num_exits) = (\<lambda>i. reachable ! (i mod ?m)) ` {..<num_exits}"
    by (force simp: set_conv_nth image_iff exit_nodes_nth [OF assms])
  also have "\<dots> = (\<lambda>i. reachable ! i) ` {..<?m}"
  proof (rule set_eqI)
    fix n
    have "\<exists>i < ?m. n = reachable ! i" if "i < num_exits" "n = reachable ! (i mod ?m)" for i
      using that assms mod_less_divisor [of ?m i] by (intro exI [of _ "i mod ?m"]) auto
    moreover have "\<exists>j < num_exits. n = reachable ! (j mod ?m)" if "i < ?m" "n = reachable ! i" for i
      using that by (intro exI [of _ i]) auto
    ultimately show "n \<in> (\<lambda>i. reachable ! (i mod ?m)) ` {..<num_exits} \<longleftrightarrow> n \<in> (\<lambda>i. reachable ! i) ` {..<?m}"
      by (auto simp: image_iff Bex_def)
  qed
  also have "\<dots> = set (take ?m reachable)"
    using nth_image [of ?m reachable] by (simp add: lessThan_atLeast0)
  also have "take ?m reachable = take num_exits reachable" by (simp add: min_def)
  finally show ?thesis .
qed

lemma reachable_networks_set [simp]: "set (reachable_networks depths) = fst ` set depths"
  by (simp add: reachable_networks_def)

lemma reachable_take:
  assumes "m \<in> set (take k (reachable_networks depths))" "n \<in> set (reachable_networks depths) - set (take k (reachable_networks depths))"
  shows "depth_of depths n \<le> depth_of depths m"
proof -
  let ?r = "reachable_networks depths"
  have "sorted (map (\<lambda>n. - int (depth_of depths n)) ?r)" by (simp add: reachable_networks_def)
  then have "sorted (map (\<lambda>n. - int (depth_of depths n)) (take k ?r @ drop k ?r))" by simp
  moreover have "n \<in> set (drop k ?r)"
    using assms(2) set_append [of "take k ?r" "drop k ?r"] by auto
  ultimately show ?thesis using assms(1) by (force simp only: map_append sorted_append set_map)
qed

lemma reachable_networks_distances:
  assumes "distances relays depths"
  shows "reachable_networks depths \<noteq> []" "n \<in> set (reachable_networks depths) \<longleftrightarrow> (\<exists>d. hops (graph relays) 1 d n)"
  using distances_start [OF assms] distances_key [OF assms, of n] set_empty [of "reachable_networks depths"] by auto

section \<open>The compose file\<close>

lemma map_nth_set: "(\<lambda>i. g (xs ! i)) ` {0..<length xs} = g ` set xs"
  using nth_image [of "length xs" xs] by (simp add: image_image [symmetric])

lemma render_services:
  "\<Union> (set (map (set \<circ> snd) (services (render relays exits nets)))) = {1} \<union> \<Union> (set (map set relays)) \<union> set exits"
  using map_nth_set [of set relays] map_nth_set [of "\<lambda>n. {n}" exits]
  by (simp add: render_def image_Un image_image Un_assoc)

lemma render_exit [simp]:
  "(Exit k, nets) \<in> set (services (render relays exits ns)) \<longleftrightarrow> (\<exists>i < length exits. k = i + 1 \<and> nets = [exits ! i])"
  by (auto simp: render_def)

lemma render_relay [simp]:
  "(Relay k, nets) \<in> set (services (render relays exits ns)) \<longleftrightarrow> (\<exists>i < length relays. k = i + 1 \<and> nets = relays ! i)"
  by (auto simp: render_def)

lemma render_networks [simp]: "compose_networks (render relays exits ns) = ns"
  by (simp add: render_def)

text \<open>The networks of the relays, and the depth of a network among them, as the file has them.\<close>

definition relays_of :: "compose \<Rightarrow> nat list list" where
  "relays_of c = concat (map (\<lambda>(s, nets). case s of Relay i \<Rightarrow> [nets] | _ \<Rightarrow> []) (services c))"

definition network_depth :: "compose \<Rightarrow> nat \<Rightarrow> nat \<Rightarrow> bool" where
  "network_depth c n d \<longleftrightarrow> hops (graph (relays_of c)) 1 d n \<and> (\<forall>k < d. \<not> hops (graph (relays_of c)) 1 k n)"

lemma relays_of_render [simp]: "relays_of (render relays exits ns) = relays"
proof -
  have "concat (map (\<lambda>i. [relays ! i]) [0..<length relays]) = relays"
    using map_nth [of relays] by (metis concat_map_singleton)
  then show ?thesis by (simp add: relays_of_def render_def o_def split_beta)
qed

lemma network_depth_distances: "distances (relays_of c) depths \<Longrightarrow> network_depth c n d \<longleftrightarrow> (n, d) \<in> set depths"
  by (simp add: distances_def network_depth_def)

lemma network_depth_ex: "hops (graph (relays_of c)) 1 d n \<Longrightarrow> \<exists>d. network_depth c n d"
  unfolding network_depth_def using exists_least_iff [of "\<lambda>d. hops (graph (relays_of c)) 1 d n"] by blast

definition placed :: "set_order \<Rightarrow> nat \<Rightarrow> draw list \<Rightarrow> placement" where
  "placed ord num_relays draws = add_relays ord (num_relays * 2) draws no_relays"

lemma placed_networks: "order_ok ord \<Longrightarrow> all_generated_networks (placed ord k draws) = \<Union> (set (map set (relay_networks (placed ord k draws))))"
  using add_relays_inv [OF _ no_relays_inv, of ord "k * 2" draws] by (simp add: placed_def placement_inv_def)

lemma placed_length [simp]: "length (relay_networks (placed ord k draws)) = length draws"
  by (simp add: placed_def add_relays_length no_relays_def)

text \<open>The generator always ends with a file.\<close>

lemma generate_result:
  assumes "order_ok ord"
  obtains depths where "distances (relay_networks (placed ord num_relays draws)) depths"
    "generate ord num_relays num_exits draws =
       Some (render (relay_networks (placed ord num_relays draws)) (exit_nodes (reachable_networks depths) num_exits)
         (sorted_list_of_set (all_generated_networks (placed ord num_relays draws) \<union>
           set (exit_nodes (reachable_networks depths) num_exits))))"
proof -
  obtain depths where "network_depths ord (relay_networks (placed ord num_relays draws)) = Some depths"
    "distances (relay_networks (placed ord num_relays draws)) depths" using network_depths_distances [OF assms] .
  then show thesis by (intro that [of depths]) (simp_all add: generate_def Let_def placed_def)
qed

lemma generate_some:
  assumes "order_ok ord" "generate ord num_relays num_exits draws = Some c"
  obtains depths where "distances (relay_networks (placed ord num_relays draws)) depths"
    "c = render (relay_networks (placed ord num_relays draws)) (exit_nodes (reachable_networks depths) num_exits)
         (sorted_list_of_set (all_generated_networks (placed ord num_relays draws) \<union>
           set (exit_nodes (reachable_networks depths) num_exits)))"
  using generate_result [OF assms(1), of num_relays draws num_exits] assms(2) by (metis option.inject)

text \<open>Zone 1, where the victim stands, has a relay, or else it is the only reachable network.\<close>

lemma zone_1_used:
  assumes "distances relays depths" "0 < num_exits"
  shows "1 \<in> \<Union> (set (map set relays)) \<union> set (exit_nodes (reachable_networks depths) num_exits)"
proof (cases "1 \<in> \<Union> (set (map set relays))")
  case False
  then have "graph relays 1 = {}" by (auto simp: in_graph)
  have "n = 1" if "hops (graph relays) 1 d n" for d n
    using that by (induction rule: hops.induct) (use \<open>graph relays 1 = {}\<close> in auto)
  note only = this
  note r = reachable_networks_distances [OF assms(1)]
  have "set (reachable_networks depths) \<subseteq> {1}" using only r(2) by blast
  then have "set (take num_exits (reachable_networks depths)) \<subseteq> {1}" by (meson in_set_takeD subset_iff)
  moreover have "set (take num_exits (reachable_networks depths)) \<noteq> {}" using r(1) assms(2) by simp
  ultimately have "1 \<in> set (take num_exits (reachable_networks depths))" by (metis subset_singletonD singletonI)
  then show ?thesis by (simp add: exit_nodes_set [OF r(1)])
qed simp

text \<open>The networks of a relay of the main mesh are active.\<close>

lemma add_relays_keep: "active_networks P \<subseteq> active_networks (add_relays ord total_networks ds P)"
proof (induction ds arbitrary: P)
  case (Cons d ds)
  have "active_networks P \<subseteq> active_networks (add_relay ord total_networks d P)" by (auto simp: add_relay_def Let_def)
  also note Cons.IH
  finally show ?case by simp
qed simp

lemma add_relays_prefix:
  "i < length (relay_networks P) \<Longrightarrow> relay_networks (add_relays ord total_networks ds P) ! i = relay_networks P ! i"
  by (induction ds arbitrary: P) (simp_all add: add_relay_def Let_def nth_append)

lemma main_relay_active:
  assumes "order_ok ord" "i < length ds" "is_main_mesh (ds ! i)"
  shows "set (relay_networks (add_relays ord total_networks ds P) ! (length (relay_networks P) + i)) \<subseteq>
    active_networks (add_relays ord total_networks ds P)"
  using assms(2,3)
proof (induction ds arbitrary: P i)
  case (Cons d ds)
  let ?P = "add_relay ord total_networks d P"
  have len: "length (relay_networks ?P) = length (relay_networks P) + 1" by (simp add: add_relay_def Let_def)
  show ?case
  proof (cases i)
    case 0
    with Cons.prems have "set (relay_networks ?P ! length (relay_networks P)) \<subseteq> active_networks ?P"
      by (simp add: add_relay_def Let_def order_okD [OF assms(1)])
    with 0 len add_relays_keep [of ?P] add_relays_prefix [of _ ?P] show ?thesis by fastforce
  next
    case (Suc k)
    with Cons.IH [where P = ?P and i = k] Cons.prems len show ?thesis by simp
  qed
qed simp

section \<open>Properties\<close>

text \<open>
  Three relays and two exit nodes: two relays on the main mesh and one island. The first line is
  answered by a number that is too small, the third by no number.
\<close>

definition sample_draws :: "draw list" where
  "sample_draws =
     [\<lparr>is_main_mesh = True, num_extra = 1, anchor = 1, sampled = [2]\<rparr>,
      \<lparr>is_main_mesh = True, num_extra = 2, anchor = 2, sampled = [4, 3]\<rparr>,
      \<lparr>is_main_mesh = False, num_extra = 1, anchor = 0, sampled = [6, 5]\<rparr>]"

lemma sample_pool: "{2..6 :: nat} = {2, 3, 4, 5, 6}"
  by auto

lemma sample_placed: "add_relays sorted_order 6 sample_draws no_relays =
    \<lparr>active_networks = {1, 2, 3, 4}, all_generated_networks = {1, 2, 3, 4, 5, 6}, relay_networks = [[1, 2], [2, 3, 4], [5, 6]]\<rparr>"
  by (simp add: sample_draws_def no_relays_def add_relay_def relay_nets_def inactive_pool_def island_pool_def sample_pool
      sorted_order_def Let_def insert_commute card_insert_if insert_Diff_if)

lemma sample_draws_ok: "draws_ok 3 sorted_order 6 sample_draws no_relays"
  by (simp add: sample_draws_def draw_ok_def max_extra_interfaces_def no_relays_def add_relay_def relay_nets_def inactive_pool_def island_pool_def sample_pool
      sorted_order_def Let_def insert_commute card_insert_if insert_Diff_if)

lemma sample_depths: "network_depths sorted_order [[1, 2], [2, 3, 4], [5, 6]] = Some [(1, 0), (2, 1), (3, 2), (4, 2)]"
proof -
  let ?R = "[[1, 2], [2, 3, 4], [5, 6]]"
  have "sorted_order (GraphSet 1) (graph ?R 1) = [2]" "sorted_order (GraphSet 2) (graph ?R 2) = [1, 3, 4]"
    "sorted_order (GraphSet 3) (graph ?R 3) = [2, 4]" "sorted_order (GraphSet 4) (graph ?R 4) = [2, 3]"
    by (simp_all add: sorted_order_def graph_def insert_Diff_if insert_commute)
  then show ?thesis by (simp add: network_depths_def bfs.simps)
qed

lemma sample_generate:
  "generate sorted_order 3 2 sample_draws = Some \<lparr>services = [(Victim, [1]), (Relay 1, [1, 2]), (Relay 2, [2, 3, 4]),
     (Relay 3, [5, 6]), (Exit 1, [3]), (Exit 2, [4])], compose_networks = [1, 2, 3, 4, 5, 6]\<rparr>"
proof -
  have "reachable_networks [(1, 0), (2, 1), (3, 2), (4, 2)] = [3, 4, 2, 1]" by (simp add: reachable_networks_def depth_of_def)
  moreover have "exit_nodes [3, 4, 2, 1] 2 = [3, 4]" by (simp add: exit_nodes_def upt_rec)
  ultimately show ?thesis using sample_placed sample_depths
    by (simp add: generate_def Let_def render_def upt_rec insert_Diff_if)
qed

text \<open>
  The breadth-first search of the generator always ends, and it gives every network
  that can be reached from zone 1, and no other, the least number of relays in between, in
  whatever order the sets of neighbours are gone through. The minimum that the question in the
  loop asks for is not needed.
\<close>

theorem generator_depths:
  assumes "order_ok ord"
  shows "\<exists>depths. network_depths ord relays = Some depths \<and> distinct (map fst depths) \<and>
    (\<forall>n d. (n, d) \<in> set depths \<longleftrightarrow> hops (graph relays) 1 d n \<and> (\<forall>k < d. \<not> hops (graph relays) 1 k n))"
  using network_depths_distances [OF assms] unfolding distances_def by metis

theorem generator_depths_witness:
  "\<exists>depths. network_depths sorted_order [[1, 2], [2, 3, 4], [5, 6]] = Some depths \<and> (4, 2) \<in> set depths"
  using generator_depths [OF order_ok_sorted] sample_depths by auto

text \<open>
  Property C25. The compose file defines exactly the networks its services stand on, each once and
  in ascending order. Zone 1, which the template gives the victim without asking the placement,
  is always among them, even if every relay became an island.
\<close>

theorem generator_defines_networks:
  assumes "order_ok ord" "0 < num_exits" "generate ord num_relays num_exits draws = Some c"
  shows "set (compose_networks c) = \<Union> (set (map (set \<circ> snd) (services c))) \<and> sorted_wrt (<) (compose_networks c)"
proof -
  let ?P = "placed ord num_relays draws"
  obtain depths where d: "distances (relay_networks ?P) depths"
    "c = render (relay_networks ?P) (exit_nodes (reachable_networks depths) num_exits)
         (sorted_list_of_set (all_generated_networks ?P \<union> set (exit_nodes (reachable_networks depths) num_exits)))"
    using generate_some [OF assms(1,3)] .
  show ?thesis
    using zone_1_used [OF d(1) assms(2)] unfolding d(2) render_services render_networks placed_networks [OF assms(1)]
    by auto
qed

theorem generator_defines_networks_witness:
  "\<exists>c. generate sorted_order 3 2 sample_draws = Some c \<and> set (compose_networks c) = \<Union> (set (map (set \<circ> snd) (services c)))"
  using generator_defines_networks [OF order_ok_sorted _ sample_generate] sample_generate by auto

lemma generated_exit:
  assumes "order_ok ord" "generate ord num_relays num_exits draws = Some c" "k \<in> {1..num_exits}"
  obtains n d where "(Exit k, [n]) \<in> set (services c)" "hops (graph (relays_of c)) 1 d n"
proof -
  let ?P = "placed ord num_relays draws"
  obtain depths where d: "distances (relay_networks ?P) depths"
    "c = render (relay_networks ?P) (exit_nodes (reachable_networks depths) num_exits)
         (sorted_list_of_set (all_generated_networks ?P \<union> set (exit_nodes (reachable_networks depths) num_exits)))"
    using generate_some [OF assms(1,2)] .
  let ?x = "exit_nodes (reachable_networks depths) num_exits"
  note r = reachable_networks_distances [OF d(1)]
  have "?x ! (k - 1) \<in> set ?x" using assms(3) by (intro nth_mem) auto
  then have "?x ! (k - 1) \<in> set (reachable_networks depths)"
    unfolding exit_nodes_set [OF r(1)] by (rule in_set_takeD)
  then obtain e where "hops (graph (relay_networks ?P)) 1 e (?x ! (k - 1))" using r(2) by blast
  moreover have "(Exit k, [?x ! (k - 1)]) \<in> set (services c)" using assms(3) by (auto simp: d(2) intro!: exI [of _ "k - 1"])
  ultimately show thesis using that by (simp add: d(2))
qed

lemma generated_relay:
  assumes "order_ok ord" "generate ord num_relays num_exits draws = Some c" "(Relay k, nets) \<in> set (services c)"
  shows "k \<in> {1..length draws}"
  using generate_some [OF assms(1,2)] assms(3) by (metis One_nat_def Suc_eq_plus1 Suc_leI atLeastAtMost_iff le_add2 placed_length render_relay)

text \<open>
  Property C24. The file has an exit node for every number up to the one the user asked for. Each
  stands on one network that can be reached from zone 1, and every reachable network further away
  than that has an exit node too.
\<close>

theorem generator_exits_furthest:
  assumes "order_ok ord" "generate ord num_relays num_exits draws = Some c"
  shows "{k. \<exists>nets. (Exit k, nets) \<in> set (services c)} = {1..num_exits} \<and>
    (\<forall>k nets. (Exit k, nets) \<in> set (services c) \<longrightarrow>
      (\<exists>n d. nets = [n] \<and> network_depth c n d \<and>
        (\<forall>m e. network_depth c m e \<and> d < e \<longrightarrow> (\<exists>j. (Exit j, [m]) \<in> set (services c)))))"
proof -
  let ?P = "placed ord num_relays draws"
  obtain depths where d: "distances (relay_networks ?P) depths"
    "c = render (relay_networks ?P) (exit_nodes (reachable_networks depths) num_exits)
         (sorted_list_of_set (all_generated_networks ?P \<union> set (exit_nodes (reachable_networks depths) num_exits)))"
    using generate_some [OF assms] .
  let ?r = "reachable_networks depths"
  note r = reachable_networks_distances [OF d(1)]
  have dep: "network_depth c n e \<longleftrightarrow> (n, e) \<in> set depths" for n e
    using d by (intro network_depth_distances) simp
  have key: "depth_of depths n = e" if "(n, e) \<in> set depths" for n e
    using d(1) that by (intro depth_of_mem) (auto simp: distances_def)
  have ex: "(Exit k, nets) \<in> set (services c) \<longleftrightarrow> (\<exists>i < num_exits. k = i + 1 \<and> nets = [exit_nodes ?r num_exits ! i])" for k nets
    by (simp add: d(2))
  have on: "(\<exists>j. (Exit j, [m]) \<in> set (services c)) \<longleftrightarrow> m \<in> set (take num_exits ?r)" for m
    unfolding ex exit_nodes_set [OF r(1), symmetric] by (auto simp: in_set_conv_nth)
  have "\<exists>n d. nets = [n] \<and> network_depth c n d \<and> (\<forall>m e. network_depth c m e \<and> d < e \<longrightarrow> (\<exists>j. (Exit j, [m]) \<in> set (services c)))"
    if s: "(Exit k, nets) \<in> set (services c)" for k nets
  proof -
    obtain n where n: "nets = [n]" "n \<in> set (take num_exits ?r)" using s on ex by blast
    then have "n \<in> fst ` set depths" using in_set_takeD by fastforce
    then obtain e where e: "(n, e) \<in> set depths" by auto
    have "m \<in> set (take num_exits ?r)" if m: "(m, e') \<in> set depths" "e < e'" for m e'
    proof (rule ccontr)
      assume "m \<notin> set (take num_exits ?r)"
      with m(1) have "m \<in> set ?r - set (take num_exits ?r)" by force
      from reachable_take [OF n(2) this] m key [OF m(1)] key [OF e] show False by simp
    qed
    with n(1) e show ?thesis unfolding on dep by blast
  qed
  moreover have "{k. \<exists>nets. (Exit k, nets) \<in> set (services c)} = {1..num_exits}"
    by (auto simp: ex) (metis Suc_pred' less_eq_Suc_le)
  ultimately show ?thesis by blast
qed

theorem generator_exits_furthest_witness:
  "\<exists>c n d. generate sorted_order 3 2 sample_draws = Some c \<and> (Exit 2, [n]) \<in> set (services c) \<and> network_depth c n d"
proof -
  note g = generator_exits_furthest [OF order_ok_sorted sample_generate]
  have "(Exit 2, [4]) \<in> set [(Victim, [1]), (Relay 1, [1, 2]), (Relay 2, [2, 3, 4]), (Relay 3, [5, 6]), (Exit 1, [3]), (Exit 2, [4])]"
    by simp
  with g [THEN conjunct2, rule_format, of 2 "[4]"] sample_generate show ?thesis by fastforce
qed

text \<open>
  Every network of a relay drawn for the main mesh can be reached from zone 1.
\<close>

theorem generator_main_mesh:
  assumes "order_ok ord" "length draws = num_relays" "draws_ok num_relays ord (num_relays * 2) draws no_relays"
    "generate ord num_relays num_exits draws = Some c" "i < num_relays" "is_main_mesh (draws ! i)"
    "(Relay (i + 1), nets) \<in> set (services c)" "n \<in> set nets"
  shows "\<exists>d. network_depth c n d"
proof -
  let ?P = "placed ord num_relays draws"
  obtain depths where d: "distances (relay_networks ?P) depths"
    "c = render (relay_networks ?P) (exit_nodes (reachable_networks depths) num_exits)
         (sorted_list_of_set (all_generated_networks ?P \<union> set (exit_nodes (reachable_networks depths) num_exits)))"
    using generate_some [OF assms(1,4)] .
  have "nets = relay_networks ?P ! i" using assms(7) by (simp add: d(2))
  with main_relay_active [OF assms(1), of i draws "num_relays * 2" no_relays] assms(2,5,6,8)
  have "n \<in> active_networks ?P" by (auto simp: placed_def no_relays_def)
  moreover have "anchored ?P"
    unfolding placed_def by (rule add_relays_anchored [OF assms(1) no_relays_anchored assms(3)])
  ultimately obtain k where "hops (graph (relays_of c)) 1 k n" by (auto simp: anchored_def d(2))
  then show ?thesis by (rule network_depth_ex)
qed

theorem generator_main_mesh_witness:
  "\<exists>c d. generate sorted_order 3 2 sample_draws = Some c \<and> network_depth c 3 d"
proof -
  have "length sample_draws = 3" "is_main_mesh (sample_draws ! 1)" by (simp_all add: sample_draws_def)
  from generator_main_mesh [OF order_ok_sorted this(1) _ sample_generate _ this(2), of "[2, 3, 4]" 3]
  show ?thesis using sample_generate sample_draws_ok by simp
qed

lemma get_user_input_answer:
  "\<forall>line \<in> set bad. rejected line \<Longrightarrow> py_int line = Some (int n) \<Longrightarrow> 0 < n \<Longrightarrow>
   get_user_input (bad @ line # rest) = Some (n, rest)"
  by (induction bad) (auto simp: rejected_def split: option.splits)

text \<open>
  The generator asks until it gets a positive integer, twice; above 50 relays it goes
  on only if the answer in between is y, in either case and with spaces around it. Once it has its
  answers it always ends with a file.
\<close>

theorem build_mesh_dialogue:
  assumes "order_ok ord" "\<forall>line \<in> set bad1. rejected line" "\<forall>line \<in> set bad2. rejected line"
    "py_int a = Some (int n)" "0 < n" "py_int b = Some (int m)" "0 < m"
  shows "build_mesh ord draws (bad1 @ a # (if 50 < n then [answer] else []) @ bad2 @ b # rest) =
      (if 50 < n \<and> py_lower (py_strip answer) \<noteq> ''y'' then Aborted else Generated (the (generate ord n m (draws n)))) \<and>
    generate ord n m (draws n) \<noteq> None"
proof -
  note a = get_user_input_answer [OF assms(2,4,5)] and b = get_user_input_answer [OF assms(3,6,7)]
  obtain c where "generate ord n m (draws n) = Some c" using generate_result [OF assms(1), of n "draws n" m] by blast
  then show ?thesis by (simp add: build_mesh_def a b WARNING_LIMIT_def)
qed

theorem build_mesh_dialogue_witness:
  "\<exists>c. build_mesh sorted_order (\<lambda>_. sample_draws) [''0'', '' 3'', ''three'', ''+2''] = Generated c"
proof -
  have ints: "py_int ''0'' = Some 0" "py_int '' 3'' = Some (int 3)" "py_int ''three'' = None" "py_int ''+2'' = Some (int 2)"
    by (simp_all add: py_int_def py_strip_def py_space_def py_digit_def digit_value_def)
  have "\<forall>line \<in> set [''0'']. rejected line" "\<forall>line \<in> set [''three'']. rejected line" by (simp_all add: rejected_def ints)
  from build_mesh_dialogue [OF order_ok_sorted this ints(2) _ ints(4), of "\<lambda>_. sample_draws" "[]" "[]"]
  show ?thesis by simp
qed

text \<open>
  An island need not stay one: its networks remain in the pool, and a later relay of the main mesh
  can pick one of them.
\<close>

definition joined_draws :: "draw list" where
  "joined_draws =
     [\<lparr>is_main_mesh = False, num_extra = 1, anchor = 0, sampled = [2, 3]\<rparr>,
      \<lparr>is_main_mesh = True, num_extra = 1, anchor = 1, sampled = [2]\<rparr>]"

lemma island_joined:
  "draws_ok 2 sorted_order 4 joined_draws no_relays"
  "relay_networks (placed sorted_order 2 joined_draws) = [[2, 3], [1, 2]]"
  "hops (graph [[2, 3], [1, 2]]) 1 2 3"
proof -
  have pool: "{2..4 :: nat} = {2, 3, 4}" by auto
  show "draws_ok 2 sorted_order 4 joined_draws no_relays" "relay_networks (placed sorted_order 2 joined_draws) = [[2, 3], [1, 2]]"
    by (simp_all add: placed_def joined_draws_def draw_ok_def max_extra_interfaces_def no_relays_def add_relay_def relay_nets_def
        inactive_pool_def island_pool_def pool sorted_order_def Let_def insert_commute card_insert_if insert_Diff_if)
  have "hops (graph [[2, 3], [1, 2]]) 1 (Suc 0) 2" by (rule hops_Suc [OF hops_0]) (simp add: in_graph)
  then have "hops (graph [[2, 3], [1, 2]]) 1 (Suc (Suc 0)) 3" by (rule hops_Suc) (simp add: in_graph)
  then show "hops (graph [[2, 3], [1, 2]]) 1 2 3" by (simp add: numeral_2_eq_2)
qed

end
