(* ===== verification/Generated.thy ===== *)
theory Generated
  imports SimNet Generator
begin

text \<open>
  The simulation that a generated compose file starts: the victim, relays and exit nodes of
  SimNet, connected by the networks of the file. What Docker contributes is an argument: the
  broadcast address of every network, and for every relay container an interface list with one
  IPv4 broadcast address for each of its networks.
\<close>

section \<open>Model\<close>

definition relays_on :: "(nat \<Rightarrow> bool) \<Rightarrow> compose \<Rightarrow> nat list" where
  "relays_on P c = concat (map (\<lambda>(s, nets). case s of Relay i \<Rightarrow> if list_ex P nets then [i] else [] | _ \<Rightarrow> []) (services c))"

definition exits_on :: "(nat \<Rightarrow> bool) \<Rightarrow> compose \<Rightarrow> nat list" where
  "exits_on P c = concat (map (\<lambda>(s, nets). case s of Exit i \<Rightarrow> if list_ex P nets then [i] else [] | _ \<Rightarrow> []) (services c))"

text \<open>The victim broadcasts on its only network, zone 1.\<close>

definition compose_net :: "(nat \<Rightarrow> u32) \<Rightarrow> (nat \<Rightarrow> ifaddr list) \<Rightarrow> compose \<Rightarrow> net_topology" where
  "compose_net addr ifs c =
     \<lparr>relay_topology = \<lparr>node_ifs = ifs, members = \<lambda>sa. relays_on (\<lambda>n. addr n = sa) c\<rparr>,
      exit_members = \<lambda>sa. exits_on (\<lambda>n. addr n = sa) c,
      victim_relays = relays_on (\<lambda>n. n = 1) c, victim_exits = exits_on (\<lambda>n. n = 1) c\<rparr>"

definition docker_ifs :: "(nat \<Rightarrow> u32) \<Rightarrow> (nat \<Rightarrow> ifaddr list) \<Rightarrow> compose \<Rightarrow> bool" where
  "docker_ifs addr ifs c \<longleftrightarrow>
     (\<forall>i nets. (Relay i, nets) \<in> set (services c) \<longrightarrow>
        (\<lambda>it. the (ifa_broadaddr it)) ` set (filter eligible (ifs i)) = addr ` set nets)"

section \<open>Who hears whom\<close>

lemma in_relays_on: "i \<in> set (relays_on P c) \<longleftrightarrow> (\<exists>nets. (Relay i, nets) \<in> set (services c) \<and> (\<exists>n \<in> set nets. P n))"
  by (force simp: relays_on_def list_ex_iff split: service_name.splits if_splits)

lemma in_exits_on: "i \<in> set (exits_on P c) \<longleftrightarrow> (\<exists>nets. (Exit i, nets) \<in> set (services c) \<and> (\<exists>n \<in> set nets. P n))"
  by (force simp: exits_on_def list_ex_iff split: service_name.splits if_splits)

lemma in_relays_of: "nets \<in> set (relays_of c) \<longleftrightarrow> (\<exists>i. (Relay i, nets) \<in> set (services c))"
  by (force simp: relays_of_def split: service_name.splits)

lemma compose_neighbours:
  assumes "docker_ifs addr ifs c" "(Relay i, nets) \<in> set (services c)" "n \<in> set nets"
  shows "(Relay j, nets') \<in> set (services c) \<Longrightarrow> n \<in> set nets' \<Longrightarrow> j \<in> set (neighbours (relay_topology (compose_net addr ifs c)) i)"
    "(Exit e, nets') \<in> set (services c) \<Longrightarrow> n \<in> set nets' \<Longrightarrow> e \<in> set (neighbours (exit_view (compose_net addr ifs c)) i)"
proof -
  have "addr n \<in> (\<lambda>it. the (ifa_broadaddr it)) ` set (filter eligible (ifs i))"
    using assms unfolding docker_ifs_def by blast
  then obtain it where it: "it \<in> set (filter eligible (ifs i))" "the (ifa_broadaddr it) = addr n" by auto
  then show "(Relay j, nets') \<in> set (services c) \<Longrightarrow> n \<in> set nets' \<Longrightarrow> j \<in> set (neighbours (relay_topology (compose_net addr ifs c)) i)"
    "(Exit e, nets') \<in> set (services c) \<Longrightarrow> n \<in> set nets' \<Longrightarrow> e \<in> set (neighbours (exit_view (compose_net addr ifs c)) i)"
    by (auto simp: neighbours_def compose_net_def exit_view_def in_relays_on in_exits_on intro!: exI [of _ it] exI [of _ nets'] bexI [of _ n])
qed

text \<open>A network that can be reached from zone 1 is zone 1 or has a relay connected to the victim.\<close>

lemma reachable_connected:
  assumes "docker_ifs addr ifs c" "hops (graph (relays_of c)) 1 d n"
  shows "n = 1 \<or> (\<exists>i nets. (Relay i, nets) \<in> set (services c) \<and> n \<in> set nets \<and>
    connected (relay_topology (compose_net addr ifs c)) (set (victim_relays (compose_net addr ifs c))) i)"
  using assms(2)
proof (induction rule: hops.induct)
  case (hops_Suc d m n)
  then obtain nets i where i: "(Relay i, nets) \<in> set (services c)" "m \<in> set nets" "n \<in> set nets"
    by (auto simp: in_graph in_relays_of)
  from hops_Suc.IH have "connected (relay_topology (compose_net addr ifs c)) (set (victim_relays (compose_net addr ifs c))) i"
  proof
    assume "m = 1"
    with i show ?thesis by (intro connected.source) (auto simp: compose_net_def in_relays_on)
  next
    assume "\<exists>j nets. (Relay j, nets) \<in> set (services c) \<and> m \<in> set nets \<and>
      connected (relay_topology (compose_net addr ifs c)) (set (victim_relays (compose_net addr ifs c))) j"
    with compose_neighbours(1) [OF assms(1) _ _ i(1,2)] show ?thesis by (blast intro: connected.hear)
  qed
  with i show ?case by blast
qed simp

lemma compose_within:
  assumes "\<And>i nets. (Relay i, nets) \<in> set (services c) \<Longrightarrow> i \<in> {1..k}"
  shows "net_within (compose_net addr ifs c) {1..k}"
proof -
  have "set (relays_on P c) \<subseteq> {1..k}" for P using assms by (auto simp: in_relays_on)
  then show ?thesis
    by (fastforce simp: net_within_def topology_within_def neighbours_def compose_net_def)
qed

section \<open>Properties\<close>

definition sample_compose :: compose where
  "sample_compose = \<lparr>services = [(Victim, [1]), (Relay 1, [1, 2]), (Relay 2, [2, 3, 4]), (Relay 3, [5, 6]), (Exit 1, [3]), (Exit 2, [4])],
     compose_networks = [1, 2, 3, 4, 5, 6]\<rparr>"

definition sample_docker :: "nat \<Rightarrow> ifaddr list" where
  "sample_docker i = \<lparr>ifa_name = ''lo'', ifa_family = Some AF_INET, ifa_broadaddr = Some 0\<rparr> #
     map (\<lambda>n. \<lparr>ifa_name = ''eth'', ifa_family = Some AF_INET, ifa_broadaddr = Some (of_nat n)\<rparr>)
       (concat (map (\<lambda>(s, nets). if s = Relay i then nets else []) (services sample_compose)))"

lemma sample_docker_ifs: "docker_ifs of_nat sample_docker sample_compose"
proof -
  have "filter eligible (sample_docker i) = map (\<lambda>n. \<lparr>ifa_name = ''eth'', ifa_family = Some AF_INET, ifa_broadaddr = Some (of_nat n)\<rparr>)
      (concat (map (\<lambda>(s, nets). if s = Relay i then nets else []) (services sample_compose)))" for i
    by (simp add: sample_docker_def eligible_def filter_map o_def)
  then have "(\<lambda>it. the (ifa_broadaddr it)) ` set (filter eligible (sample_docker i)) =
      of_nat ` set (concat (map (\<lambda>(s, nets). if s = Relay i then nets else []) (services sample_compose)))" for i
    by (simp add: image_image)
  moreover have "concat (map (\<lambda>(s, ns). if s = Relay i then ns else []) (services sample_compose)) = nets"
    if "(Relay i, nets) \<in> set (services sample_compose)" for i nets
    using that by (auto simp: sample_compose_def)
  ultimately show ?thesis unfolding docker_ifs_def by presburger
qed

text \<open>
  Property C3. In a simulation started from a generated file with fewer than 20 relays, in which no
  datagram is lost, the victim's packet is delivered exactly once at every exit node of the file,
  wherever the random placement put the relays and however many of them are islands.
\<close>

theorem generated_simulation_delivers:
  assumes "order_ok ord" "generate ord num_relays num_exits draws = Some c" "length draws = num_relays" "num_relays < 20"
    "docker_ifs addr ifs c" "T = compose_net addr ifs c" "digest_ok mac" "p = sim_victim_packet mac coord a t"
    "victim_part M = sim_victim_main mac coord a t" "net_start T {1..num_relays} p M"
    "net_run T M as M'" "net_lossless as" "net_silent M'" "e \<in> {1..num_exits}"
  shows "delivered (hmac_sig p) M' e = [packet_core p]"
proof (rule lossless_delivery [OF assms(7-10) _ _ assms(11-13)])
  show "net_within T {1..num_relays}"
    unfolding assms(6) by (rule compose_within) (use generated_relay [OF assms(1,2)] assms(3) in blast)
  show "card {1..num_relays} < 20" using assms(4) by simp
  obtain n d where x: "(Exit e, [n]) \<in> set (services c)" "hops (graph (relays_of c)) 1 d n"
    using generated_exit [OF assms(1,2,14)] .
  from reachable_connected [OF assms(5) x(2)]
  show "e \<in> set (victim_exits T) \<or> (\<exists>j. connected (relay_topology T) (set (victim_relays T)) j \<and> e \<in> set (neighbours (exit_view T) j))"
  proof
    assume "n = 1"
    with x(1) show ?thesis by (auto simp: assms(6) compose_net_def in_exits_on)
  next
    assume "\<exists>i nets. (Relay i, nets) \<in> set (services c) \<and> n \<in> set nets \<and>
      connected (relay_topology (compose_net addr ifs c)) (set (victim_relays (compose_net addr ifs c))) i"
    with compose_neighbours(2) [OF assms(5) _ _ x(1)] show ?thesis unfolding assms(6) by fastforce
  qed
qed

theorem generated_simulation_delivers_witness:
  "\<exists>as M'. net_run (compose_net of_nat sample_docker sample_compose) pair_network as M' \<and>
     delivered (hmac_sig pair_packet) M' 2 = [packet_core pair_packet]"
proof -
  have g: "generate sorted_order 3 2 sample_draws = Some sample_compose"
    using sample_generate by (simp add: sample_compose_def)
  have l: "length sample_draws = 3" by (simp add: sample_draws_def)
  have v: "victim_part pair_network = sim_victim_main ones_mac (\<lambda>_. 5) sample_arguments 125"
    by (simp add: pair_network_def)
  have w: "net_within (compose_net of_nat sample_docker sample_compose) {1..3}"
    by (rule compose_within) (use generated_relay [OF order_ok_sorted g] l in simp)
  obtain as M' where r: "net_run (compose_net of_nat sample_docker sample_compose) pair_network as M'" "net_lossless as" "net_silent M'"
    using net_completes [OF net_start_inv [OF pair_net_start] w] sim_victim_wf(1) [OF digest_ok_ones] by (auto simp: pair_packet_def)
  from generated_simulation_delivers [OF order_ok_sorted g l _ sample_docker_ifs refl digest_ok_ones pair_packet_def v pair_net_start r, of 2]
  have "delivered (hmac_sig pair_packet) M' 2 = [packet_core pair_packet]" by simp
  with r(1) show ?thesis by blast
qed

end
