(* ===== verification/CMemory.thy ===== *)
theory CMemory
  imports Prelude "HOL-Library.Monad_Syntax" "HOL-Library.Signed_Division"
begin

text \<open>
  Memory and control flow as a C program has them: an object is its bytes, an access at an address
  outside of it is an error (None), an int is a 32-bit word read as signed, and a counting loop
  runs on such ints. SimMurmur and SimMemory are written over these.
\<close>

section \<open>Objects in memory\<close>

definition read8 :: "u8 list \<Rightarrow> int \<Rightarrow> u8 option" where
  "read8 mem a = (if 0 \<le> a \<and> a + 1 \<le> int (length mem) then Some (mem ! nat a) else None)"

definition read_le :: "nat \<Rightarrow> u8 list \<Rightarrow> int \<Rightarrow> 'a::len word option" where
  "read_le n mem a = (if 0 \<le> a \<and> a + int n \<le> int (length mem) then Some (le_word (take n (drop (nat a) mem))) else None)"

definition write_bytes :: "u8 list \<Rightarrow> int \<Rightarrow> u8 list \<Rightarrow> u8 list option" where
  "write_bytes mem a bs =
     (if 0 \<le> a \<and> a + int (length bs) \<le> int (length mem)
      then Some (take (nat a) mem @ bs @ drop (nat a + length bs) mem) else None)"

abbreviation read32 :: "u8 list \<Rightarrow> int \<Rightarrow> u32 option" where
  "read32 \<equiv> read_le 4"

abbreviation read64 :: "u8 list \<Rightarrow> int \<Rightarrow> u64 option" where
  "read64 \<equiv> read_le 8"

definition write8 :: "u8 list \<Rightarrow> int \<Rightarrow> u8 \<Rightarrow> u8 list option" where
  "write8 mem a b = write_bytes mem a [b]"

definition write32 :: "u8 list \<Rightarrow> int \<Rightarrow> u32 \<Rightarrow> u8 list option" where
  "write32 mem a w = write_bytes mem a (le_bytes 4 w)"

definition write64 :: "u8 list \<Rightarrow> int \<Rightarrow> u64 \<Rightarrow> u8 list option" where
  "write64 mem a w = write_bytes mem a (le_bytes 8 w)"

lemma write_bytes_length: "write_bytes mem a bs = Some mem' \<Longrightarrow> length mem' = length mem"
  by (auto simp: write_bytes_def split: if_splits)

lemma write_bytes_at:
  "length pre = k \<Longrightarrow> length old = length bs \<Longrightarrow> write_bytes (pre @ old @ post) (int k) bs = Some (pre @ bs @ post)"
  by (auto simp: write_bytes_def)

lemma read_le_at:
  "length pre = k \<Longrightarrow> length bs = n \<Longrightarrow> read_le n (pre @ bs @ post) (int k) = Some (le_word bs)"
  by (auto simp: read_le_def)

lemma read8_at: "length pre = k \<Longrightarrow> read8 (pre @ b # post) (int k) = Some b"
  by (auto simp: read8_def)

text \<open>Two writes next to each other are one.\<close>

definition patch :: "u8 list \<Rightarrow> nat \<Rightarrow> u8 list \<Rightarrow> u8 list" where
  "patch mem k bs = take k mem @ bs @ drop (k + length bs) mem"

lemma write_patch: "k + length bs \<le> length mem \<Longrightarrow> write_bytes mem (int k) bs = Some (patch mem k bs)"
  by (simp add: write_bytes_def patch_def)

lemma length_patch [simp]: "k + length bs \<le> length mem \<Longrightarrow> length (patch mem k bs) = length mem"
  by (simp add: patch_def)

lemma patch_patch:
  "k + length xs \<le> length mem \<Longrightarrow> patch (patch mem k xs) (k + length xs) ys = patch mem k (xs @ ys)"
  by (simp add: patch_def min_absorb2 ac_simps)

lemma write_next:
  assumes "k + length xs + length ys \<le> length mem" "j = int k + int (length xs)"
  shows "write_bytes (patch mem k xs) j ys = Some (patch mem k (xs @ ys))"
  using write_patch [of "k + length xs" ys "patch mem k xs"] assms by (simp add: patch_patch)

section \<open>Shifts\<close>

text \<open>A shift by a negative count, or by the width of the type or more, is undefined: None.\<close>

definition c_shl :: "'a::len word \<Rightarrow> int \<Rightarrow> 'a word option" where
  "c_shl x n = (if 0 \<le> n \<and> n < int LENGTH('a) then Some (push_bit (nat n) x) else None)"

definition c_shr :: "'a::len word \<Rightarrow> int \<Rightarrow> 'a word option" where
  "c_shr x n = (if 0 \<le> n \<and> n < int LENGTH('a) then Some (drop_bit (nat n) x) else None)"

section \<open>Signed integers\<close>

type_synonym c_int = "32 word"

definition c_div :: "c_int \<Rightarrow> c_int \<Rightarrow> c_int" where
  "c_div a b = word_of_int (sint a sdiv sint b)"

lemma sint_of_int_small: "- (2 ^ 31) \<le> i \<Longrightarrow> i < 2 ^ 31 \<Longrightarrow> sint (word_of_int i :: c_int) = i"
  by (simp add: signed_of_int signed_take_bit_int_eq_self)

lemma sint_of_nat_small: "n < 2 ^ 31 \<Longrightarrow> sint (of_nat n :: c_int) = int n"
  using sint_of_int_small [of "int n"] by simp

lemma c_div_of_nat: "n < 2 ^ 31 \<Longrightarrow> 0 < k \<Longrightarrow> k < 2 ^ 31 \<Longrightarrow> c_div (of_nat n) (of_nat k) = of_nat (n div k)"
  using of_int_of_nat_eq [of "n div k", where ?'a = c_int]
  by (simp add: c_div_def sint_of_nat_small signed_divide_int_def zdiv_int del: of_int_of_nat_eq)

section \<open>Loops\<close>

text \<open>\<open>for (int i = start; i; i++)\<close>; it always ends, if need be after a wrap-around.\<close>

function loop_to_zero :: "(c_int \<Rightarrow> 's \<Rightarrow> 's option) \<Rightarrow> c_int \<Rightarrow> 's \<Rightarrow> 's option" where
  "loop_to_zero f i s = (if i = 0 then Some s else f i s \<bind> loop_to_zero f (i + 1))"
  by pat_completeness auto
termination
proof (relation "measure (\<lambda>(f, i, s). unat (- i))")
  fix f :: "c_int \<Rightarrow> 's \<Rightarrow> 's option" and i :: c_int and s s' :: 's assume "i \<noteq> 0"
  then have "unat (- i - 1) = unat (- i) - 1" "0 < unat (- i)" by (simp_all add: unat_minus_one unat_gt_0)
  then show "((f, i + 1, s'), f, i, s) \<in> measure (\<lambda>(f, i, s). unat (- i))"
    by simp
qed simp

declare loop_to_zero.simps [simp del]

text \<open>\<open>for (int i = 0; i < n; i++)\<close>, the comparison being signed.\<close>

function loop_below :: "(c_int \<Rightarrow> 's \<Rightarrow> 's option) \<Rightarrow> c_int \<Rightarrow> c_int \<Rightarrow> 's \<Rightarrow> 's option" where
  "loop_below f n i s = (if sint i < sint n then f i s \<bind> loop_below f n (i + 1) else Some s)"
  by pat_completeness auto
termination
proof (relation "measure (\<lambda>(f, n, i, s). nat (sint n - sint i))")
  fix f :: "c_int \<Rightarrow> 's \<Rightarrow> 's option" and n i :: c_int and s s' :: 's assume l: "sint i < sint n"
  have "sint (i + 1) = sint i + 1"
  proof -
    have "sint n < 2 ^ 31" "- (2 ^ 31) \<le> sint i" using sint_lt [of n] sint_ge [of i] by simp_all
    with l have "sint (word_of_int (sint i + 1) :: c_int) = sint i + 1" by (intro sint_of_int_small) simp_all
    then show ?thesis by simp
  qed
  with l show "((f, n, i + 1, s'), f, n, i, s) \<in> measure (\<lambda>(f, n, i, s). nat (sint n - sint i))"
    by simp
qed simp

declare loop_below.simps [simp del]

lemma loop_to_zero_foldl:
  assumes "k < 2 ^ 31" "\<And>i s. - int k \<le> i \<Longrightarrow> i < 0 \<Longrightarrow> f (word_of_int i) s = Some (g s i)"
  shows "loop_to_zero f (- of_nat k) s = Some (foldl g s [- int k..-1])"
  using assms
proof (induction k arbitrary: s)
  case 0
  then show ?case by (simp add: loop_to_zero.simps)
next
  case (Suc k)
  have "(- of_nat (Suc k) :: c_int) = word_of_int (- int (Suc k))" by simp
  moreover have "sint (word_of_int (- int (Suc k)) :: c_int) = - int (Suc k)"
    using Suc.prems(1) by (intro sint_of_int_small) simp_all
  ultimately have "sint (- of_nat (Suc k) :: c_int) = - int (Suc k)" by (simp only:)
  then have ne: "(- of_nat (Suc k) :: c_int) \<noteq> 0" 
  proof (intro notI)
    assume eq: "sint (- of_nat (Suc k) :: c_int) = - int (Suc k)" and z: "(- of_nat (Suc k) :: c_int) = 0"
    from eq show False unfolding z sint_0 by simp
  qed
  have f: "f (- of_nat (Suc k)) s = Some (g s (- int (Suc k)))"
    using Suc.prems(2) [of "- int (Suc k)" s] by simp
  have nx: "- of_nat (Suc k) + 1 = (- of_nat k :: c_int)" by simp
  have IH: "loop_to_zero f (- of_nat k) t = Some (foldl g t [- int k..-1])" for t
    by (rule Suc.IH) (use Suc.prems in simp_all)
  have up: "[- int (Suc k)..-1] = - int (Suc k) # [- int k..-1]" by (simp add: upto_rec1)
  have "loop_to_zero f (- of_nat (Suc k)) s = f (- of_nat (Suc k)) s \<bind> loop_to_zero f (- of_nat (Suc k) + 1)"
    using ne by (subst loop_to_zero.simps) (simp only: if_False)
  then show ?case unfolding f nx up by (simp only: bind.bind_lunit IH foldl_Cons)
qed

lemma loop_below_foldl:
  assumes "n < 2 ^ 31" "j \<le> n" "\<And>i s. i < n \<Longrightarrow> f (of_nat i) s = Some (g s i)"
  shows "loop_below f (of_nat n) (of_nat j) s = Some (foldl g s [j..<n])"
  using assms(2)
proof (induction "n - j" arbitrary: j s)
  case 0
  then show ?case using assms(1) by (simp add: loop_below.simps sint_of_nat_small)
next
  case (Suc d)
  then have j: "j < n" by simp
  have "loop_below f (of_nat n) (of_nat (Suc j)) (g s j) = Some (foldl g (g s j) [Suc j..<n])"
    by (rule Suc.hyps(1)) (use Suc.hyps(2) j in simp_all)
  with j assms(1,3) show ?case
    by (simp add: loop_below.simps [of f "of_nat n" "of_nat j"] sint_of_nat_small upt_conv_Cons add.commute)
qed

text \<open>\<open>switch\<close> with labels from n down to 1 and no break: from the given label on, all are run.\<close>

fun fall_through :: "(nat \<Rightarrow> 's \<Rightarrow> 's option) \<Rightarrow> nat \<Rightarrow> 's \<Rightarrow> 's option" where
  "fall_through stmt 0 s = Some s"
| "fall_through stmt (Suc n) s = stmt (Suc n) s \<bind> fall_through stmt n"

end
