(* ===== verification/SimMurmur.thy ===== *)
theory SimMurmur
  imports Murmur128 CMemory
begin

text \<open>
  The simulator's own copy of MurmurHash3.cpp, at the level of memory: the lengths and loop counters
  are C ints, every read of the key and every write of the result is checked against the bounds of
  the object, every shift of the helpers is checked against the width of its operand (the tails
  shift by literals), and the labels of the switches fall through one after the other. The theorems
  say that for every length from 0 to the size of the key the three functions read and write inside
  their objects only and no rotation or mix shifts too far, and that both copies of the library
  compute the same hashes.
\<close>

section \<open>Helpers\<close>

text \<open>
  The rotation takes its count as an int8\_t; by 0 it would shift by the whole width. A block is
  read through a word pointer, here the address of its first byte: the bounds of the read are
  checked, the alignment of the pointer, which C asks for and x86 does not, is not represented.
\<close>

definition sim_rotl32 :: "u32 \<Rightarrow> 8 word \<Rightarrow> u32 option" where
  "sim_rotl32 x r = do { a \<leftarrow> c_shl x (sint r); b \<leftarrow> c_shr x (32 - sint r); Some (a OR b) }"

definition sim_rotl64 :: "u64 \<Rightarrow> 8 word \<Rightarrow> u64 option" where
  "sim_rotl64 x r = do { a \<leftarrow> c_shl x (sint r); b \<leftarrow> c_shr x (64 - sint r); Some (a OR b) }"

definition sim_getblock32 :: "u8 list \<Rightarrow> int \<Rightarrow> int \<Rightarrow> u32 option" where
  "sim_getblock32 key p i = read32 key (p + 4 * i)"

definition sim_getblock64 :: "u8 list \<Rightarrow> int \<Rightarrow> int \<Rightarrow> u64 option" where
  "sim_getblock64 key p i = read64 key (p + 8 * i)"

definition sim_fmix32 :: "u32 \<Rightarrow> u32 option" where
  "sim_fmix32 h = do {
     a \<leftarrow> c_shr h 16;
     let h = h XOR a;
     let h = h * 0x85ebca6b;
     a \<leftarrow> c_shr h 13;
     let h = h XOR a;
     let h = h * 0xc2b2ae35;
     a \<leftarrow> c_shr h 16;
     let h = h XOR a;
     Some h
   }"

definition sim_fmix64 :: "u64 \<Rightarrow> u64 option" where
  "sim_fmix64 k = do {
     a \<leftarrow> c_shr k 33;
     let k = k XOR a;
     let k = k * 0xff51afd7ed558ccd;
     a \<leftarrow> c_shr k 33;
     let k = k XOR a;
     let k = k * 0xc4ceb9fe1a85ec53;
     a \<leftarrow> c_shr k 33;
     let k = k XOR a;
     Some k
   }"

text \<open>\<open>k *= c; k = ROTL(k, r); k *= d\<close>, which the hashes do with every lane.\<close>

definition sim_mix32 :: "u32 \<Rightarrow> 8 word \<Rightarrow> u32 \<Rightarrow> u32 \<Rightarrow> u32 option" where
  "sim_mix32 c r d k = do { k \<leftarrow> sim_rotl32 (k * c) r; Some (k * d) }"

definition sim_mix64 :: "u64 \<Rightarrow> 8 word \<Rightarrow> u64 \<Rightarrow> u64 \<Rightarrow> u64 option" where
  "sim_mix64 c r d k = do { k \<leftarrow> sim_rotl64 (k * c) r; Some (k * d) }"

section \<open>The 32-bit hash\<close>

definition sim_k1_32 :: "u32 \<Rightarrow> u32 option" where
  "sim_k1_32 = sim_mix32 0xcc9e2d51 15 0x1b873593"

definition sim_body32 :: "u32 \<Rightarrow> u32 \<Rightarrow> u32 option" where
  "sim_body32 h1 k1 = do {
     k1 \<leftarrow> sim_k1_32 k1;
     h1 \<leftarrow> sim_rotl32 (h1 XOR k1) 13;
     Some (h1 * 5 + 0xe6546b64)
   }"

definition sim_tail32 :: "u8 list \<Rightarrow> int \<Rightarrow> nat \<Rightarrow> u32 \<times> u32 \<Rightarrow> (u32 \<times> u32) option" where
  "sim_tail32 key tail label = (\<lambda>(k1, h1).
     if label = 3 then map_option (\<lambda>b. (k1 XOR push_bit 16 (ucast b), h1)) (read8 key (tail + 2))
     else if label = 2 then map_option (\<lambda>b. (k1 XOR push_bit 8 (ucast b), h1)) (read8 key (tail + 1))
     else do { b \<leftarrow> read8 key (tail + 0); k1 \<leftarrow> sim_k1_32 (k1 XOR ucast b); Some (k1, h1 XOR k1) })"

definition sim_MurmurHash3_x86_32 :: "u8 list \<Rightarrow> c_int \<Rightarrow> u32 \<Rightarrow> u8 list \<Rightarrow> int \<Rightarrow> u8 list option" where
  "sim_MurmurHash3_x86_32 key len seed mem out =
     (let nblocks = c_div len 4;
          blocks = sint nblocks * 4
      in do {
        h1 \<leftarrow> loop_to_zero (\<lambda>i h1. sim_getblock32 key blocks (sint i) \<bind> sim_body32 h1) (- nblocks) seed;
        (k1, h1) \<leftarrow> fall_through (sim_tail32 key blocks) (unat (len AND 3)) (0, h1);
        h1 \<leftarrow> sim_fmix32 (h1 XOR len);
        write32 mem out h1
      })"

section \<open>The 128-bit hashes\<close>

record lanes =
  lane_k1 :: u32
  lane_k2 :: u32
  lane_k3 :: u32
  lane_k4 :: u32
  lane_h1 :: u32
  lane_h2 :: u32
  lane_h3 :: u32
  lane_h4 :: u32

definition sim_k1_86 :: "u32 \<Rightarrow> u32 option" where
  "sim_k1_86 = sim_mix32 0x239b961b 15 0xab0e9789"

definition sim_k2_86 :: "u32 \<Rightarrow> u32 option" where
  "sim_k2_86 = sim_mix32 0xab0e9789 16 0x38b34ae5"

definition sim_k3_86 :: "u32 \<Rightarrow> u32 option" where
  "sim_k3_86 = sim_mix32 0x38b34ae5 17 0xa1e38b93"

definition sim_k4_86 :: "u32 \<Rightarrow> u32 option" where
  "sim_k4_86 = sim_mix32 0xa1e38b93 18 0x239b961b"

definition sim_body86 :: "lanes86 \<Rightarrow> lanes86 \<Rightarrow> lanes86 option" where
  "sim_body86 h k =
     (let (h1, h2, h3, h4) = h; (k1, k2, k3, k4) = k
      in do {
        k1 \<leftarrow> sim_k1_86 k1; let h1 = h1 XOR k1;
        h1 \<leftarrow> sim_rotl32 h1 19; let h1 = h1 + h2; let h1 = h1 * 5 + 0x561ccd1b;
        k2 \<leftarrow> sim_k2_86 k2; let h2 = h2 XOR k2;
        h2 \<leftarrow> sim_rotl32 h2 17; let h2 = h2 + h3; let h2 = h2 * 5 + 0x0bcaa747;
        k3 \<leftarrow> sim_k3_86 k3; let h3 = h3 XOR k3;
        h3 \<leftarrow> sim_rotl32 h3 15; let h3 = h3 + h4; let h3 = h3 * 5 + 0x96cd1c35;
        k4 \<leftarrow> sim_k4_86 k4; let h4 = h4 XOR k4;
        h4 \<leftarrow> sim_rotl32 h4 13; let h4 = h4 + h1; let h4 = h4 * 5 + 0x32ac3b17;
        Some (h1, h2, h3, h4)
      })"

definition sim_tail86 :: "u8 list \<Rightarrow> int \<Rightarrow> nat \<Rightarrow> lanes \<Rightarrow> lanes option" where
  "sim_tail86 key tail label s =
     (let at = (\<lambda>j f. read8 key (tail + j) \<bind> (\<lambda>b. f (ucast b :: u32)))
      in if label = 15 then at 14 (\<lambda>b. Some (s\<lparr>lane_k4 := lane_k4 s XOR push_bit 16 b\<rparr>))
         else if label = 14 then at 13 (\<lambda>b. Some (s\<lparr>lane_k4 := lane_k4 s XOR push_bit 8 b\<rparr>))
         else if label = 13 then at 12 (\<lambda>b. do { k4 \<leftarrow> sim_k4_86 (lane_k4 s XOR b); Some (s\<lparr>lane_k4 := k4, lane_h4 := lane_h4 s XOR k4\<rparr>) })
         else if label = 12 then at 11 (\<lambda>b. Some (s\<lparr>lane_k3 := lane_k3 s XOR push_bit 24 b\<rparr>))
         else if label = 11 then at 10 (\<lambda>b. Some (s\<lparr>lane_k3 := lane_k3 s XOR push_bit 16 b\<rparr>))
         else if label = 10 then at 9 (\<lambda>b. Some (s\<lparr>lane_k3 := lane_k3 s XOR push_bit 8 b\<rparr>))
         else if label = 9 then at 8 (\<lambda>b. do { k3 \<leftarrow> sim_k3_86 (lane_k3 s XOR b); Some (s\<lparr>lane_k3 := k3, lane_h3 := lane_h3 s XOR k3\<rparr>) })
         else if label = 8 then at 7 (\<lambda>b. Some (s\<lparr>lane_k2 := lane_k2 s XOR push_bit 24 b\<rparr>))
         else if label = 7 then at 6 (\<lambda>b. Some (s\<lparr>lane_k2 := lane_k2 s XOR push_bit 16 b\<rparr>))
         else if label = 6 then at 5 (\<lambda>b. Some (s\<lparr>lane_k2 := lane_k2 s XOR push_bit 8 b\<rparr>))
         else if label = 5 then at 4 (\<lambda>b. do { k2 \<leftarrow> sim_k2_86 (lane_k2 s XOR b); Some (s\<lparr>lane_k2 := k2, lane_h2 := lane_h2 s XOR k2\<rparr>) })
         else if label = 4 then at 3 (\<lambda>b. Some (s\<lparr>lane_k1 := lane_k1 s XOR push_bit 24 b\<rparr>))
         else if label = 3 then at 2 (\<lambda>b. Some (s\<lparr>lane_k1 := lane_k1 s XOR push_bit 16 b\<rparr>))
         else if label = 2 then at 1 (\<lambda>b. Some (s\<lparr>lane_k1 := lane_k1 s XOR push_bit 8 b\<rparr>))
         else at 0 (\<lambda>b. do { k1 \<leftarrow> sim_k1_86 (lane_k1 s XOR b); Some (s\<lparr>lane_k1 := k1, lane_h1 := lane_h1 s XOR k1\<rparr>) }))"

definition sim_MurmurHash3_x86_128 :: "u8 list \<Rightarrow> c_int \<Rightarrow> u32 \<Rightarrow> u8 list \<Rightarrow> int \<Rightarrow> u8 list option" where
  "sim_MurmurHash3_x86_128 key len seed mem out =
     (let nblocks = c_div len 16;
          blocks = sint nblocks * 16
      in do {
        (h1, h2, h3, h4) \<leftarrow> loop_to_zero (\<lambda>i h. do {
            k1 \<leftarrow> sim_getblock32 key blocks (sint i * 4 + 0);
            k2 \<leftarrow> sim_getblock32 key blocks (sint i * 4 + 1);
            k3 \<leftarrow> sim_getblock32 key blocks (sint i * 4 + 2);
            k4 \<leftarrow> sim_getblock32 key blocks (sint i * 4 + 3);
            sim_body86 h (k1, k2, k3, k4)
          }) (- nblocks) (seed, seed, seed, seed);
        s \<leftarrow> fall_through (sim_tail86 key blocks) (unat (len AND 15))
               \<lparr>lane_k1 = 0, lane_k2 = 0, lane_k3 = 0, lane_k4 = 0, lane_h1 = h1, lane_h2 = h2, lane_h3 = h3, lane_h4 = h4\<rparr>;
        let (h1, h2, h3, h4) = spread86 (lane_h1 s XOR len, lane_h2 s XOR len, lane_h3 s XOR len, lane_h4 s XOR len);
        h1 \<leftarrow> sim_fmix32 h1;
        h2 \<leftarrow> sim_fmix32 h2;
        h3 \<leftarrow> sim_fmix32 h3;
        h4 \<leftarrow> sim_fmix32 h4;
        let (h1, h2, h3, h4) = spread86 (h1, h2, h3, h4);
        mem \<leftarrow> write32 mem (out + 4 * 0) h1;
        mem \<leftarrow> write32 mem (out + 4 * 1) h2;
        mem \<leftarrow> write32 mem (out + 4 * 2) h3;
        write32 mem (out + 4 * 3) h4
      })"

record lanes_64 =
  wide_k1 :: u64
  wide_k2 :: u64
  wide_h1 :: u64
  wide_h2 :: u64

definition sim_k1_64 :: "u64 \<Rightarrow> u64 option" where
  "sim_k1_64 = sim_mix64 0x87c37b91114253d5 31 0x4cf5ad432745937f"

definition sim_k2_64 :: "u64 \<Rightarrow> u64 option" where
  "sim_k2_64 = sim_mix64 0x4cf5ad432745937f 33 0x87c37b91114253d5"

definition sim_body64 :: "lanes64 \<Rightarrow> lanes64 \<Rightarrow> lanes64 option" where
  "sim_body64 h k =
     (let (h1, h2) = h; (k1, k2) = k
      in do {
        k1 \<leftarrow> sim_k1_64 k1; let h1 = h1 XOR k1;
        h1 \<leftarrow> sim_rotl64 h1 27; let h1 = h1 + h2; let h1 = h1 * 5 + 0x52dce729;
        k2 \<leftarrow> sim_k2_64 k2; let h2 = h2 XOR k2;
        h2 \<leftarrow> sim_rotl64 h2 31; let h2 = h2 + h1; let h2 = h2 * 5 + 0x38495ab5;
        Some (h1, h2)
      })"

definition sim_tail64 :: "u8 list \<Rightarrow> int \<Rightarrow> nat \<Rightarrow> lanes_64 \<Rightarrow> lanes_64 option" where
  "sim_tail64 key tail label s =
     (let at = (\<lambda>j f. read8 key (tail + j) \<bind> (\<lambda>b. f (ucast b :: u64)))
      in if label = 15 then at 14 (\<lambda>b. Some (s\<lparr>wide_k2 := wide_k2 s XOR push_bit 48 b\<rparr>))
         else if label = 14 then at 13 (\<lambda>b. Some (s\<lparr>wide_k2 := wide_k2 s XOR push_bit 40 b\<rparr>))
         else if label = 13 then at 12 (\<lambda>b. Some (s\<lparr>wide_k2 := wide_k2 s XOR push_bit 32 b\<rparr>))
         else if label = 12 then at 11 (\<lambda>b. Some (s\<lparr>wide_k2 := wide_k2 s XOR push_bit 24 b\<rparr>))
         else if label = 11 then at 10 (\<lambda>b. Some (s\<lparr>wide_k2 := wide_k2 s XOR push_bit 16 b\<rparr>))
         else if label = 10 then at 9 (\<lambda>b. Some (s\<lparr>wide_k2 := wide_k2 s XOR push_bit 8 b\<rparr>))
         else if label = 9 then at 8 (\<lambda>b. do { k2 \<leftarrow> sim_k2_64 (wide_k2 s XOR b); Some (s\<lparr>wide_k2 := k2, wide_h2 := wide_h2 s XOR k2\<rparr>) })
         else if label = 8 then at 7 (\<lambda>b. Some (s\<lparr>wide_k1 := wide_k1 s XOR push_bit 56 b\<rparr>))
         else if label = 7 then at 6 (\<lambda>b. Some (s\<lparr>wide_k1 := wide_k1 s XOR push_bit 48 b\<rparr>))
         else if label = 6 then at 5 (\<lambda>b. Some (s\<lparr>wide_k1 := wide_k1 s XOR push_bit 40 b\<rparr>))
         else if label = 5 then at 4 (\<lambda>b. Some (s\<lparr>wide_k1 := wide_k1 s XOR push_bit 32 b\<rparr>))
         else if label = 4 then at 3 (\<lambda>b. Some (s\<lparr>wide_k1 := wide_k1 s XOR push_bit 24 b\<rparr>))
         else if label = 3 then at 2 (\<lambda>b. Some (s\<lparr>wide_k1 := wide_k1 s XOR push_bit 16 b\<rparr>))
         else if label = 2 then at 1 (\<lambda>b. Some (s\<lparr>wide_k1 := wide_k1 s XOR push_bit 8 b\<rparr>))
         else at 0 (\<lambda>b. do { k1 \<leftarrow> sim_k1_64 (wide_k1 s XOR b); Some (s\<lparr>wide_k1 := k1, wide_h1 := wide_h1 s XOR k1\<rparr>) }))"

definition sim_MurmurHash3_x64_128 :: "u8 list \<Rightarrow> c_int \<Rightarrow> u32 \<Rightarrow> u8 list \<Rightarrow> int \<Rightarrow> u8 list option" where
  "sim_MurmurHash3_x64_128 key len seed mem out =
     (let nblocks = c_div len 16
      in do {
        (h1, h2) \<leftarrow> loop_below (\<lambda>i h. do {
            k1 \<leftarrow> sim_getblock64 key 0 (sint i * 2 + 0);
            k2 \<leftarrow> sim_getblock64 key 0 (sint i * 2 + 1);
            sim_body64 h (k1, k2)
          }) nblocks 0 (ucast seed, ucast seed);
        s \<leftarrow> fall_through (sim_tail64 key (sint nblocks * 16)) (unat (len AND 15))
               \<lparr>wide_k1 = 0, wide_k2 = 0, wide_h1 = h1, wide_h2 = h2\<rparr>;
        let (h1, h2) = spread64 (wide_h1 s XOR word_of_int (sint len), wide_h2 s XOR word_of_int (sint len));
        h1 \<leftarrow> sim_fmix64 h1;
        h2 \<leftarrow> sim_fmix64 h2;
        let (h1, h2) = spread64 (h1, h2);
        mem \<leftarrow> write64 mem (out + 8 * 0) h1;
        write64 mem (out + 8 * 1) h2
      })"

section \<open>The helpers never shift too far\<close>

text \<open>Every count in the file lies strictly between 0 and the width.\<close>

lemma sim_rotl_defined:
  "0 < sint r \<Longrightarrow> sint r < 32 \<Longrightarrow> sim_rotl32 x r = Some (rotl32 x (nat (sint r)))"
  "0 < sint r \<Longrightarrow> sint r < 64 \<Longrightarrow> sim_rotl64 y r = Some (rotl64 y (nat (sint r)))"
  by (simp_all add: sim_rotl32_def sim_rotl64_def c_shl_def c_shr_def rotl32_def rotl64_def nat_diff_distrib)

lemma sim_fmix_defined [simp]: "sim_fmix32 h = Some (fmix32 h)" "sim_fmix64 k = Some (fmix64 k)"
  by (simp_all add: sim_fmix32_def sim_fmix64_def c_shr_def fmix32_def fmix64_def Let_def)

lemma sim_lanes_defined [simp]:
  "sim_k1_32 k = Some (scramble32 k)" "sim_k1_86 k = Some (k1_86 k)" "sim_k2_86 k = Some (k2_86 k)"
  "sim_k3_86 k = Some (k3_86 k)" "sim_k4_86 k = Some (k4_86 k)" "sim_k1_64 w = Some (k1_64 w)" "sim_k2_64 w = Some (k2_64 w)"
  by (simp_all add: sim_k1_32_def sim_k1_86_def sim_k2_86_def sim_k3_86_def sim_k4_86_def sim_k1_64_def sim_k2_64_def
      sim_mix32_def sim_mix64_def sim_rotl_defined scramble32_def scramble86_def Let_def
      k1_86_def k2_86_def k3_86_def k4_86_def k1_64_def k2_64_def)

lemma sim_body_defined [simp]:
  "sim_body32 h1 k1 = Some (body32 h1 k1)" "sim_body86 h k = Some (body86 h k)" "sim_body64 g l = Some (body64 g l)"
  by (simp_all add: sim_body32_def sim_body86_def sim_body64_def body32_def body86_def body64_def sim_rotl_defined Let_def
      split: prod.split)

section \<open>Reads\<close>

lemma read_getblock32:
  "0 \<le> int base + 4 * i \<Longrightarrow> int base + 4 * i + 4 \<le> int (length key) \<Longrightarrow> read32 key (int base + 4 * i) = Some (getblock32 key base i)"
  by (simp add: read_le_def getblock32_def)

lemma read_getblock64:
  "0 \<le> i \<Longrightarrow> 8 * i + 8 \<le> int (length key) \<Longrightarrow> read64 key (8 * i) = Some (getblock64 key 0 i)"
  by (simp add: read_le_def getblock64_def)

lemma read8_tail: "base + j < length key \<Longrightarrow> read8 key (int base + int j) = Some (key ! (base + j))"
  by (simp add: read8_def nat_int_add)

lemma blocks_sint: "n < 2 ^ 31 \<Longrightarrow> 0 < k \<Longrightarrow> k < 2 ^ 31 \<Longrightarrow> sint (c_div (of_nat n) (of_nat k)) = int (n div k)"
  using div_le_dividend [of n k] by (simp add: c_div_of_nat sint_of_nat_small del: div_le_dividend)

lemma len_low: "unat ((of_nat n :: c_int) AND 3) = n mod 4" "unat ((of_nat n :: c_int) AND 15) = n mod 16"
proof -
  have t: "unat (take_bit k (of_nat n :: c_int)) = n mod 2 ^ k" if "k \<le> 32" for k
    using that by (simp add: unsigned_take_bit_eq unsigned_of_nat min_def flip: take_bit_nat_def)
  have m: "(3 :: c_int) = mask 2" "(15 :: c_int) = mask 4" by (simp_all add: mask_eq_exp_minus_1)
  show "unat ((of_nat n :: c_int) AND 3) = n mod 4" "unat ((of_nat n :: c_int) AND 15) = n mod 16"
    using t [of 2] t [of 4] unfolding m take_bit_eq_mask by simp_all
qed

lemma fall_through_numeral [simp]:
  "fall_through stmt (numeral v) s = stmt (numeral v) s \<bind> fall_through stmt (pred_numeral v)"
  by (simp add: numeral_eq_Suc)

lemma below_4: "(n :: nat) < 4 \<Longrightarrow> n = 0 \<or> n = 1 \<or> n = 2 \<or> n = 3"
  by linarith

lemma below_16:
  assumes "(n :: nat) < 16"
  obtains a b where "n = 4 * a + b" "a = 0 \<or> a = 1 \<or> a = 2 \<or> a = 3" "b = 0 \<or> b = 1 \<or> b = 2 \<or> b = 3"
  using that [of "n div 4" "n mod 4"] below_4 [of "n div 4"] below_4 [of "n mod 4"] assms by simp

section \<open>The 32-bit hash\<close>

lemma sim_tail32_switch:
  assumes "base + n mod 4 \<le> length key"
  shows "\<exists>k1. fall_through (sim_tail32 key (int base)) (n mod 4) (0, h) = Some (k1, tail32 key base n h)"
proof -
  have r: "read8 key (int base + int j) = Some (key ! (base + j))" if "j < n mod 4" for j
    using assms that by (intro read8_tail) simp
  have "n mod 4 < 4" by simp
  then show ?thesis
    using below_4 [OF \<open>n mod 4 < 4\<close>] r [of 0] r [of 1] r [of 2]
    by (elim disjE) (simp_all add: sim_tail32_def tail32_def Let_def)
qed

lemma sim_x86_32:
  assumes "n < 2 ^ 31" "n \<le> length key"
  shows "sim_MurmurHash3_x86_32 key (of_nat n) seed mem out = write32 mem out (MurmurHash3_x86_32 key n seed)"
proof -
  let ?k = "n div 4"
  have n: "c_div (of_nat n) 4 = of_nat ?k" "sint (c_div (of_nat n) 4) = int ?k" "?k < 2 ^ 31" "?k * 4 + n mod 4 = n"
    using c_div_of_nat [OF assms(1), of 4] blocks_sint [OF assms(1), of 4] assms(1) by simp_all
  have body: "(sim_getblock32 key (int ?k * 4) (sint (word_of_int i :: c_int)) \<bind> sim_body32 h) = Some (body32 h (getblock32 key (?k * 4) i))"
    if "- int ?k \<le> i" "i < 0" for h i
  proof -
    have i: "sint (word_of_int i :: c_int) = i" using that n(3) by (intro sint_of_int_small) simp_all
    have "read32 key (int (?k * 4) + 4 * i) = Some (getblock32 key (?k * 4) i)"
      by (rule read_getblock32) (use that n(4) assms(2) in simp_all)
    then show ?thesis by (simp add: i sim_getblock32_def)
  qed
  have loop: "loop_to_zero (\<lambda>i h1. sim_getblock32 key (int ?k * 4) (sint i) \<bind> sim_body32 h1) (- of_nat ?k) seed =
      Some (foldl (\<lambda>h1 i. body32 h1 (getblock32 key (?k * 4) i)) seed [- int ?k..-1])"
    by (rule loop_to_zero_foldl [OF n(3)]) (rule body)
  obtain k1 where "fall_through (sim_tail32 key (int (?k * 4))) (n mod 4) (0, foldl (\<lambda>h1 i. body32 h1 (getblock32 key (?k * 4) i)) seed [- int ?k..-1]) =
      Some (k1, tail32 key (?k * 4) n (foldl (\<lambda>h1 i. body32 h1 (getblock32 key (?k * 4) i)) seed [- int ?k..-1]))"
    using sim_tail32_switch [of "?k * 4" n key] n(4) assms(2) by metis
  then show ?thesis
    unfolding sim_MurmurHash3_x86_32_def MurmurHash3_x86_32_def Let_def len_low n(2) [unfolded n(1)] n(1) loop
    by simp
qed

section \<open>The 128-bit hashes\<close>

lemma sim_tail86_switch:
  assumes "base + n mod 16 \<le> length key" "tail86 key base n (a, b, c, d) = (h1, h2, h3, h4)"
  shows "\<exists>s. fall_through (sim_tail86 key (int base)) (n mod 16)
      \<lparr>lane_k1 = 0, lane_k2 = 0, lane_k3 = 0, lane_k4 = 0, lane_h1 = a, lane_h2 = b, lane_h3 = c, lane_h4 = d\<rparr> = Some s \<and>
    lane_h1 s = h1 \<and> lane_h2 s = h2 \<and> lane_h3 s = h3 \<and> lane_h4 s = h4"
proof -
  have r: "read8 key (int base + j) = Some (key ! (base + nat j))" if "0 \<le> j" "nat j < n mod 16" for j
    using assms(1) read8_tail [of base "nat j" key] that by simp
  have "n mod 16 < 16" by simp
  then obtain x y where "n mod 16 = 4 * x + y" "x = 0 \<or> x = 1 \<or> x = 2 \<or> x = 3" "y = 0 \<or> y = 1 \<or> y = 2 \<or> y = 3"
    by (rule below_16)
  from this(2,3,1) assms(2) show ?thesis
    by (elim disjE) (simp_all add: sim_tail86_def tail86_def Let_def fall_def r r [of 0, simplified])
qed

lemma sim_tail64_switch:
  assumes "base + n mod 16 \<le> length key" "tail64 key base n (a, b) = (h1, h2)"
  shows "\<exists>s. fall_through (sim_tail64 key (int base)) (n mod 16) \<lparr>wide_k1 = 0, wide_k2 = 0, wide_h1 = a, wide_h2 = b\<rparr> = Some s \<and>
    wide_h1 s = h1 \<and> wide_h2 s = h2"
proof -
  have r: "read8 key (int base + j) = Some (key ! (base + nat j))" if "0 \<le> j" "nat j < n mod 16" for j
    using assms(1) read8_tail [of base "nat j" key] that by simp
  have "n mod 16 < 16" by simp
  then obtain x y where "n mod 16 = 4 * x + y" "x = 0 \<or> x = 1 \<or> x = 2 \<or> x = 3" "y = 0 \<or> y = 1 \<or> y = 2 \<or> y = 3"
    by (rule below_16)
  from this(2,3,1) assms(2) show ?thesis
    by (elim disjE) (simp_all add: sim_tail64_def tail64_def Let_def fall_def r r [of 0, simplified])
qed

text \<open>The four lanes, and the two, as they are stored through \<open>out\<close>.\<close>

definition store86 :: "u8 list \<Rightarrow> int \<Rightarrow> lanes86 \<Rightarrow> u8 list option" where
  "store86 mem out h = (case h of (h1, h2, h3, h4) \<Rightarrow>
     write32 mem out h1 \<bind> (\<lambda>mem. write32 mem (out + 4) h2 \<bind> (\<lambda>mem. write32 mem (out + 8) h3 \<bind> (\<lambda>mem. write32 mem (out + 12) h4))))"

definition store64 :: "u8 list \<Rightarrow> int \<Rightarrow> lanes64 \<Rightarrow> u8 list option" where
  "store64 mem out h = (case h of (h1, h2) \<Rightarrow> write64 mem out h1 \<bind> (\<lambda>mem. write64 mem (out + 8) h2))"

lemma sim_x86_128:
  assumes "n < 2 ^ 31" "n \<le> length key"
  shows "sim_MurmurHash3_x86_128 key (of_nat n) seed mem out = store86 mem out (MurmurHash3_x86_128 key n seed)"
proof -
  let ?k = "n div 16"
  let ?b = "getblock32 key (?k * 16)"
  let ?g = "\<lambda>h i. body86 h (?b (i * 4 + 0), ?b (i * 4 + 1), ?b (i * 4 + 2), ?b (i * 4 + 3))"
  let ?r = "\<lambda>(i :: c_int) j. sim_getblock32 key (int ?k * 16) (sint i * 4 + j)"
  let ?f = "\<lambda>i h. ?r i 0 \<bind> (\<lambda>k1. ?r i 1 \<bind> (\<lambda>k2. ?r i 2 \<bind> (\<lambda>k3. ?r i 3 \<bind> (\<lambda>k4. sim_body86 h (k1, k2, k3, k4)))))"
  have n: "c_div (of_nat n) 16 = of_nat ?k" "sint (c_div (of_nat n) 16) = int ?k" "?k < 2 ^ 31" "?k * 16 + n mod 16 = n"
    using c_div_of_nat [OF assms(1), of 16] blocks_sint [OF assms(1), of 16] assms(1) by simp_all
  have body: "?f (word_of_int i) h = Some (?g h i)" if "- int ?k \<le> i" "i < 0" for h i
  proof -
    have i: "sint (word_of_int i :: c_int) = i" using that n(3) by (intro sint_of_int_small) simp_all
    have "read32 key (int (?k * 16) + 4 * (i * 4 + j)) = Some (?b (i * 4 + j))" if "0 \<le> j" "j \<le> 3" for j
      by (rule read_getblock32) (use that \<open>- int ?k \<le> i\<close> \<open>i < 0\<close> n(4) assms(2) in simp_all)
    from this [of 0] this [of 1] this [of 2] this [of 3] show ?thesis by (simp add: i sim_getblock32_def)
  qed
  define h where "h = foldl ?g (seed, seed, seed, seed) [- int ?k..-1]"
  have loop: "loop_to_zero ?f (- of_nat ?k) (seed, seed, seed, seed) = Some h"
    unfolding h_def by (rule loop_to_zero_foldl [OF n(3)]) (rule body)
  obtain a b c d where h: "h = (a, b, c, d)" by (cases h)
  obtain h1 h2 h3 h4 where t: "tail86 key (?k * 16) n h = (h1, h2, h3, h4)" by (metis prod_cases4)
  have "?k * 16 + n mod 16 \<le> length key" using n(4) assms(2) by simp
  from sim_tail86_switch [OF this t [unfolded h]] obtain s where
    s: "fall_through (sim_tail86 key (int ?k * 16)) (n mod 16)
      \<lparr>lane_k1 = 0, lane_k2 = 0, lane_k3 = 0, lane_k4 = 0, lane_h1 = a, lane_h2 = b, lane_h3 = c, lane_h4 = d\<rparr> = Some s"
    "lane_h1 s = h1" "lane_h2 s = h2" "lane_h3 s = h3" "lane_h4 s = h4" by auto
  have r: "MurmurHash3_x86_128 key n seed = final86 n (h1, h2, h3, h4)"
    unfolding MurmurHash3_x86_128_def Let_def h_def [symmetric] t by simp
  show ?thesis
    unfolding sim_MurmurHash3_x86_128_def Let_def len_low n(2) [unfolded n(1)] n(1) loop r
    by (simp add: h s final86_def store86_def Let_def split: prod.split)
qed

lemma sim_x64_128:
  assumes "n < 2 ^ 31" "n \<le> length key"
  shows "sim_MurmurHash3_x64_128 key (of_nat n) seed mem out = store64 mem out (MurmurHash3_x64_128 key n seed)"
proof -
  let ?k = "n div 16"
  let ?b = "getblock64 key 0"
  let ?g = "\<lambda>h i. body64 h (?b (int i * 2 + 0), ?b (int i * 2 + 1))"
  let ?f = "\<lambda>(i :: c_int) h. sim_getblock64 key 0 (sint i * 2 + 0) \<bind> (\<lambda>k1. sim_getblock64 key 0 (sint i * 2 + 1) \<bind> (\<lambda>k2. sim_body64 h (k1, k2)))"
  have n: "c_div (of_nat n) 16 = of_nat ?k" "sint (c_div (of_nat n) 16) = int ?k" "?k < 2 ^ 31" "?k * 16 + n mod 16 = n"
    using c_div_of_nat [OF assms(1), of 16] blocks_sint [OF assms(1), of 16] assms(1) by simp_all
  have body: "?f (of_nat i) h = Some (?g h i)" if "i < ?k" for h i
  proof -
    have i: "sint (of_nat i :: c_int) = int i" using that n(3) by (intro sint_of_nat_small) simp
    have "read64 key (8 * (int i * 2 + j)) = Some (?b (int i * 2 + j))" if "0 \<le> j" "j \<le> 1" for j
      by (rule read_getblock64) (use that \<open>i < ?k\<close> n(4) assms(2) in simp_all)
    from this [of 0] this [of 1] show ?thesis by (simp add: i sim_getblock64_def)
  qed
  define h where "h = foldl ?g (ucast seed, ucast seed) [0..<?k]"
  have loop: "loop_below ?f (of_nat ?k) 0 (ucast seed, ucast seed) = Some h"
    unfolding h_def using loop_below_foldl [OF n(3), of 0 ?f ?g] body by simp
  obtain a b where h: "h = (a, b)" by (cases h)
  obtain h1 h2 where t: "tail64 key (?k * 16) n h = (h1, h2)" by (metis surj_pair)
  have "?k * 16 + n mod 16 \<le> length key" using n(4) assms(2) by simp
  from sim_tail64_switch [OF this t [unfolded h]] obtain s where
    s: "fall_through (sim_tail64 key (int ?k * 16)) (n mod 16) \<lparr>wide_k1 = 0, wide_k2 = 0, wide_h1 = a, wide_h2 = b\<rparr> = Some s"
    "wide_h1 s = h1" "wide_h2 s = h2" by auto
  have r: "MurmurHash3_x64_128 key n seed = final64 n (h1, h2)"
    unfolding MurmurHash3_x64_128_def Let_def h_def [symmetric] t by simp
  have len: "word_of_int (sint (of_nat n :: c_int)) = (of_nat n :: u64)" by (simp add: sint_of_nat_small [OF assms(1)])
  show ?thesis
    unfolding sim_MurmurHash3_x64_128_def Let_def len_low n(2) [unfolded n(1)] n(1) loop r len
    by (simp add: h s final64_def store64_def Let_def split: prod.split)
qed

section \<open>Properties\<close>

lemma store86_patch:
  "k + 16 \<le> length mem \<Longrightarrow> store86 mem (int k) (h1, h2, h3, h4) = Some (patch mem k (concat (map (le_bytes 4) [h1, h2, h3, h4])))"
  by (simp add: store86_def write32_def write_patch write_next)

lemma store64_patch:
  "k + 16 \<le> length mem \<Longrightarrow> store64 mem (int k) (h1, h2) = Some (patch mem k (concat (map (le_bytes 8) [h1, h2])))"
  by (simp add: store64_def write64_def write_patch write_next)

text \<open>
  Property C26. The simulator's copy of the three hashes is safe and right down to the pointers: for
  every length that an int can hold and the key has, no block or tail byte is read outside the
  key, no rotation or mix shifts too far, the result is written to the bytes behind \<open>out\<close> and nowhere else, and it is the little-endian
  image of the hash that the firmware's copy computes, so both victims number phones alike.
\<close>

theorem sim_hashes_agree:
  assumes "n < 2 ^ 31" "n \<le> length key" "k + 16 \<le> length mem"
  shows "sim_MurmurHash3_x86_32 key (of_nat n) seed mem (int k) = Some (patch mem k (le_bytes 4 (MurmurHash3_x86_32 key n seed))) \<and>
    (case MurmurHash3_x86_128 key n seed of (h1, h2, h3, h4) \<Rightarrow>
      sim_MurmurHash3_x86_128 key (of_nat n) seed mem (int k) = Some (patch mem k (concat (map (le_bytes 4) [h1, h2, h3, h4])))) \<and>
    (case MurmurHash3_x64_128 key n seed of (h1, h2) \<Rightarrow>
      sim_MurmurHash3_x64_128 key (of_nat n) seed mem (int k) = Some (patch mem k (concat (map (le_bytes 8) [h1, h2]))))"
  using assms(3) by (simp add: sim_x86_32 [OF assms(1,2)] sim_x86_128 [OF assms(1,2)] sim_x64_128 [OF assms(1,2)]
      write32_def write_patch store86_patch store64_patch split: prod.split)

theorem sim_hashes_agree_witness:
  "sim_MurmurHash3_x86_32 [0x74, 0x65, 0x73, 0x74, 0] (of_nat 4) 0 (replicate 25 0) (int 0) =
     Some (patch (replicate 25 0) 0 (le_bytes 4 (MurmurHash3_x86_32 [0x74, 0x65, 0x73, 0x74, 0] 4 0)))"
  using sim_hashes_agree [of 4 "[0x74, 0x65, 0x73, 0x74, 0]" 0 "replicate 25 0" 0] by simp

end
