(* ===== verification/SimMemory.thy ===== *)
theory SimMemory
  imports SimMurmur SimVictim
begin

text \<open>
  The simulator's emergencyPacket.h as a layout, and victim.cpp once more, as a program over the 25
  bytes of its packet: every field is read and written at its offset, the hash stores the phone
  through a pointer, and an access outside the packet would be an error. SimVictim works on
  records; the refinement says that both are the same packet.
\<close>

section \<open>Layout\<close>

datatype packet_member =
    MPhone
  | MTimestamp
  | MFlags
  | MPayload
  | MSignature

text \<open>A union is as large as its largest alternative: two 32-bit coordinates, or the nonce.\<close>

definition union_size :: nat where
  "union_size = max (4 + 4) 8"

definition packet_layout :: "(packet_member \<times> nat) list" where
  "packet_layout = [(MPhone, 4), (MTimestamp, 4), (MFlags, 1), (MPayload, union_size), (MSignature, 8)]"

text \<open>The attribute \<open>packed\<close>: each member starts where the one before ends.\<close>

fun member_offset :: "(packet_member \<times> nat) list \<Rightarrow> packet_member \<Rightarrow> nat" where
  "member_offset [] m = 0"
| "member_offset ((m', n) # ms) m = (if m' = m then 0 else n + member_offset ms m)"

definition offset_of :: "packet_member \<Rightarrow> int" where
  "offset_of m = int (member_offset packet_layout m)"

definition sizeof_packet :: nat where
  "sizeof_packet = sum_list (map snd packet_layout)"

definition latitude_at :: int where
  "latitude_at = offset_of MPayload"

definition longitude_at :: int where
  "longitude_at = offset_of MPayload + 4"

definition nonce_at :: int where
  "nonce_at = offset_of MPayload"

text \<open>The static assertion of the header, and where the members start.\<close>

lemma layout_values [simp]:
  "sizeof_packet = 25" "offset_of MPhone = 0" "offset_of MTimestamp = 4" "offset_of MFlags = 8"
  "offset_of MPayload = 9" "offset_of MSignature = 17" "latitude_at = 9" "longitude_at = 13" "nonce_at = 9"
  by (simp_all add: sizeof_packet_def offset_of_def packet_layout_def union_size_def latitude_at_def longitude_at_def nonce_at_def)

section \<open>The victim\<close>

definition sim_secret_key :: "u8 list" where
  "sim_secret_key =
     [0x01, 0x02, 0x03, 0x04, 0x05, 0x06, 0x07, 0x08,
      0x09, 0x0a, 0x0b, 0x0c, 0x0d, 0x0e, 0x0f, 0x10,
      0x11, 0x12, 0x13, 0x14, 0x15, 0x16, 0x17, 0x18,
      0x19, 0x1a, 0x1b, 0x1c, 0x1d, 0x1e, 0x1f, 0x20]"

definition update32 :: "u8 list \<Rightarrow> int \<Rightarrow> (u32 \<Rightarrow> u32) \<Rightarrow> u8 list option" where
  "update32 mem a f = read32 mem a \<bind> (\<lambda>w. write32 mem a (f w))"

definition update64 :: "u8 list \<Rightarrow> int \<Rightarrow> (u64 \<Rightarrow> u64) \<Rightarrow> u8 list option" where
  "update64 mem a f = read64 mem a \<bind> (\<lambda>w. write64 mem a (f w))"

definition update8 :: "u8 list \<Rightarrow> int \<Rightarrow> (u8 \<Rightarrow> u8) \<Rightarrow> u8 list option" where
  "update8 mem a f = read8 mem a \<bind> (\<lambda>b. write8 mem a (f b))"

definition mem_fields :: "(u8 list \<Rightarrow> u32) \<Rightarrow> arguments \<Rightarrow> u64 \<Rightarrow> int \<Rightarrow> u8 list option" where
  "mem_fields coord a nonce now = do {
     mem \<leftarrow> Some (replicate sizeof_packet 0);
     mem \<leftarrow> sim_MurmurHash3_x86_32 (argv1 a) (of_nat (strlen (argv1 a))) MURMUR_SEED mem (offset_of MPhone);
     mem \<leftarrow> write32 mem (offset_of MTimestamp) (of_int (now sdiv 60));
     if strcmp_eq (argv2 a) (c_string ''1'') then do {
       mem \<leftarrow> write32 mem latitude_at (coord (argv3 a));
       mem \<leftarrow> write32 mem longitude_at (coord (argv4 a));
       update8 mem (offset_of MFlags) (\<lambda>f. f OR push_bit 7 1)
     } else write64 mem nonce_at nonce
   }"

definition mem_network_order :: "arguments \<Rightarrow> u8 list \<Rightarrow> u8 list option" where
  "mem_network_order a mem = do {
     mem \<leftarrow> update32 mem (offset_of MPhone) htonl;
     mem \<leftarrow> update32 mem (offset_of MTimestamp) htonl;
     if strcmp_eq (argv2 a) (c_string ''0'') then update64 mem nonce_at htobe64
     else do {
       mem \<leftarrow> update32 mem latitude_at htonl;
       update32 mem longitude_at htonl
     }
   }"

definition mem_victim_packet :: "hmac_fun \<Rightarrow> (u8 list \<Rightarrow> u32) \<Rightarrow> arguments \<Rightarrow> int \<Rightarrow> u8 list option" where
  "mem_victim_packet mac coord a now = do {
     mem \<leftarrow> mem_fields coord a 0 now;
     mem \<leftarrow> mem_network_order a mem;
     let hash = mac sim_secret_key mem;
     mem \<leftarrow> write_bytes mem (offset_of MSignature) (take 8 hash);
     update8 mem (offset_of MFlags) (\<lambda>f. f OR SIM_TTL)
   }"

section \<open>Records in memory\<close>

lemma le_bytes_split: "le_bytes (m + n) w = le_bytes m w @ le_bytes n (drop_bit (8 * m) w)"
  by (auto simp: list_eq_iff_nth_eq nth_le_bytes nth_append algebra_simps)

lemma le_bytes_gps: "le_bytes 8 u = le_bytes 4 (gps_latitude u) @ le_bytes 4 (gps_longitude u)"
proof -
  have cut: "le_bytes 4 (ucast v :: u32) = le_bytes 4 (v :: u64)" for v
    by (rule nth_equalityI) (auto simp: nth_le_bytes intro!: bit_word_eqI simp: bit_simps)
  show ?thesis using le_bytes_split [of 4 4 u] by (simp add: gps_latitude_def gps_longitude_def cut)
qed

lemma write_packet:
  assumes "wf_packet p"
  shows "write32 (packet_bytes p) 0 w = Some (packet_bytes (p\<lparr>phone := w\<rparr>))"
    "write32 (packet_bytes p) 4 w = Some (packet_bytes (p\<lparr>timestamp := w\<rparr>))"
    "write8 (packet_bytes p) 8 b = Some (packet_bytes (p\<lparr>flags := b\<rparr>))"
    "write64 (packet_bytes p) 9 v = Some (packet_bytes (p\<lparr>payload := v\<rparr>))"
    "write32 (packet_bytes p) 9 w = Some (packet_bytes (p\<lparr>payload := set_latitude w (payload p)\<rparr>))"
    "write32 (packet_bytes p) 13 w = Some (packet_bytes (p\<lparr>payload := set_longitude w (payload p)\<rparr>))"
    "length sig = 8 \<Longrightarrow> write_bytes (packet_bytes p) 17 sig = Some (packet_bytes (p\<lparr>hmac_sig := sig\<rparr>))"
  using assms by (simp_all add: write32_def write64_def write8_def write_bytes_def packet_bytes_def wf_packet_def SIG_LEN_def le_bytes_gps)

lemma read_packet:
  assumes "wf_packet p"
  shows "read32 (packet_bytes p) 0 = Some (phone p)" "read32 (packet_bytes p) 4 = Some (timestamp p)"
    "read8 (packet_bytes p) 8 = Some (flags p)" "read64 (packet_bytes p) 9 = Some (payload p)"
  using assms by (simp_all add: read_le_def read8_def packet_bytes_def wf_packet_def SIG_LEN_def nth_append)

lemma read_packet_gps:
  assumes "wf_packet p"
  shows "read32 (packet_bytes p) 9 = Some (gps_latitude (payload p))" "read32 (packet_bytes p) 13 = Some (gps_longitude (payload p))"
  using assms by (simp_all add: read_le_def packet_bytes_def wf_packet_def SIG_LEN_def le_bytes_gps)

lemmas packet_memory = write_packet read_packet read_packet_gps

lemma le_bytes_0: "le_bytes n 0 = replicate n 0"
  by (simp add: le_bytes_def list_eq_iff_nth_eq)

lemma zero_memory: "replicate 25 0 = packet_bytes zero_packet"
  by (simp add: packet_bytes_def zero_packet_def SIG_LEN_def le_bytes_0 numeral_eq_Suc)

section \<open>Refinement\<close>

lemma strlen_bound: "strlen s \<le> length s"
  by (simp add: strlen_def length_takeWhile_le)

lemma mem_fields_refines:
  assumes "strlen (argv1 a) < 2 ^ 31"
  shows "mem_fields coord a nonce now = Some (packet_bytes (sim_fields coord a nonce now))"
  by (simp add: mem_fields_def zero_memory sim_x86_32 [OF assms strlen_bound] packet_memory update8_def
      sim_fields_def Let_def del: of_int_of_nat_eq)

lemma mem_network_order_refines:
  assumes "wf_packet p"
  shows "mem_network_order a (packet_bytes p) = Some (packet_bytes (sim_network_order a p))"
  using assms by (simp add: mem_network_order_def sim_network_order_def packet_memory update32_def update64_def Let_def)

section \<open>Properties\<close>

text \<open>
  Property C5. The packet in the memory of victim.cpp, built field by field at the offsets of the
  simulator's emergencyPacket.h, is the one SimVictim describes: no access leaves the 25 bytes,
  the two alternatives of the union overlap as the protocol needs it, and the key is the
  receivers' key.
\<close>

theorem sim_victim_memory:
  assumes "digest_ok mac" "strlen (argv1 a) < 2 ^ 31"
  shows "mem_victim_packet mac coord a now = Some (packet_bytes (sim_victim_packet mac coord a now))"
proof -
  let ?p = "sim_network_order a (sim_fields coord a 0 now)"
  have key: "sim_secret_key = SECRET_KEY" by (simp add: sim_secret_key_def SECRET_KEY_def)
  have wf: "wf_packet ?p" by simp
  have sig: "memcpy (hmac_sig ?p) (mac SECRET_KEY (packet_bytes ?p)) 8 = take 8 (mac SECRET_KEY (packet_bytes ?p))"
    using wf by (simp add: memcpy_def wf_packet_def SIG_LEN_def)
  have l: "length (take 8 (mac SECRET_KEY (packet_bytes ?p))) = 8" using assms(1) by simp
  let ?q = "?p\<lparr>hmac_sig := take 8 (mac SECRET_KEY (packet_bytes ?p))\<rparr>"
  have wq: "wf_packet ?q" using l by (simp add: wf_packet_def SIG_LEN_def)
  show ?thesis
    unfolding mem_victim_packet_def mem_fields_refines [OF assms(2)] sim_victim_packet_def Let_def key sig
    using write_packet(7) [OF wf l] write_packet(3) [OF wq] read_packet(3) [OF wq]
    by (simp add: mem_network_order_refines update8_def)
qed

theorem sim_victim_memory_witness:
  "mem_victim_packet toy_mac (\<lambda>_. 5) sample_arguments 125 = Some (packet_bytes (sim_victim_packet toy_mac (\<lambda>_. 5) sample_arguments 125))"
proof -
  have "strlen (argv1 sample_arguments) < 2 ^ 31" by (simp add: sample_arguments_def strlen_def c_string_def)
  from sim_victim_memory [OF digest_ok_toy this] show ?thesis .
qed

end
