(* ===== verification/ScanOutput.thy ===== *)
theory ScanOutput
  imports Scanner
begin

text \<open>
  What the Python scanners print about a packet, line by line, and the ports of the backend.
  \<open>datetime.fromtimestamp\<close> has no year 10000: for a minute after that it raises ValueError, which
  ends the callback; the lines printed up to then stay. Colours, and the quotients of the
  coordinates, which are floats, are left out: a line has the values it prints.
\<close>

section \<open>Model\<close>

datatype scan_line =
    AlertLine string
  | RssiLine int
  | PhoneLine u32
  | TimestampLine int
  | TtlLine nat
  | LocationLine int int
  | NonceLine nat
  | IntegrityLine bool
  | RuleLine

text \<open>\<open>tz\<close>: the offset of local time in seconds. The bound is the first second of the year 10000.\<close>

definition fromtimestamp :: "int \<Rightarrow> int \<Rightarrow> int option" where
  "fromtimestamp tz s = (if s + tz < 253402300800 then Some (s + tz) else None)"

definition location_line :: "scan_location \<Rightarrow> scan_line" where
  "location_line l = (case l of Coordinates lat lon \<Rightarrow> LocationLine lat lon | Nonce n \<Rightarrow> NonceLine n)"

text \<open>The lines, and whether the callback ended with an exception.\<close>

definition print_report :: "int \<Rightarrow> scan_line list \<Rightarrow> scan_report \<Rightarrow> scan_line list \<times> bool" where
  "print_report tz heading r =
     (let start = heading @ [PhoneLine (scan_phone r)]
      in case fromtimestamp tz (uint (scan_timestamp r) * 60) of
           None \<Rightarrow> (start, True)
         | Some local \<Rightarrow>
             (start @ [TimestampLine local, TtlLine (scan_ttl r), location_line (scan_location r),
                IntegrityLine (scan_valid r), RuleLine], False))"

definition udp_print :: "int \<Rightarrow> string \<Rightarrow> scan_report \<Rightarrow> scan_line list \<times> bool" where
  "udp_print tz addr r = print_report tz [AlertLine addr] r"

definition ble_print :: "int \<Rightarrow> string \<Rightarrow> int \<Rightarrow> scan_report \<Rightarrow> scan_line list \<times> bool" where
  "ble_print tz address rssi r = print_report tz [AlertLine address, RssiLine rssi] r"

text \<open>The port a gateway sends to, in the template of secrets.h, and the one the server listens on.\<close>

definition SERVER_PORT :: nat where
  "SERVER_PORT = 5000"

definition UDP_PORT :: nat where
  "UDP_PORT = 8080"

definition server_hears :: "(nat \<times> u8 list) list \<Rightarrow> u8 list list" where
  "server_hears sent = [bs. (port, bs) \<leftarrow> sent, port = UDP_PORT]"

section \<open>Properties\<close>

lemma server_hears_nothing: "server_hears (map (\<lambda>bs. (SERVER_PORT, bs)) frames) = []"
  by (induction frames) (simp_all add: server_hears_def SERVER_PORT_def UDP_PORT_def)

lemma server_hears_all: "server_hears (map (\<lambda>bs. (UDP_PORT, bs)) frames) = frames"
  by (induction frames) (simp_all add: server_hears_def)

lemma integrity_in_report:
  "IntegrityLine b \<in> set (fst (print_report tz heading r)) \<longleftrightarrow>
     IntegrityLine b \<in> set heading \<or> b = scan_valid r \<and> \<not> snd (print_report tz heading r)"
  by (auto simp: print_report_def Let_def location_line_def split: option.split scan_location.split)

text \<open>
  Property C39. For every frame that the server reports, it prints whether the signature is valid,
  and prints the truth, unless the frame's minute lies after the year 9999; then the callback
  ends with an exception before that line, whoever sent the frame and however it is signed.
\<close>

theorem server_prints_integrity:
  assumes "datagram_received mac cache data now = (cache', Some r)"
  shows "(IntegrityLine b \<in> set (fst (udp_print tz addr r)) \<longleftrightarrow>
      b = verify_hmac mac (drop 2 data) \<and> uint (timestamp (bytes_packet (drop 2 data))) * 60 + tz < 253402300800) \<and>
    (snd (udp_print tz addr r) \<longleftrightarrow> 253402300800 \<le> uint (timestamp (bytes_packet (drop 2 data))) * 60 + tz)"
proof -
  have r: "r = scan_packet mac (drop 2 data)"
    using assms by (auto simp: datagram_received_def Let_def split: if_splits)
  have "snd (udp_print tz addr r) \<longleftrightarrow> 253402300800 \<le> uint (timestamp (bytes_packet (drop 2 data))) * 60 + tz"
    by (auto simp: udp_print_def print_report_def fromtimestamp_def r scan_packet_def Let_def)
  moreover have "scan_valid r = verify_hmac mac (drop 2 data)" by (simp add: r scan_packet_def Let_def)
  ultimately show ?thesis using integrity_in_report [of b tz "[AlertLine addr]" r] by (auto simp: udp_print_def)
qed

text \<open>A frame from the last minute a packet can have.\<close>

theorem server_prints_integrity_witness:
  "\<exists>r. snd (datagram_received (\<lambda>k m. replicate 32 0) Map.empty (mesh_frame (sample_packet\<lparr>timestamp := 0xFFFFFFFF\<rparr>)) 7) = Some r \<and>
     snd (udp_print 7200 ''10.0.0.1'' r) \<and> IntegrityLine True \<notin> set (fst (udp_print 7200 ''10.0.0.1'' r))"
proof -
  let ?p = "sample_packet\<lparr>timestamp := 0xFFFFFFFF\<rparr>"
  obtain c r where d: "datagram_received (\<lambda>k m. replicate 32 0) Map.empty (mesh_frame ?p) 7 = (c, Some r)"
    by (simp add: datagram_frame)
  have "drop 2 (mesh_frame ?p) = packet_bytes ?p" by (simp add: mesh_frame_def)
  with server_prints_integrity [OF d, of True 7200 "''10.0.0.1''"] d show ?thesis by (intro exI [of _ r]) simp
qed

end
