(* ===== verification/EspVictim.thy ===== *)
theory EspVictim
  imports Signing Murmur "HOL-Library.Signed_Division"
begin

text \<open>
  The source of the mesh, esp-victim.cpp: the packet it builds and signs, and the loop that
  rebuilds it when the minute changes and sends it in bursts. What \<open>time(nullptr)\<close> returns is an
  input, one value for each call; the outcome of mbedTLS (\<open>md_ok\<close>: the digest is available and
  the call returns 0) and its HMAC are parameters.
\<close>

section \<open>Model\<close>

definition VICTIM_PHONE :: "u8 list" where
  "VICTIM_PHONE = c_string ''+40712345678''"

definition USE_GPS :: bool where
  "USE_GPS = True"

definition TEST_LATITUDE :: int where
  "TEST_LATITUDE = 444378000"

definition TEST_LONGITUDE :: int where
  "TEST_LONGITUDE = 260472000"

definition TIME_OFFSET :: u32 where
  "TIME_OFFSET = word_of_int (1782864000 div 60)"

definition VICTIM_TTL :: u8 where
  "VICTIM_TTL = 20"

definition VICTIM_CID :: u16 where
  "VICTIM_CID = 0xFFFF"

definition buildEmergencyPacket :: "hmac_fun \<Rightarrow> bool \<Rightarrow> u64 \<Rightarrow> int \<Rightarrow> emergencyPacket" where
  "buildEmergencyPacket mac md_ok nonce now =
     (let p = zero_packet;
          p = p\<lparr>phone := MurmurHash3_x86_32 VICTIM_PHONE (strlen VICTIM_PHONE) MURMUR_SEED\<rparr>;
          p = p\<lparr>timestamp := TIME_OFFSET + of_int (now sdiv 60)\<rparr>;
          p = (if USE_GPS
               then (let p = p\<lparr>payload := set_latitude (of_int TEST_LATITUDE) (payload p)\<rparr>;
                         p = p\<lparr>payload := set_longitude (of_int TEST_LONGITUDE) (payload p)\<rparr>
                     in p\<lparr>flags := flags p OR push_bit 7 1\<rparr>)
               else p\<lparr>payload := nonce\<rparr>);
          p = (if md_ok
               then (let hash = mac SECRET_KEY (take (size p - length (hmac_sig p)) (packet_bytes p))
                     in p\<lparr>hmac_sig := memcpy (hmac_sig p) hash 8\<rparr>)
               else p)
      in p\<lparr>flags := flags p OR VICTIM_TTL\<rparr>)"

definition payloadData :: "emergencyPacket \<Rightarrow> u8 list" where
  "payloadData p = le_bytes 2 VICTIM_CID @ packet_bytes p"

record victim =
  nonce :: u64
  globalPacket :: emergencyPacket
  lastMinute :: u32
  manufacturerData :: "u8 list"
  on_air :: bool

datatype victim_event =
    UpdatedLine
  | BurstOn "u8 list"
  | Delay nat
  | BurstOff

definition victim_setup :: "hmac_fun \<Rightarrow> bool \<Rightarrow> int \<Rightarrow> victim" where
  "victim_setup mac md_ok t =
     (let p = buildEmergencyPacket mac md_ok 1 t
      in \<lparr>nonce = 1, globalPacket = p, lastMinute = TIME_OFFSET,
          manufacturerData = payloadData p, on_air = False\<rparr>)"

text \<open>
  One pass of \<open>loop\<close>: \<open>t1\<close> is the time read by the test, \<open>t2\<close> the one stored as the last
  minute, \<open>t3\<close> the one read by buildEmergencyPacket. The minute is compared as a 64-bit time\_t.
\<close>

definition victim_loop :: "hmac_fun \<Rightarrow> bool \<Rightarrow> victim \<Rightarrow> int \<times> int \<times> int \<Rightarrow> victim \<times> victim_event list" where
  "victim_loop mac md_ok s ts =
     (case ts of (t1, t2, t3) \<Rightarrow>
        let (s, evs) =
              (if t1 sdiv 60 \<noteq> uint (lastMinute s)
               then (let p = buildEmergencyPacket mac md_ok (nonce s) t3
                     in (s\<lparr>lastMinute := of_int (t2 sdiv 60), globalPacket := p,
                           manufacturerData := payloadData p\<rparr>, [UpdatedLine]))
               else (s, []));
            s = s\<lparr>on_air := True\<rparr>;
            evs = evs @ [BurstOn (manufacturerData s), Delay 500];
            s = s\<lparr>on_air := False\<rparr>
        in (s, evs @ [BurstOff, Delay 4500]))"

primrec victim_run :: "hmac_fun \<Rightarrow> bool \<Rightarrow> victim \<Rightarrow> (int \<times> int \<times> int) list \<Rightarrow> victim \<times> victim_event list list" where
  "victim_run mac md_ok s [] = (s, [])"
| "victim_run mac md_ok s (x # xs) =
     (let (s1, evs) = victim_loop mac md_ok s x; (s2, evss) = victim_run mac md_ok s1 xs
      in (s2, evs # evss))"

section \<open>The packet\<close>

lemma strlen_phone: "strlen VICTIM_PHONE = 12"
  by code_simp

lemma sdiv_nonneg: "0 \<le> t \<Longrightarrow> t sdiv 60 = t div (60 :: int)"
  by (simp add: signed_divide_int_def sgn_if)

lemma build_fields:
  fixes mac :: hmac_fun and md_ok :: bool and n :: u64 and t :: int
  assumes "digest_ok mac"
  defines "p \<equiv> buildEmergencyPacket mac md_ok n t"
  shows "wf_packet p" "packet_ttl p = 20" "flags p = 0x94" "flag_core (flags p) = 0x80"
    "phone p = MurmurHash3_x86_32 VICTIM_PHONE 12 112"
    "timestamp p = 29714400 + of_int (t sdiv 60)"
    "gps_latitude (payload p) = 444378000" "gps_longitude (payload p) = 260472000"
  by (simp_all add: p_def buildEmergencyPacket_def USE_GPS_def Let_def wf_packet_def SIG_LEN_def
      zero_packet_def assms(1) strlen_phone MURMUR_SEED_def VICTIM_TTL_def TIME_OFFSET_def
      TEST_LATITUDE_def TEST_LONGITUDE_def packet_ttl_def ttl_of_mask flag_core_def)

lemma build_sig:
  assumes "digest_ok mac"
  shows "hmac_sig (buildEmergencyPacket mac True n t) =
    take 8 (mac SECRET_KEY (signed_body (buildEmergencyPacket mac True n t)))"
  using assms
  by (simp add: buildEmergencyPacket_def USE_GPS_def Let_def SIG_LEN_def zero_packet_def signed_body_def
      packet_core_def packet_bytes_def size_emergencyPacket_ext_def memcpy_def flag_core_def VICTIM_TTL_def)

lemma build_no_digest: "hmac_sig (buildEmergencyPacket mac False n t) = replicate 8 0"
  by (simp add: buildEmergencyPacket_def USE_GPS_def Let_def SIG_LEN_def zero_packet_def)

section \<open>The loop\<close>

text \<open>
  The state at time \<open>T\<close>: the frame on the radio is that of a packet built at some time \<open>u\<close>, and
  the last minute is the initial one or that of a read made before.
\<close>

definition victim_inv :: "hmac_fun \<Rightarrow> bool \<Rightarrow> int \<Rightarrow> victim \<Rightarrow> bool" where
  "victim_inv mac md_ok T s \<longleftrightarrow> nonce s = 1 \<and> \<not> on_air s \<and> manufacturerData s = payloadData (globalPacket s) \<and>
     (\<exists>u. 0 \<le> u \<and> u \<le> T \<and> globalPacket s = buildEmergencyPacket mac md_ok 1 u \<and>
       (lastMinute s = TIME_OFFSET \<or> (\<exists>r. r \<le> u \<and> uint (lastMinute s) = r div 60)))"

text \<open>The clock never went back and has not been set past the fixed offset (56 years).\<close>

definition clock_ok :: "int \<Rightarrow> int \<times> int \<times> int \<Rightarrow> bool" where
  "clock_ok T x \<longleftrightarrow> (case x of (t1, t2, t3) \<Rightarrow> T \<le> t1 \<and> t1 \<le> t2 \<and> t2 \<le> t3 \<and> t3 < 1782864000)"

lemma uint_TIME_OFFSET: "uint TIME_OFFSET = 29714400"
  by (simp add: TIME_OFFSET_def)

lemma uint_minute: "0 \<le> t \<Longrightarrow> t < 1782864000 \<Longrightarrow> uint (of_int (t sdiv 60) :: u32) = t div 60"
  by (simp add: sdiv_nonneg uint_word_of_int)

lemma setup_inv: "0 \<le> t \<Longrightarrow> victim_inv mac md_ok t (victim_setup mac md_ok t)"
  by (auto simp: victim_inv_def victim_setup_def Let_def)

lemma victim_loop_inv:
  assumes "victim_inv mac md_ok T s" "clock_ok T (t1, t2, t3)"
  shows "victim_inv mac md_ok t3 (fst (victim_loop mac md_ok s (t1, t2, t3)))"
proof -
  from assms(1) obtain u where u: "0 \<le> u" "u \<le> T" "globalPacket s = buildEmergencyPacket mac md_ok 1 u"
    "lastMinute s = TIME_OFFSET \<or> (\<exists>r. r \<le> u \<and> uint (lastMinute s) = r div 60)"
    unfolding victim_inv_def by blast
  have t: "0 \<le> t1" "u \<le> t1" "t1 \<le> t2" "t2 \<le> t3" "t3 < 1782864000"
    using assms(2) u by (simp_all add: clock_ok_def)
  show ?thesis
  proof (cases "t1 sdiv 60 = uint (lastMinute s)")
    case True
    moreover have "nonce s = 1" "\<not> on_air s" "manufacturerData s = payloadData (globalPacket s)"
      using assms(1) by (simp_all add: victim_inv_def)
    moreover from u t have "u \<le> t3" by simp
    ultimately show ?thesis
      using u(1,3,4) by (simp add: victim_inv_def victim_loop_def Let_def) metis
  next
    case False
    have "uint (of_int (t2 sdiv 60) :: u32) = t2 div 60" using t by (intro uint_minute) simp_all
    then have "\<exists>r \<le> t3. uint (of_int (t2 sdiv 60) :: u32) = r div 60" using t by blast
    moreover have "nonce s = 1" using assms(1) by (simp add: victim_inv_def)
    moreover have "0 \<le> t3" using t by simp
    ultimately show ?thesis
      using False unfolding victim_inv_def
      by (intro conjI exI [of _ t3]) (simp_all add: victim_loop_def Let_def)
  qed
qed

lemma victim_loop_current:
  assumes "victim_inv mac md_ok T s" "clock_ok T (t1, t2, t3)" "t3 div 60 = t1 div 60" "digest_ok mac"
  shows "\<exists>u. globalPacket (fst (victim_loop mac md_ok s (t1, t2, t3))) = buildEmergencyPacket mac md_ok 1 u \<and>
    u sdiv 60 = t1 div 60"
proof -
  from assms(1) obtain u where u: "0 \<le> u" "u \<le> T" "globalPacket s = buildEmergencyPacket mac md_ok 1 u"
    "lastMinute s = TIME_OFFSET \<or> (\<exists>r. r \<le> u \<and> uint (lastMinute s) = r div 60)"
    unfolding victim_inv_def by blast
  have t: "0 \<le> t1" "u \<le> t1" "t1 \<le> t2" "t2 \<le> t3" "t3 < 1782864000"
    using assms(2) u by (simp_all add: clock_ok_def)
  show ?thesis
  proof (cases "t1 sdiv 60 = uint (lastMinute s)")
    case True
    with t have m: "uint (lastMinute s) = t1 div 60" by (simp add: sdiv_nonneg)
    with t have "lastMinute s \<noteq> TIME_OFFSET" by (auto simp: uint_TIME_OFFSET)
    with u m obtain r where "r \<le> u" "r div 60 = t1 div 60" by auto
    then have "u div 60 = t1 div 60"
      using t zdiv_mono1 [of r u 60] zdiv_mono1 [of u t1 60] by simp
    with True u show ?thesis
      by (auto simp: victim_loop_def Let_def sdiv_nonneg intro!: exI [of _ u])
  next
    case False
    with assms t show ?thesis
      by (auto simp: victim_loop_def Let_def sdiv_nonneg victim_inv_def intro!: exI [of _ t3])
  qed
qed

primrec clock_run :: "int \<Rightarrow> (int \<times> int \<times> int) list \<Rightarrow> bool" where
  "clock_run T [] = True"
| "clock_run T (x # xs) = (clock_ok T x \<and> clock_run (snd (snd x)) xs)"

lemma victim_run_snoc:
  "fst (victim_run mac md_ok s (xs @ [x])) = fst (victim_loop mac md_ok (fst (victim_run mac md_ok s xs)) x)"
  by (induction xs arbitrary: s) (simp_all add: split_beta Let_def)

lemma victim_run_inv:
  assumes "victim_inv mac md_ok T s" "clock_run T (xs @ [x])"
  shows "\<exists>T'. victim_inv mac md_ok T' (fst (victim_run mac md_ok s xs)) \<and> clock_ok T' x"
  using assms
proof (induction xs arbitrary: s T)
  case (Cons y xs)
  obtain t1 t2 t3 where y: "y = (t1, t2, t3)" by (cases y)
  with Cons.IH [of t3 "fst (victim_loop mac md_ok s y)"] Cons.prems victim_loop_inv [of mac md_ok T s t1 t2 t3]
  show ?case by (simp add: split_beta Let_def)
qed auto

text \<open>
  The same with an HMAC that fails on some passes and not on others: each pass comes with the
  outcome of a build that it makes, and is listed with that outcome and its events. A pass builds
  when it says so, and \<open>last\_outcome\<close> is that of the latest build.
\<close>

primrec victim_passes :: "hmac_fun \<Rightarrow> victim \<Rightarrow> (bool \<times> int \<times> int \<times> int) list \<Rightarrow> victim \<times> (bool \<times> victim_event list) list" where
  "victim_passes mac s [] = (s, [])"
| "victim_passes mac s (x # xs) =
     (let (s1, evs) = victim_loop mac (fst x) s (snd x); (s2, ys) = victim_passes mac s1 xs
      in (s2, (fst x, evs) # ys))"

definition last_outcome :: "bool \<Rightarrow> (bool \<times> victim_event list) list \<Rightarrow> bool" where
  "last_outcome ok ys = foldl (\<lambda>b (ok', evs). if UpdatedLine \<in> set evs then ok' else b) ok ys"

lemma victim_passes_snoc:
  "victim_passes mac s (xs @ [x]) =
     (let (s1, ys) = victim_passes mac s xs; (s2, evs) = victim_loop mac (fst x) s1 (snd x)
      in (s2, ys @ [(fst x, evs)]))"
  by (induction xs arbitrary: s) (simp_all add: split_beta Let_def)

lemma last_outcome_snoc: "last_outcome ok (ys @ [(ok', evs)]) = (if UpdatedLine \<in> set evs then ok' else last_outcome ok ys)"
  by (simp add: last_outcome_def)

lemma last_outcome_Cons: "last_outcome ok ((ok', evs) # ys) = last_outcome (if UpdatedLine \<in> set evs then ok' else ok) ys"
  by (simp add: last_outcome_def)

lemma victim_pass:
  assumes "victim_inv mac L T s" "clock_ok T (t1, t2, t3)" "victim_loop mac ok s (t1, t2, t3) = (s', evs)"
  defines "L' \<equiv> if UpdatedLine \<in> set evs then ok else L"
  shows "victim_inv mac L' t3 s'" "\<exists>pre. set pre \<subseteq> {UpdatedLine} \<and>
      evs = pre @ [BurstOn (payloadData (globalPacket s')), Delay 500, BurstOff, Delay 4500]"
    "t3 div 60 = t1 div 60 \<Longrightarrow> digest_ok mac \<Longrightarrow> timestamp (globalPacket s') = 29714400 + of_int (t1 div 60)"
proof -
  have n: "nonce s = 1" "manufacturerData s = payloadData (globalPacket s)" using assms(1) by (simp_all add: victim_inv_def)
  have t: "0 \<le> t3" "t1 \<le> t2" "t2 \<le> t3" "t3 < 1782864000" "0 \<le> t1"
    using assms(1,2) by (auto simp: victim_inv_def clock_ok_def)
  have "victim_inv mac L' t3 s' \<and> (t3 div 60 = t1 div 60 \<longrightarrow> digest_ok mac \<longrightarrow>
      timestamp (globalPacket s') = 29714400 + of_int (t1 div 60))"
  proof (cases "t1 sdiv 60 = uint (lastMinute s)")
    case True
    then have "victim_loop mac L s (t1, t2, t3) = (s', evs)" "L' = L"
      using assms(3) by (auto simp: victim_loop_def L'_def Let_def)
    with victim_loop_inv [OF assms(1,2)] victim_loop_current [OF assms(1,2)] show ?thesis
      by (auto simp: build_fields(6))
  next
    case False
    then have s': "s' = s\<lparr>lastMinute := of_int (t2 sdiv 60), globalPacket := buildEmergencyPacket mac ok 1 t3,
        manufacturerData := payloadData (buildEmergencyPacket mac ok 1 t3), on_air := False\<rparr>" "L' = ok"
      using assms(3) n(1) by (auto simp: victim_loop_def L'_def Let_def)
    have "uint (of_int (t2 sdiv 60) :: u32) = t2 div 60" using t by (intro uint_minute) simp_all
    then have "\<exists>r \<le> t3. uint (of_int (t2 sdiv 60) :: u32) = r div 60" using t(3) by blast
    then have "victim_inv mac L' t3 s'"
      unfolding victim_inv_def s' by (intro conjI exI [of _ t3]) (simp_all add: n(1) t(1))
    then show ?thesis using t(1) by (simp add: s' build_fields(6) sdiv_nonneg)
  qed
  then show "victim_inv mac L' t3 s'" "t3 div 60 = t1 div 60 \<Longrightarrow> digest_ok mac \<Longrightarrow>
      timestamp (globalPacket s') = 29714400 + of_int (t1 div 60)" by blast+
  from assms(3) n(2) show "\<exists>pre. set pre \<subseteq> {UpdatedLine} \<and>
      evs = pre @ [BurstOn (payloadData (globalPacket s')), Delay 500, BurstOff, Delay 4500]"
    by (cases "t1 sdiv 60 = uint (lastMinute s)") (auto simp: victim_loop_def Let_def)
qed

lemma victim_passes_inv:
  assumes "victim_inv mac ok T s" "clock_run T (map snd xs @ [x])"
  shows "\<exists>T'. victim_inv mac (last_outcome ok (snd (victim_passes mac s xs))) T' (fst (victim_passes mac s xs)) \<and> clock_ok T' x"
  using assms
proof (induction xs arbitrary: s T ok)
  case Nil
  then show ?case by (auto simp: last_outcome_def)
next
  case (Cons y xs)
  obtain ok' t1 t2 t3 where y: "y = (ok', t1, t2, t3)" by (cases y)
  obtain s1 evs where l: "victim_loop mac ok' s (t1, t2, t3) = (s1, evs)" by (cases "victim_loop mac ok' s (t1, t2, t3)")
  have c: "clock_ok T (t1, t2, t3)" "clock_run t3 (map snd xs @ [x])" using Cons.prems(2) by (simp_all add: y)
  from Cons.IH [OF victim_pass(1) [OF Cons.prems(1) c(1) l] c(2)] show ?case
    by (simp only: y l split_beta Let_def fst_conv snd_conv victim_passes.simps last_outcome_Cons)
qed

lemma build_outcome:
  assumes "digest_ok mac"
  shows "hmac_sig (buildEmergencyPacket mac ok n t) =
    (if ok then take 8 (mac SECRET_KEY (signed_body (buildEmergencyPacket mac ok n t))) else replicate 8 0)"
  using build_sig [OF assms] build_no_digest by (cases ok) simp_all

section \<open>Properties\<close>

text \<open>
  Property C35. The packet of the victim: the hash of its phone number, the minute counter, the
  GPS bit with the test coordinates, a TTL of 20, and as signature the first eight bytes of the
  HMAC over the first 17 bytes with the TTL bits still zero.
\<close>

theorem esp_victim_packet:
  assumes "digest_ok mac"
  shows "wf_packet (buildEmergencyPacket mac True n t) \<and>
    phone (buildEmergencyPacket mac True n t) = MurmurHash3_x86_32 VICTIM_PHONE 12 112 \<and>
    timestamp (buildEmergencyPacket mac True n t) = 29714400 + of_int (t sdiv 60) \<and>
    flags (buildEmergencyPacket mac True n t) = 0x94 \<and>
    packet_ttl (buildEmergencyPacket mac True n t) = 20 \<and>
    gps_latitude (payload (buildEmergencyPacket mac True n t)) = 444378000 \<and>
    gps_longitude (payload (buildEmergencyPacket mac True n t)) = 260472000 \<and>
    hmac_sig (buildEmergencyPacket mac True n t) = take 8 (mac SECRET_KEY
      (take 17 (packet_bytes ((buildEmergencyPacket mac True n t)\<lparr>flags := 0x80\<rparr>))))"
  using build_fields [OF assms, of True n t] build_sig [OF assms, of n t]
  by (simp add: signed_body_def packet_core_def)

theorem esp_victim_packet_witness:
  "wf_packet (buildEmergencyPacket toy_mac True 1 125) \<and>
   timestamp (buildEmergencyPacket toy_mac True 1 125) = 29714402"
  using esp_victim_packet [OF digest_ok_toy, of 1 125] by (simp add: sdiv_nonneg)





end
