(* ===== verification/Spec2Isabelle.thy ===== *)
theory Spec2Isabelle
  imports Rescue Sockets ListenerConsole SimStart Murmur128 EspNet EspChain EspStorm CacheBounds EspDrain EspRepeats Generated SimMemory ScanOutput EspVictim
begin

text \<open>
  A verification library for ble-beacon-mesh, a flooding mesh for emergency packets. The
  repository has three programs around one 25-byte packet: the ESP32 firmware under arduino (the
  victim that signs and advertises packets, the relay that is also the gateway to Wi-Fi), a UDP
  simulator of the same mesh under udp-simulator (victim, relay node, exit node, a debugging
  listener), and Python scanners under python-scanner that check and print what arrives.

  \<^bold>\<open>How the parts interact.\<close> A victim builds a packet, signs its first 17 bytes with the TTL bits
  zero, sets a TTL of 20 and sends it in bursts. A relay keeps the signatures it has seen in a
  cache. A packet with an unknown signature has its TTL decremented and is sent on: by the
  simulator's node at once on every network, by the ESP32 after a random delay, unless it heard
  the packet from four senders by then. A gateway with Wi-Fi sends the received bytes to the
  server instead, where the scanner clears the TTL bits, recomputes the signature and reports.

  \<^bold>\<open>Theories.\<close>
  Prelude: machine integers, their byte images, memcpy and memcmp, byte order.
  Packet: emergencyPacket.h, its memory image and union, the TTL bits, and the hop rule
  \<open>ttl_hop\<close> that node.cpp and esp-relay.cpp share; the interfaces \<open>byte_image\<close> and
  \<open>hop_limited\<close> (what a chain of relays keeps and how long it can be).
  RecentStore: the contract of a duplicate filter, locale \<open>recent_store\<close>, and what its clients
  get from it (a stream passes each key at most once).
  CircularBuff: lib/circularBuff.cpp, a table of 256 signatures; it refines a queue and
  interprets \<open>recent_store\<close>.
  SimNode, SimExit: the receive loops of node.cpp and exit.cpp as a step from datagram to datagram.
  Mesh: many such nodes, on any topology, with datagrams that arrive in any order or get lost.
  Floods: many packets at once; the network refines one abstract flood per signature.
  SimNet: a whole simulation, a victim, relay nodes and exit nodes, on the lemmas of Mesh.
  Rescue: the same with several victims, whose packets the nodes carry at once, on those of Floods.
  Sockets: the system calls with which node.cpp, exit.cpp and victim.cpp set up their sockets.
  TimedFilter, TimeAwareCache: the contract of a filter with expiry that also counts senders, and
  timeAwareCache.cpp, which provides it (checkCache, addToCache, expiry, eviction, sender count).
  EspRelay: esp-relay.cpp, the scan callback \<open>onResult\<close> and the main \<open>relay_loop\<close>; the two tasks,
  which share the cache under a mutex, as the step relation \<open>relay_step\<close>.
  EspTasks: its \<open>setup\<close>, and the tasks at a finer grain, \<open>task_step\<close>, where the callback can run in
  the middle of the end of a burst, which the main loop carries out without the mutex.
  EspStorm: storm suppression over runs of the tasks. CacheBounds: the cache and the tasks with
  every array access checked, equal to the unchecked ones in all states the tasks can reach.
  EspNet: a network of such relays and gateways, their outside senders and the server.
  BlockHash: the contract of a hash that absorbs a key in blocks, locale \<open>block_hash\<close>.
  Murmur, Murmur128: MurmurHash3.cpp, the helpers, the 32-bit hash of the phone number and the two
  128-bit hashes; all three interpret \<open>block_hash\<close>.
  Signing: keys, C strings, and the scanners' signature check.
  EspVictim, SimVictim: esp-victim.cpp and victim.cpp, packet assembly, signature and send loops.
  Listener: listener.cpp, with its out-of-bounds copy as an error value; ListenerConsole: all that
  it prints. SimStart: the arguments of victim.cpp, and who starts it with which.
  CMemory, SimMurmur, SimMemory: the simulator's copies once more, at the level of C: objects as
  bytes with checked bounds and shifts, lengths and counters as ints; public/MurmurHash3.cpp, the layout
  of the simulator's emergencyPacket.h, and victim.cpp building its packet at the offsets.
  Scanner, ScanOutput: the receivers of udp-scanner.py and ble-scanner.py, and what they print.
  EspChain: a packet on its way along a chain of ESP32 relays to a gateway, among the steps of
  the other relays.
  EspDrain: the main loop of a relay over many passes, until no packet waits.
  EspRepeats: a gateway that hears a packet again and again, as a rate limiter.
  Depths, Generator: tools/generate\_mesh.py, the breadth-first search as a partial function, and
  the rest: dialogue, random placement, exit nodes, compose file.
  Generated: the simulation that a generated compose file starts, on SimNet.
  This theory: the properties that span programs.

  \<^bold>\<open>Correspondence.\<close> A C struct is a record and its packed image a list of bytes; the union is its
  64 bits of storage. A uint8\_t, uint16\_t, uint32\_t or uint64\_t is a word of that width, so
  sums of clock values wrap as in the code. Global and static variables are fields of a state
  record that each operation returns updated. Log lines, datagrams and radio commands are events;
  the clock, Wi-Fi status, interface lists, random delays and received bytes are inputs. An array
  access that could leave the array is None in CacheBounds and CMemory and an error in Listener;
  elsewhere arrays are lists, whose lengths the invariants fix. SimMemory refines
  the packet of SimVictim: \<open>mem_victim_packet\<close> is the memory image of \<open>sim_victim_packet\<close>. The
  random draws of the generator are records that satisfy what Python's \<open>random\<close> promises
  (\<open>draws_ok\<close>), and the order in which Python goes through a set is a function \<open>ord\<close>.

  \<^bold>\<open>What the lemmas show.\<close> Each stateful theory has an invariant, a case
  rule with the branches of the operation, and the proof that every operation keeps the
  invariant: \<open>wf_buffer\<close>, \<open>node_inv\<close>, \<open>exit_inv\<close>,
  \<open>cache_inv\<close>, \<open>relay_inv\<close>, \<open>victim_inv\<close>, and for the
  networks \<open>flood_inv\<close>, \<open>traffic_inv\<close>, \<open>net_inv\<close>,
  \<open>rescue_inv\<close>, \<open>tasks_inv\<close>, \<open>esp_inv\<close>. The properties
  state functional behaviour on every branch, the window and the capacity of both filters,
  at-most-once forwarding and delivery, suppression by redundancy, that no access leaves the
  relay's arrays, the safety of what is on air,
  the termination, cost and reach of a flood and of a whole simulation, that a network of relays
  sends and the server prints only what an outside sender broadcast, round trips between sender
  and receivers, the refinement of a queue by the signature table, of independent floods by the
  network and of a rate limiter by the gateway, the equivalence of the three hashes with a
  one-pass reference and of the two copies of the hashes, the refinement of the simulated
  victim's packet by its memory, that the generator's depths are distances, its exit nodes on
  the furthest networks and its compose file closed, and, as liveness, that a packet reaches a
  gateway along every chain of idle relays and every exit node of a generated simulation, that
  the packets of several victims all do, and that a relay's loop works off its queue.

  \<^bold>\<open>Bounds and fuel.\<close> The scans of the tables, the send loop and the flood terminate by a measure.
  Only the Wi-Fi wait has fuel, as it depends on the clock; 17 tests are enough when each delay of
  500 ms takes between half a second and fifteen minutes. At-most-once forwarding holds for up to 256
  different signatures, the size of the table. A flood reaches all connected nodes when there are
  fewer nodes than the packet's TTL, and several floods do so while at most 256 signatures travel.

  \<^bold>\<open>Assumptions.\<close> HMAC-SHA-256 comes from libraries; it is a parameter \<open>mac\<close>, of which only the
  length of the digest is assumed. The coordinates of the simulated victim are a parameter, the
  value of an expression on doubles. In EspRelay and EspTasks the critical section of the callback
  is one step, as the mutex is taken to work; EspTasks splits the end of a burst, which the code
  does outside of it. A topology is a parameter: who receives a broadcast, and who is in range.

  \<^bold>\<open>Not modelled.\<close> Terminal output of the C++ programs beyond its events, the text form of the sender
  address that the listener prints, the results of the simulator's socket calls (the code ignores
  them), the alignment of the word pointers in MurmurHash3.cpp, the shell scripts that start and stop containers, reading the template and writing the compose
  file, the event loops of the scanners, and circularBuff.h of the firmware, which nothing includes.

  \<^bold>\<open>Order of work.\<close> First the packet, the two filters and the two relays; then the victims, the
  receivers and the network of simulator nodes; then the whole simulation, the interleaving of the
  relay's tasks, the network of ESP32 relays, several floods at once and the 128-bit hashes; then
  the generator with the simulations it sets up, the progress of a packet through the ESP32 mesh,
  the simulator's victim and hashes in memory, the queue of a relay, the exit nodes under the
  traffic of several victims, the gateway as a rate limiter, and how the programs are started.
  Left is code without behaviour of its own: headers, glue and container scripts.
\<close>

section \<open>End to end\<close>

lemma payloadData_frame: "payloadData p = frame_bytes p" "mesh_frame p = frame_bytes p"
  by (simp_all add: payloadData_def VICTIM_CID_def frame_bytes_def TARGET_CID_def mesh_frame_def
      frame_bytes_eq [unfolded frame_bytes_def TARGET_CID_def])

text \<open>What the victim's packet looks like to a scanner, after \<open>k\<close> relays.\<close>

definition victim_report :: "int \<Rightarrow> nat \<Rightarrow> scan_report" where
  "victim_report t k =
     \<lparr>scan_phone = MurmurHash3_x86_32 VICTIM_PHONE 12 112,
      scan_timestamp = 29714400 + of_int (t sdiv 60), scan_ttl = 20 - k,
      scan_location = Coordinates 444378000 260472000, scan_valid = True\<rparr>"

lemma scan_relayed:
  assumes "digest_ok mac" "relay_chain hop_packet k (buildEmergencyPacket mac True n t) = Some q"
  shows "wf_packet q" "scan_packet mac (packet_bytes q) = victim_report t k"
proof -
  let ?p = "buildEmergencyPacket mac True n t"
  have core: "packet_core q = packet_core ?p" and hops: "packet_ttl q + k = 20"
    using ttl.chain_core [OF assms(2)] ttl.chain_hops [OF assms(2)] build_fields(2) [OF assms(1)] by simp_all
  have wp: "wf_packet ?p" by (rule build_fields(1) [OF assms(1)])
  show wq: "wf_packet q" using verify_core(1) [OF core wp] .
  have "verify_hmac mac (packet_bytes ?p)"
    using build_sig [OF assms(1), of n t] by (simp add: verify_packet [OF wp])
  then have v: "verify_hmac mac (packet_bytes q)" using verify_core(2) [OF core wp] by simp
  have "bit (flag_core 0x94) 7" by (simp add: flag_core_def)
  moreover have "packet_ttl q = 20 - k" using hops by simp
  ultimately show "scan_packet mac (packet_bytes q) = victim_report t k"
    using v packet_core_eqs [OF core]
    by (simp add: scan_packet_bytes [OF wq] victim_report_def build_fields [OF assms(1)])
qed

text \<open>
  Property C14. A packet that the ESP32 victim signed is accepted after any number of relays: it
  can be relayed up to 19 times, no relay breaks its signature, and the Bluetooth scanner reports
  the victim's phone hash, minute and coordinates with the TTL lowered by the number of relays.
\<close>

theorem esp_packet_verified_after_hops:
  assumes "digest_ok mac"
  shows "(relay_chain hop_packet k (buildEmergencyPacket mac True n t) \<noteq> None \<longleftrightarrow> k < 20) \<and>
    (\<forall>q. relay_chain hop_packet k (buildEmergencyPacket mac True n t) = Some q \<longrightarrow>
      ble_callback mac [0xFFFF \<mapsto> packet_bytes q] = Some (victim_report t k))"
  using ttl.chain_defined [of k "buildEmergencyPacket mac True n t"]
  by (auto simp: build_fields(2) [OF assms] ble_callback_def scan_relayed [OF assms])

theorem esp_packet_verified_after_hops_witness:
  "\<exists>q. relay_chain hop_packet 3 (buildEmergencyPacket toy_mac True 1 125) = Some q \<and>
    ble_callback toy_mac [0xFFFF \<mapsto> packet_bytes q] = Some (victim_report 125 3)"
  using esp_packet_verified_after_hops [OF digest_ok_toy, of 3 1 125] by auto

text \<open>
  From the victim to the server: a victim's packet that reaches a connected gateway
  after any number of relays, and is new to it, leaves as three UDP packets, of which the server
  prints exactly one, with a valid signature and the victim's data, when they arrive within 20 ms
  of each other and the server has not printed this packet in the 20 ms before.
\<close>

theorem gateway_delivers_victim:
  assumes "digest_ok mac" "relay_chain hop_packet k (buildEmergencyPacket mac True n t) = Some q"
    "cache_inv (relay_cache s)" "wf_mac sender" "look now (relay_cache s) (hmac_sig q) = None"
    "case sc (hmac_sig q) of None \<Rightarrow> True | Some t0 \<Rightarrow> t0 + SCAN_CACHE_TTL \<le> u0"
    "u1 < u0 + SCAN_CACHE_TTL" "u2 < u0 + SCAN_CACHE_TTL"
  shows "\<exists>s' evs. onResult s (Some (payloadData q)) sender now True j = Some (s', evs) \<and>
    scan_run mac sc (zip (udp_packets evs) [u0, u1, u2]) = [victim_report t k]"
proof -
  note q = scan_relayed [OF assms(1,2)]
  obtain s' evs where r: "onResult s (Some (frame_bytes q)) sender now True j = Some (s', evs)"
    and u: "udp_packets evs = [mesh_frame q, mesh_frame q, mesh_frame q]"
    by (rule onResult_gateway [OF assms(3) q(1) assms(4,5), of j]) (simp add: payloadData_frame)
  have "scan_run mac sc (zip (udp_packets evs) [u0, u1, u2]) = [scan_packet mac (packet_bytes q)]"
    unfolding u zip_Cons_Cons
    by (rule scan_run_burst [OF q(1), where cache = sc and t = u0]) (use assms(6-8) in auto)
  with r q(2) show ?thesis by (simp add: payloadData_frame)
qed

theorem gateway_delivers_victim_witness:
  "\<exists>q s' evs. onResult relay_init (Some (payloadData q)) sample_mac 1000 True 60 = Some (s', evs) \<and>
    scan_run toy_mac Map.empty (zip (udp_packets evs) [7, 300, 900]) = [victim_report 125 3]"
proof -
  obtain q where q: "relay_chain hop_packet 3 (buildEmergencyPacket toy_mac True 1 125) = Some q"
    using ttl.chain_defined [of 3 "buildEmergencyPacket toy_mac True 1 125"] by (auto simp: build_fields(2))
  have c: "cache_inv (relay_cache relay_init)" "look 1000 (relay_cache relay_init) (hmac_sig q) = None"
    by (simp_all add: relay_init_def zero_cache_inv)
  from gateway_delivers_victim [OF digest_ok_toy q c(1) sample_shapes(1) c(2), where sc = Map.empty and ?u0.0 = 7 and ?u1.0 = 300 and ?u2.0 = 900 and j = 60]
  show ?thesis by (auto simp: SCAN_CACHE_TTL_def)
qed


text \<open>Two relays, started a minute apart, and a gateway.\<close>

definition sample_legs :: "leg list" where
  "sample_legs =
     [\<lparr>leg_node = 4, leg_mac = sample_mac, leg_heard = 1000, leg_jitter = 60, leg_poll = 1070\<rparr>,
      \<lparr>leg_node = 2, leg_mac = sample_mac, leg_heard = 61150, leg_jitter = 200, leg_poll = 61350\<rparr>]"

definition sample_gateway :: leg where
  "sample_gateway = \<lparr>leg_node = 9, leg_mac = sample_mac, leg_heard = 500, leg_jitter = 50, leg_poll = 0\<rparr>"

text \<open>While the packet waits in the first relay, node 7, which is not in the chain, has a callback.\<close>

definition sample_start :: "u8 list \<Rightarrow> esp_action list" where
  "sample_start x = [hd (journey x sample_legs sample_gateway), Outside 7 None sample_mac 1005 False 60]"


text \<open>
  Relays neither break nor repair signatures: what a relay has on air, in any state
  it can reach, comes from a frame it received that is valid exactly if the frame on air is.
\<close>

theorem relay_keeps_signatures:
  assumes "relay_run xs s" "advertising s"
  shows "\<exists>p q sender now wifi j. Advert (Some (frame_bytes p)) sender now wifi j \<in> set xs \<and>
    advData s = frame_bytes q \<and> hmac_sig q = hmac_sig p \<and>
    (verify_hmac mac (packet_bytes q) \<longleftrightarrow> verify_hmac mac (packet_bytes p))"
proof -
  from relay_run_inv [OF assms(1)] assms(2) obtain q where q: "q \<in> hopped xs" "advData s = frame_bytes q"
    by (auto simp: relay_inv_def radio_ok_def)
  from q(1) obtain p sender now wifi j where p: "wf_packet p"
    "Advert (Some (frame_bytes p)) sender now wifi j \<in> set xs" "hop_packet p = Some q"
    by (auto simp: hopped_def)
  from hop_packet_Some [OF p(3)] verify_core(2) [of q p mac] p(1,2) q(2) show ?thesis by metis
qed

theorem relay_keeps_signatures_witness:
  "\<exists>s q. relay_run [Advert (Some (frame_bytes sample_packet)) sample_mac 1000 False 60, Tick 1060] s \<and>
     advData s = frame_bytes q \<and> hmac_sig q = hmac_sig sample_packet \<and>
     (verify_hmac toy_mac (packet_bytes q) \<longleftrightarrow> verify_hmac toy_mac (packet_bytes sample_packet))"
proof -
  obtain s where s: "relay_run [Advert (Some (frame_bytes sample_packet)) sample_mac 1000 False 60, Tick 1060] s"
    "advertising s" by (rule sample_run)
  have f: "packet_bytes p = packet_bytes sample_packet \<Longrightarrow> hmac_sig p = hmac_sig sample_packet" for p
    by (metis packet_bytes_sig)
  from relay_keeps_signatures [OF s, of toy_mac] obtain p q where
    "packet_bytes p = packet_bytes sample_packet" "advData s = frame_bytes q" "hmac_sig q = hmac_sig p"
    "verify_hmac toy_mac (packet_bytes q) \<longleftrightarrow> verify_hmac toy_mac (packet_bytes p)"
    by (auto simp: frame_bytes_def)
  with f [of p] s(1) show ?thesis by auto
qed

end
